(* ===== verification/Go_Prelude.thy ===== *)
theory Go_Prelude
  imports Main "HOL-Library.Word"
begin

text \<open>
  What the components of the program share: the types of the Go values they exchange, the error
  values of the standard library they test for, panics, and the slice operations
  (\<open>slices.Index\<close>, \<open>append(s[:i], s[i+1:]...)\<close>) written on lists. A Go \<open>string\<close> is a sequence
  of bytes; it is an Isabelle \<^typ>\<open>string\<close>, whose characters are bytes, and the binary protocols
  use lists of 8-bit words. \<open>string(buf)\<close> and \<open>[]byte(s)\<close> are the two conversions.
\<close>

section \<open>Types\<close>

type_synonym byte = "8 word"
type_synonym bytes = "byte list"
type_synonym u16 = "16 word"
type_synonym u32 = "32 word"

text \<open>The \<open>Id\<close> of a TCP client, a Go \<open>uint\<close> (64 bits on the platforms the program runs on).\<close>

type_synonym peer_id = "64 word"

text \<open>
  The error values the program distinguishes with \<open>errors.Is\<close>, any other error with its text,
  and \<open>errors.Join\<close> of two errors.
\<close>

datatype go_error =
    EOF
  | UnexpectedEOF
  | NetClosed
  | ConnReset
  | ErrText string
  | ErrJoin go_error go_error

text \<open>\<open>errors.Is err target\<close>: the error itself or one of the errors it joins.\<close>

fun errors_Is :: "go_error \<Rightarrow> go_error \<Rightarrow> bool" where
  "errors_Is (ErrJoin a b) t = (ErrJoin a b = t \<or> errors_Is a t \<or> errors_Is b t)"
| "errors_Is e t = (e = t)"

text \<open>The run-time panics that the modelled code could raise.\<close>

datatype go_panic = IndexOutOfRange | NilDereference | CloseOfClosedChannel | IntegerDivideByZero

named_theorems step_defs \<open>definitions of the operations a step of a component is made of\<close>

section \<open>Strings and bytes\<close>

definition byte_of_char :: "char \<Rightarrow> byte" where
  "byte_of_char c = word_of_nat (of_char c)"

definition char_of_byte :: "byte \<Rightarrow> char" where
  "char_of_byte b = char_of (unat b)"

definition bytes_of_string :: "string \<Rightarrow> bytes" where
  "bytes_of_string = map byte_of_char"

definition string_of_bytes :: "bytes \<Rightarrow> string" where
  "string_of_bytes = map char_of_byte"

lemma char_of_byte_of_char [simp]: "char_of_byte (byte_of_char c) = c"
proof -
  have "of_char c < (256 :: nat)" by (fact nat_of_char_less_256)
  then have "unat (byte_of_char c) = of_char c"
    by (simp add: byte_of_char_def unat_of_nat)
  then show ?thesis by (simp add: char_of_byte_def)
qed

lemma byte_of_char_of_byte [simp]: "byte_of_char (char_of_byte b) = b"
proof -
  have "unat b < 256" using unsigned_less [of b] by simp
  then show ?thesis by (simp add: char_of_byte_def byte_of_char_def)
qed

lemma string_of_bytes_of_string [simp]: "string_of_bytes (bytes_of_string s) = s"
  by (simp add: string_of_bytes_def bytes_of_string_def comp_def)

lemma bytes_of_string_of_bytes [simp]: "bytes_of_string (string_of_bytes b) = b"
  by (simp add: string_of_bytes_def bytes_of_string_def comp_def)

lemma length_bytes_of_string [simp]: "length (bytes_of_string s) = length s"
  by (simp add: bytes_of_string_def)

lemma length_string_of_bytes [simp]: "length (string_of_bytes b) = length b"
  by (simp add: string_of_bytes_def)

text \<open>The decimal digits that the verb \<open>%d\<close> prints for a count.\<close>

fun Itoa :: "nat \<Rightarrow> string" where
  "Itoa n = (if n < 10 then [char_of (48 + n)] else Itoa (n div 10) @ [char_of (48 + n mod 10)])"

declare Itoa.simps [simp del]

lemma Itoa_not_Nil [simp]: "Itoa n \<noteq> []"
  by (subst Itoa.simps) simp

section \<open>Slices\<close>

text \<open>\<open>slices.Index\<close>: the first position of an element; Go's \<open>-1\<close> is \<open>None\<close>.\<close>

fun slices_Index :: "'a list \<Rightarrow> 'a \<Rightarrow> nat option" where
  "slices_Index [] x = None"
| "slices_Index (y # ys) x = (if y = x then Some 0 else map_option Suc (slices_Index ys x))"

text \<open>\<open>append(s[:i], s[i+1:]...)\<close>, as the value of the new slice.\<close>

definition remove_at :: "nat \<Rightarrow> 'a list \<Rightarrow> 'a list" where
  "remove_at i xs = take i xs @ drop (Suc i) xs"

text \<open>The value of a map of slices at a key that may be absent: the nil slice is empty.\<close>

definition lookup_list :: "('k \<rightharpoonup> 'v list) \<Rightarrow> 'k \<Rightarrow> 'v list" where
  "lookup_list m k = (case m k of None \<Rightarrow> [] | Some xs \<Rightarrow> xs)"

lemma lookup_list_empty [simp]: "lookup_list Map.empty k = []"
  by (simp add: lookup_list_def)

lemma lookup_list_upd [simp]:
  "lookup_list (m(k \<mapsto> xs)) k' = (if k' = k then xs else lookup_list m k')"
  by (simp add: lookup_list_def)

lemma slices_Index_None [simp]: "slices_Index xs x = None \<longleftrightarrow> x \<notin> set xs"
  by (induction xs) auto

lemma slices_Index_Some:
  "slices_Index xs x = Some i \<Longrightarrow> i < length xs \<and> xs ! i = x \<and> (\<forall>j<i. xs ! j \<noteq> x)"
proof (induction xs arbitrary: i)
  case Nil
  then show ?case by simp
next
  case (Cons y ys)
  show ?case
  proof (cases "y = x")
    case True
    with Cons.prems show ?thesis by auto
  next
    case False
    with Cons.prems obtain k where "i = Suc k" "slices_Index ys x = Some k"
      by auto
    with Cons.IH [of k] False show ?thesis
      by (auto simp: less_Suc_eq_0_disj)
  qed
qed

lemma slices_Index_exists: "x \<in> set xs \<Longrightarrow> \<exists>i. slices_Index xs x = Some i"
  by (metis not_None_eq slices_Index_None)

lemma length_remove_at [simp]:
  "i < length xs \<Longrightarrow> length (remove_at i xs) = length xs - 1"
  by (simp add: remove_at_def)

lemma set_remove_at_subset: "set (remove_at i xs) \<subseteq> set xs"
  by (auto simp: remove_at_def dest: in_set_takeD in_set_dropD)

lemma remove_at_split:
  "i < length xs \<Longrightarrow> \<exists>ys zs. xs = ys @ xs ! i # zs \<and> remove_at i xs = ys @ zs \<and> length ys = i"
  by (rule exI [of _ "take i xs"], rule exI [of _ "drop (Suc i) xs"])
    (simp add: remove_at_def id_take_nth_drop [symmetric])

lemma distinct_remove_at: "distinct xs \<Longrightarrow> distinct (remove_at i xs)"
  by (auto simp: remove_at_def set_take_disj_set_drop_if_distinct)

lemma set_remove_at_distinct:
  assumes "distinct xs" and "i < length xs"
  shows "set (remove_at i xs) = set xs - {xs ! i}"
proof -
  obtain ys zs where e: "xs = ys @ xs ! i # zs" and r: "remove_at i xs = ys @ zs"
    using remove_at_split [OF assms(2)] by blast
  from e assms(1) have "distinct (ys @ xs ! i # zs)" by metis
  then have "set (ys @ zs) = set (ys @ xs ! i # zs) - {xs ! i}" by auto
  with e r show ?thesis by metis
qed

lemma set_remove_at_insert:
  "i < length xs \<Longrightarrow> set xs = insert (xs ! i) (set (remove_at i xs))"
proof -
  assume "i < length xs"
  then obtain ys zs where "xs = ys @ xs ! i # zs" and "remove_at i xs = ys @ zs"
    using remove_at_split by blast
  then show ?thesis by (metis Un_insert_right list.simps(15) set_append)
qed

end
