(* ===== verification/Go_Machine.thy ===== *)
theory Go_Machine
  imports Go_Prelude
begin

text \<open>
  The servers of the program are goroutines that own their state and handle one message at a
  time (\<open>for { select { case message := <-messages: ... } }\<close>). Such a loop is a step function
  from a state and a message to a panic or to the next state and the effects of the message (the
  writes it makes), and its run over a sequence of messages. The locales state what a component
  has to show for one step and give it for every run.
\<close>

section \<open>Runs of a handler loop\<close>

type_synonym ('s, 'e, 'o) handler = "'s \<Rightarrow> 'e \<Rightarrow> go_panic + 's \<times> 'o list"

fun run :: "('s, 'e, 'o) handler \<Rightarrow> 's \<Rightarrow> 'e list \<Rightarrow> go_panic + 's \<times> 'o list" where
  "run step s [] = Inr (s, [])"
| "run step s (e # es) =
     (case step s e of
        Inl p \<Rightarrow> Inl p
      | Inr (s', os) \<Rightarrow>
          (case run step s' es of Inl p \<Rightarrow> Inl p | Inr (t, os') \<Rightarrow> Inr (t, os @ os')))"

text \<open>
  The messages that can arrive in a state: \<open>conforming\<close> says that each message of a sequence is
  one of them when its turn comes.
\<close>

fun conforming ::
  "('s, 'e, 'o) handler \<Rightarrow> ('s \<Rightarrow> 'e \<Rightarrow> bool) \<Rightarrow> 's \<Rightarrow> 'e list \<Rightarrow> bool" where
  "conforming step enabled s [] = True"
| "conforming step enabled s (e # es) =
     (enabled s e \<and>
      (case step s e of Inl p \<Rightarrow> True | Inr (s', os) \<Rightarrow> conforming step enabled s' es))"

lemma run_append:
  "run step s (es @ fs) =
     (case run step s es of
        Inl p \<Rightarrow> Inl p
      | Inr (t, os) \<Rightarrow>
          (case run step t fs of Inl p \<Rightarrow> Inl p | Inr (u, os') \<Rightarrow> Inr (u, os @ os')))"
  by (induction es arbitrary: s) (auto split: sum.splits)

section \<open>Invariants of a run\<close>

locale handler_loop =
  fixes step :: "('s, 'e, 'o) handler"
    and enabled :: "'s \<Rightarrow> 'e \<Rightarrow> bool"
    and inv :: "'s \<Rightarrow> bool"
  assumes step_ok: "inv s \<Longrightarrow> enabled s e \<Longrightarrow> \<exists>t os. step s e = Inr (t, os) \<and> inv t"
begin

lemma step_inv: "inv s \<Longrightarrow> enabled s e \<Longrightarrow> step s e = Inr (t, os) \<Longrightarrow> inv t"
  using step_ok [of s e] by auto

lemma run_ok:
  "inv s \<Longrightarrow> conforming step enabled s es \<Longrightarrow> \<exists>t os. run step s es = Inr (t, os) \<and> inv t"
proof (induction es arbitrary: s)
  case Nil
  then show ?case by simp
next
  case (Cons e es)
  from Cons.prems obtain s' os where s: "step s e = Inr (s', os)" "inv s'"
    using step_ok [of s e] by auto
  with Cons.prems have "conforming step enabled s' es" by simp
  then obtain t os' where "run step s' es = Inr (t, os')" "inv t"
    using Cons.IH s(2) by blast
  with s show ?case by simp
qed

lemma run_inv:
  "inv s \<Longrightarrow> conforming step enabled s es \<Longrightarrow> run step s es = Inr (t, os) \<Longrightarrow> inv t"
  using run_ok [of s es] by auto

end

text \<open>
  A loop with a property of the effects made so far: \<open>hist h s\<close> relates the effects \<open>h\<close> of the
  messages handled before to the state they led to.
\<close>

locale traced_loop = handler_loop step enabled inv
  for step :: "('s, 'e, 'o) handler" and enabled :: "'s \<Rightarrow> 'e \<Rightarrow> bool" and inv :: "'s \<Rightarrow> bool" +
  fixes hist :: "'o list \<Rightarrow> 's \<Rightarrow> bool"
  assumes step_hist:
    "inv s \<Longrightarrow> enabled s e \<Longrightarrow> hist h s \<Longrightarrow> step s e = Inr (t, os) \<Longrightarrow> hist (h @ os) t"
begin

lemma run_hist:
  "inv s \<Longrightarrow> conforming step enabled s es \<Longrightarrow> hist h s \<Longrightarrow> run step s es = Inr (t, os) \<Longrightarrow>
     hist (h @ os) t"
proof (induction es arbitrary: s h os)
  case Nil
  then show ?case by simp
next
  case (Cons e es)
  from Cons.prems(1,2) obtain s' o1 where s: "step s e = Inr (s', o1)" and i: "inv s'"
    using step_ok [of s e] by auto
  from Cons.prems(2) s have c: "conforming step enabled s' es" by simp
  from Cons.prems(4) s obtain o2 where r: "run step s' es = Inr (t, o2)" and os: "os = o1 @ o2"
    by (auto split: sum.splits)
  from Cons.prems(1-3) s have "hist (h @ o1) s'" by (auto intro: step_hist)
  from Cons.IH [OF i c this r] os show ?case by simp
qed

end

section \<open>Messages of peers\<close>

text \<open>
  The goroutines of the clients send to one channel. A sequence of messages of a server is made of
  the sequences of its peers, which \<open>messages_of\<close> selects, in any interleaving. A server mostly
  needs that every peer says \<open>op\<close> first and \<open>cl\<close> last: \<open>framed op cl A es\<close> follows the set \<open>A\<close> of the
  peers that are connected.
\<close>

definition messages_of :: "'c \<Rightarrow> ('c \<times> 'm) list \<Rightarrow> 'm list" where
  "messages_of c es = map snd (filter (\<lambda>e. fst e = c) es)"

lemma messages_of_simps [simp]:
  "messages_of c [] = []"
  "messages_of c ((d, m) # es) = (if d = c then m # messages_of c es else messages_of c es)"
  by (simp_all add: messages_of_def)

fun framed :: "'m \<Rightarrow> 'm \<Rightarrow> 'c set \<Rightarrow> ('c \<times> 'm) list \<Rightarrow> bool" where
  "framed op cl A [] = True"
| "framed op cl A ((c, m) # es) =
     (if m = op then c \<notin> A \<and> framed op cl (insert c A) es
      else c \<in> A \<and> framed op cl (if m = cl then A - {c} else A) es)"

definition framed_peer :: "'m \<Rightarrow> 'm \<Rightarrow> bool \<Rightarrow> 'm list \<Rightarrow> bool" where
  "framed_peer op cl connected xs \<longleftrightarrow>
     (\<exists>ms n. op \<notin> set ms \<and> cl \<notin> set ms \<and> xs = take n ((if connected then [] else [op]) @ ms @ [cl]))"

lemma framed_peer_Nil: "framed_peer op cl b []"
  unfolding framed_peer_def by (intro exI [of _ "[]"] exI [of _ 0]) simp

lemma framed_peer_Cons:
  assumes "framed_peer op cl b (m # xs)" and "op \<noteq> cl"
  shows "if b then m \<noteq> op \<and> (if m = cl then xs = [] else framed_peer op cl True xs)
    else m = op \<and> framed_peer op cl True xs"
proof -
  from assms(1) obtain ms n where ms: "op \<notin> set ms" "cl \<notin> set ms"
    and x: "m # xs = take n ((if b then [] else [op]) @ ms @ [cl])" by (auto simp: framed_peer_def)
  from x obtain k where n: "n = Suc k" by (cases n) auto
  show ?thesis
  proof (cases b)
    case False
    with x n have "m = op" "xs = take k (ms @ [cl])" by simp_all
    with False ms show ?thesis by (auto simp: framed_peer_def)
  next
    case True
    show ?thesis
    proof (cases ms)
      case Nil
      with True x n assms(2) show ?thesis by simp
    next
      case (Cons y ys)
      with True x n ms have "m = y" "xs = take k (ys @ [cl])" by simp_all
      with True ms Cons show ?thesis by (auto simp: framed_peer_def)
    qed
  qed
qed

lemma framed_peers:
  "op \<noteq> cl \<Longrightarrow> (\<And>c. framed_peer op cl (c \<in> A) (messages_of c es)) \<Longrightarrow> framed op cl A es"
proof (induction es arbitrary: A)
  case Nil
  then show ?case by simp
next
  case (Cons e es)
  obtain c m where e: "e = (c, m)" by (cases e)
  from Cons.prems(2) [of c] have "framed_peer op cl (c \<in> A) (m # messages_of c es)" by (simp add: e)
  from framed_peer_Cons [OF this Cons.prems(1)]
  have c: "if c \<in> A then m \<noteq> op \<and> (if m = cl then messages_of c es = [] else framed_peer op cl True (messages_of c es))
      else m = op \<and> framed_peer op cl True (messages_of c es)" .
  have d: "framed_peer op cl (d \<in> A) (messages_of d es)" if "d \<noteq> c" for d
    using Cons.prems(2) [of d] that by (simp add: e)
  let ?A = "if m = op then insert c A else if m = cl then A - {c} else A"
  have "framed op cl ?A es"
  proof (rule Cons.IH [OF Cons.prems(1)])
    fix d
    show "framed_peer op cl (d \<in> ?A) (messages_of d es)"
      using c d [of d] by (cases "d = c") (auto simp: framed_peer_Nil insert_absorb split: if_splits)
  qed
  with c show ?case by (auto simp: e split: if_splits)
qed

section \<open>Refinement\<close>

text \<open>
  Goroutines that run side by side are a step relation on their common state, each step one of
  theirs. Such a relation refines an abstract one when each of its steps is matched by abstract
  steps that keep the two states related; then so is every run.
\<close>

locale simulation =
  fixes cstep :: "'s \<Rightarrow> 's \<Rightarrow> bool" and astep :: "'a \<Rightarrow> 'a \<Rightarrow> bool" and rel :: "'s \<Rightarrow> 'a \<Rightarrow> bool"
  assumes step_sim: "rel s a \<Longrightarrow> cstep s t \<Longrightarrow> \<exists>b. astep\<^sup>*\<^sup>* a b \<and> rel t b"
begin

lemma run_sim: "cstep\<^sup>*\<^sup>* s t \<Longrightarrow> rel s a \<Longrightarrow> \<exists>b. astep\<^sup>*\<^sup>* a b \<and> rel t b"
proof (induction rule: rtranclp_induct)
  case base
  then show ?case by blast
next
  case (step t u)
  then obtain b where "astep\<^sup>*\<^sup>* a b" "rel t b" by blast
  with step_sim [OF this(2) step.hyps(2)] show ?case by (meson rtranclp_trans)
qed

end

end
