(* ===== verification/Balancer.thy ===== *)
theory Balancer
  imports Go_Prelude
begin

text \<open>
  \<^verbatim>\<open>traffic/balancer.go\<close>: the round-robin list of the dispatchers of a road. The traffic server
  relies on it through the interface \<open>round_robin\<close>, which the model of the Go code interprets.
\<close>

section \<open>The data type and its operations\<close>

record 'a balancer =
  bset :: "'a list"
  index :: nat

definition NewBalancer :: "'a balancer" where
  "NewBalancer = \<lparr>bset = [], index = 0\<rparr>"

definition Add :: "'a balancer \<Rightarrow> 'a \<Rightarrow> 'a balancer" where
  "Add b item =
     (case slices_Index (bset b) item of
        Some pos \<Rightarrow> b
      | None \<Rightarrow> b\<lparr>bset := bset b @ [item]\<rparr>)"

definition Remove :: "'a balancer \<Rightarrow> 'a \<Rightarrow> 'a balancer" where
  "Remove b item =
     (if length (bset b) = 0 then b
      else case slices_Index (bset b) item of
        None \<Rightarrow> b
      | Some pos \<Rightarrow>
          (let b' = b\<lparr>bset := remove_at pos (bset b)\<rparr>
           in if length (bset b') \<ge> index b' then b'\<lparr>index := 0\<rparr> else b'))"

definition Len :: "'a balancer \<Rightarrow> nat" where
  "Len b = length (bset b)"

text \<open>
  \<open>Get\<close> returns the item and \<open>true\<close>, or \<open>false\<close> when the balancer is empty (\<open>None\<close> here); the
  index expression \<open>self.set[self.index]\<close> panics out of range.
\<close>

definition Get :: "'a balancer \<Rightarrow> go_panic + 'a option \<times> 'a balancer" where
  "Get b =
     (if length (bset b) = 0 then Inr (None, b)
      else if index b \<ge> length (bset b) then Inl IndexOutOfRange
      else Inr (Some (bset b ! index b), b\<lparr>index := (index b + 1) mod length (bset b)\<rparr>))"

definition Index :: "'a balancer \<Rightarrow> nat" where
  "Index b = index b"

definition ResetIndex :: "'a balancer \<Rightarrow> 'a balancer" where
  "ResetIndex b = b\<lparr>index := 0\<rparr>"

definition Reset :: "'a balancer \<Rightarrow> 'a balancer" where
  "Reset b = (ResetIndex b)\<lparr>bset := []\<rparr>"

lemmas balancer_defs = NewBalancer_def Add_def Remove_def Len_def Get_def Index_def
  ResetIndex_def Reset_def

section \<open>The interface\<close>

text \<open>
  What a client of a balancer uses: \<open>members\<close> is the set of items, \<open>ok\<close> what every operation
  keeps. \<open>get\<close> never panics, returns a member whenever there is one, and keeps the members.
\<close>

locale round_robin =
  fixes new :: 'b
    and add :: "'b \<Rightarrow> 'a \<Rightarrow> 'b"
    and remove :: "'b \<Rightarrow> 'a \<Rightarrow> 'b"
    and get :: "'b \<Rightarrow> go_panic + 'a option \<times> 'b"
    and len :: "'b \<Rightarrow> nat"
    and members :: "'b \<Rightarrow> 'a set"
    and ok :: "'b \<Rightarrow> bool"
  assumes ok_new: "ok new"
    and members_new: "members new = {}"
    and ok_add: "ok b \<Longrightarrow> ok (add b x)"
    and members_add: "ok b \<Longrightarrow> members (add b x) = insert x (members b)"
    and ok_remove: "ok b \<Longrightarrow> ok (remove b x)"
    and members_remove: "ok b \<Longrightarrow> members (remove b x) = members b - {x}"
    and len_members: "ok b \<Longrightarrow> len b = card (members b) \<and> finite (members b)"
    and get_empty: "ok b \<Longrightarrow> members b = {} \<Longrightarrow> get b = Inr (None, b)"
    and get_member: "ok b \<Longrightarrow> members b \<noteq> {} \<Longrightarrow>
      \<exists>x b'. get b = Inr (Some x, b') \<and> x \<in> members b \<and> ok b' \<and> members b' = members b"
begin

lemma get_ok:
  assumes "ok b"
  shows "\<exists>r b'. get b = Inr (r, b') \<and> ok b' \<and> members b' = members b
    \<and> (case r of None \<Rightarrow> members b = {} | Some x \<Rightarrow> x \<in> members b)"
proof (cases "members b = {}")
  case True
  with get_empty [OF assms] assms show ?thesis by auto
next
  case False
  with get_member [OF assms] show ?thesis by fastforce
qed

lemma len_zero_iff: "ok b \<Longrightarrow> len b = 0 \<longleftrightarrow> members b = {}"
  using len_members [of b] by auto

lemma add_idem: "ok b \<Longrightarrow> x \<in> members b \<Longrightarrow> members (add b x) = members b"
  by (auto simp: members_add)

lemma ok_foldl_add: "ok b \<Longrightarrow> ok (foldl add b xs)"
  by (induction xs arbitrary: b) (auto simp: ok_add)

lemma members_foldl_add: "ok b \<Longrightarrow> members (foldl add b xs) = members b \<union> set xs"
  by (induction xs arbitrary: b) (auto simp: ok_add members_add)

end

section \<open>The Go balancer provides it\<close>

definition balancer_ok :: "'a balancer \<Rightarrow> bool" where
  "balancer_ok b \<longleftrightarrow>
     distinct (bset b) \<and> (if bset b = [] then index b = 0 else index b < length (bset b))"

definition balancer_members :: "'a balancer \<Rightarrow> 'a set" where
  "balancer_members b = set (bset b)"

text \<open>
  The guard of \<open>Remove\<close> holds whenever an item is removed from a balancer whose index is in
  range, so that every removal of a member starts the round again.
\<close>

lemma Remove_member:
  assumes "balancer_ok b" and "x \<in> set (bset b)"
  shows "\<exists>pos < length (bset b). bset b ! pos = x \<and>
    Remove b x = \<lparr>bset = remove_at pos (bset b), index = 0\<rparr>"
proof -
  obtain pos where p: "slices_Index (bset b) x = Some pos"
    using slices_Index_exists [OF assms(2)] by blast
  then have l: "pos < length (bset b)" "bset b ! pos = x"
    using slices_Index_Some by fastforce+
  have "index b \<le> length (bset b) - 1"
    using assms by (auto simp: balancer_ok_def split: if_splits)
  with p l have "Remove b x = \<lparr>bset = remove_at pos (bset b), index = 0\<rparr>"
    by (auto simp: Remove_def Let_def)
  with l show ?thesis by blast
qed

lemma Remove_not_member: "x \<notin> set (bset b) \<Longrightarrow> Remove b x = b"
  by (simp add: Remove_def slices_Index_None [THEN iffD2])

lemma balancer_ok_New: "balancer_ok NewBalancer"
  by (simp add: NewBalancer_def balancer_ok_def)

lemma balancer_ok_Add: "balancer_ok b \<Longrightarrow> balancer_ok (Add b x)"
  by (auto simp: Add_def balancer_ok_def dest: slices_Index_None [THEN iffD1]
      split: option.splits if_splits)

lemma balancer_ok_Remove:
  assumes "balancer_ok b"
  shows "balancer_ok (Remove b x)"
proof (cases "x \<in> set (bset b)")
  case True
  then obtain pos where "pos < length (bset b)"
    and "Remove b x = \<lparr>bset = remove_at pos (bset b), index = 0\<rparr>"
    using Remove_member [OF assms] by blast
  with assms show ?thesis
    by (simp add: balancer_ok_def distinct_remove_at length_greater_0_conv [symmetric]
        del: length_greater_0_conv)
next
  case False
  with assms show ?thesis by (simp add: Remove_not_member)
qed

lemma members_Remove:
  assumes "balancer_ok b"
  shows "set (bset (Remove b x)) = set (bset b) - {x}"
proof (cases "x \<in> set (bset b)")
  case True
  then obtain pos where "pos < length (bset b)" "bset b ! pos = x"
    and "Remove b x = \<lparr>bset = remove_at pos (bset b), index = 0\<rparr>"
    using Remove_member [OF assms] by blast
  with assms show ?thesis
    by (auto simp: balancer_ok_def set_remove_at_distinct)
next
  case False
  with assms show ?thesis by (simp add: Remove_not_member)
qed

lemma set_Add: "set (bset (Add b x)) = insert x (set (bset b))"
  by (auto simp: Add_def dest: slices_Index_Some split: option.splits)

lemma Get_in_round:
  assumes "balancer_ok b" and "bset b \<noteq> []"
  shows "Get b = Inr (Some (bset b ! index b), b\<lparr>index := (index b + 1) mod length (bset b)\<rparr>)"
  using assms by (simp add: Get_def balancer_ok_def not_le)

interpretation bal: round_robin NewBalancer Add Remove Get Len balancer_members balancer_ok
proof unfold_locales
  fix b :: "'a balancer"
  assume ok: "balancer_ok b" and ne: "balancer_members b \<noteq> {}"
  then have "bset b \<noteq> []" by (auto simp: balancer_members_def)
  with ok Get_in_round [OF ok this]
  show "\<exists>x b'. Get b = Inr (Some x, b') \<and> x \<in> balancer_members b \<and> balancer_ok b'
      \<and> balancer_members b' = balancer_members b"
    by (auto simp: balancer_members_def balancer_ok_def)
next
  fix b :: "'a balancer"
  assume "balancer_ok b"
  then show "Len b = card (balancer_members b) \<and> finite (balancer_members b)"
    by (simp add: Len_def balancer_members_def balancer_ok_def distinct_card)
qed (simp_all add: balancer_ok_Add balancer_ok_Remove balancer_members_def set_Add
    members_Remove balancer_ok_New [unfolded NewBalancer_def] NewBalancer_def Get_def)

section \<open>Fairness\<close>

text \<open>The items of \<open>n\<close> calls of \<open>Get\<close> in a row.\<close>

fun gets :: "nat \<Rightarrow> 'a balancer \<Rightarrow> go_panic + 'a option list \<times> 'a balancer" where
  "gets 0 b = Inr ([], b)"
| "gets (Suc n) b =
     (case Get b of
        Inl p \<Rightarrow> Inl p
      | Inr (r, b') \<Rightarrow> (case gets n b' of Inl p \<Rightarrow> Inl p | Inr (rs, c) \<Rightarrow> Inr (r # rs, c)))"

lemma gets_from:
  assumes "balancer_ok b" and "bset b \<noteq> []"
  shows "gets n b = Inr (map (\<lambda>i. Some (bset b ! ((index b + i) mod length (bset b)))) [0..<n],
    b\<lparr>index := (index b + n) mod length (bset b)\<rparr>)"
  using assms
proof (induction n arbitrary: b)
  case 0
  then show ?case by (simp add: balancer_ok_def)
next
  case (Suc n)
  let ?m = "length (bset b)"
  let ?b = "b\<lparr>index := (index b + 1) mod ?m\<rparr>"
  have g: "Get b = Inr (Some (bset b ! index b), ?b)"
    using Suc.prems by (rule Get_in_round)
  have "balancer_ok ?b" using Suc.prems by (simp add: balancer_ok_def)
  then have "gets n ?b = Inr (map (\<lambda>i. Some (bset b ! (((index b + 1) mod ?m + i) mod ?m))) [0..<n],
      ?b\<lparr>index := ((index b + 1) mod ?m + n) mod ?m\<rparr>)"
    using Suc.IH [of ?b] Suc.prems by simp
  moreover have "((index b + 1) mod ?m + i) mod ?m = (index b + Suc i) mod ?m" for i
    by (simp add: mod_add_left_eq)
  moreover have "index b mod ?m = index b" using Suc.prems by (simp add: balancer_ok_def)
  ultimately show ?case
    using g by (simp add: upt_conv_Cons map_Suc_upt [symmetric] comp_def del: upt_Suc)
qed

text \<open>
  Round-robin fairness. From any balancer in its invariant, as many calls of \<open>Get\<close> in a row
  as there are members never panic, return every member exactly once, and leave the balancer as
  it was, so that the next round is the same.
\<close>

theorem gets_round:
  assumes "balancer_ok b" and "bset b \<noteq> []"
  shows "\<exists>rs. gets (Len b) b = Inr (map Some rs, b) \<and> distinct rs \<and> set rs = set (bset b)"
proof -
  let ?m = "length (bset b)" and ?rs = "rotate (index b) (bset b)"
  have "map (\<lambda>i. bset b ! ((index b + i) mod ?m)) [0..<?m] = ?rs"
    by (rule nth_equalityI) (auto simp: nth_rotate add.commute)
  then have "map (\<lambda>i. Some (bset b ! ((index b + i) mod ?m))) [0..<?m] = map Some ?rs"
    by (metis (no_types, lifting) comp_apply list.map_comp map_eq_conv)
  moreover have "b\<lparr>index := (index b + ?m) mod ?m\<rparr> = b"
    using assms by (simp add: balancer_ok_def)
  ultimately have "gets (Len b) b = Inr (map Some ?rs, b)"
    using gets_from [OF assms, of ?m] by (simp add: Len_def)
  moreover have "distinct ?rs" using assms by (simp add: balancer_ok_def)
  ultimately show ?thesis by fastforce
qed

theorem gets_round_witness:
  "\<exists>rs. gets (Len (Add (Add NewBalancer (7::int)) 9)) (Add (Add NewBalancer 7) 9)
      = Inr (map Some rs, Add (Add NewBalancer 7) 9)
    \<and> distinct rs \<and> set rs = set (bset (Add (Add NewBalancer (7::int)) 9))"
  by (rule gets_round) (simp_all add: balancer_ok_def balancer_defs)

end
