(* ===== verification/Go_IO.thy ===== *)
theory Go_IO
  imports Go_Prelude
begin

text \<open>
  What the program uses of Go's input side: \<open>io.Reader\<close> as an interface (the locale
  \<open>io_reader\<close>), \<open>io.ReadFull\<close> over any reader, the reads of a \<open>net.Conn\<close>, and the line reads of
  \<open>bufio.Reader\<close>. A TCP connection delivers its bytes in segments: one \<open>Read\<close> returns bytes of
  one segment only, and how the peer's bytes are cut into segments is up to the network.
\<close>

section \<open>Readers and fallible reads\<close>

text \<open>
  \<open>Read(buf)\<close> for a buffer of \<open>n\<close> bytes: the bytes read, the error, the new state of the reader.
\<close>

type_synonym 's reader = "'s \<Rightarrow> nat \<Rightarrow> (bytes \<times> go_error option) \<times> 's"

text \<open>
  A function that reads from a reader and returns a value or an error. \<^const>\<open>None\<close> is a call
  that does not return (a reader that keeps returning no bytes and no error is read forever).
\<close>

type_synonym ('s, 'a) io = "'s \<Rightarrow> ((go_error + 'a) \<times> 's) option"

definition io_return :: "'a \<Rightarrow> ('s, 'a) io" where
  "io_return x s = Some (Inr x, s)"

definition io_fail :: "go_error \<Rightarrow> ('s, 'a) io" where
  "io_fail e s = Some (Inl e, s)"

text \<open>\<open>x, err := m(); if err != nil { return err }; f(x)\<close>\<close>

definition io_bind :: "('s, 'a) io \<Rightarrow> ('a \<Rightarrow> ('s, 'b) io) \<Rightarrow> ('s, 'b) io" where
  "io_bind m f s =
     (case m s of
        None \<Rightarrow> None
      | Some (Inl e, s') \<Rightarrow> Some (Inl e, s')
      | Some (Inr x, s') \<Rightarrow> f x s')"

lemma io_return_simp [simp]: "io_return x s = Some (Inr x, s)"
  by (simp add: io_return_def)

lemma io_fail_simp [simp]: "io_fail e s = Some (Inl e, s)"
  by (simp add: io_fail_def)

lemma io_bind_Inr [simp]: "m s = Some (Inr x, s') \<Longrightarrow> io_bind m f s = f x s'"
  by (simp add: io_bind_def)

lemma io_bind_Inl [simp]: "m s = Some (Inl e, s') \<Longrightarrow> io_bind m f s = Some (Inl e, s')"
  by (simp add: io_bind_def)

section \<open>\<open>io.ReadFull\<close>\<close>

text \<open>
  The loop of \<open>io.ReadAtLeast\<close>: \<open>acc\<close> holds the bytes read so far, \<open>n\<close> is the length of the
  buffer, all of which is wanted. An end of file in the middle becomes \<open>io.ErrUnexpectedEOF\<close>.
\<close>

partial_function (option) ReadFull_loop ::
  "'s reader \<Rightarrow> nat \<Rightarrow> bytes \<Rightarrow> 's \<Rightarrow> ((go_error + bytes) \<times> 's) option" where
  "ReadFull_loop rd n acc s =
     (if length acc \<ge> n then Some (Inr acc, s)
      else
        (case rd s (n - length acc) of
           ((bs, None), s') \<Rightarrow> ReadFull_loop rd n (acc @ bs) s'
         | ((bs, Some e), s') \<Rightarrow>
             (if length (acc @ bs) \<ge> n then Some (Inr (acc @ bs), s')
              else if acc @ bs \<noteq> [] \<and> e = EOF then Some (Inl UnexpectedEOF, s')
              else Some (Inl e, s'))))"

definition ReadFull :: "'s reader \<Rightarrow> nat \<Rightarrow> ('s, bytes) io" where
  "ReadFull rd n = ReadFull_loop rd n []"

section \<open>The interface \<open>io.Reader\<close>\<close>

text \<open>
  A stream whose remaining bytes are \<open>content s\<close> and whose end reports \<open>end s\<close>: a read returns
  a non-empty piece of at most the length asked for, and the error only when nothing is left.
\<close>

locale io_reader =
  fixes read :: "'s reader"
    and content :: "'s \<Rightarrow> bytes"
    and end_error :: "'s \<Rightarrow> go_error"
    and ok :: "'s \<Rightarrow> bool"
  assumes read_data: "ok s \<Longrightarrow> content s \<noteq> [] \<Longrightarrow> 0 < n \<Longrightarrow>
      \<exists>bs s'. read s n = ((bs, None), s') \<and> bs \<noteq> [] \<and> length bs \<le> n
        \<and> content s = bs @ content s' \<and> ok s' \<and> end_error s' = end_error s"
    and read_end: "ok s \<Longrightarrow> content s = [] \<Longrightarrow> 0 < n \<Longrightarrow> read s n = (([], Some (end_error s)), s)"
    and read_none: "ok s \<Longrightarrow> read s 0 = (([], None), s)"
begin

lemma ReadFull_loop_enough:
  assumes "ok s" and "n \<le> length acc + length (content s)" and "length acc \<le> n"
  shows "\<exists>s'. ReadFull_loop read n acc s
      = Some (Inr (acc @ take (n - length acc) (content s)), s')
    \<and> content s' = drop (n - length acc) (content s) \<and> ok s' \<and> end_error s' = end_error s"
  using assms
proof (induction "n - length acc" arbitrary: acc s rule: less_induct)
  case less
  show ?case
  proof (cases "length acc \<ge> n")
    case True
    with less.prems show ?thesis by (simp add: ReadFull_loop.simps [of read n acc])
  next
    case False
    with less.prems have "content s \<noteq> []" by auto
    with False less.prems obtain bs s1 where r: "read s (n - length acc) = ((bs, None), s1)"
      and bs: "bs \<noteq> []" "length bs \<le> n - length acc" and c: "content s = bs @ content s1"
      and s1: "ok s1" "end_error s1 = end_error s"
      using read_data [of s "n - length acc"] by auto
    have "n - length (acc @ bs) < n - length acc" using bs False by (cases bs) auto
    moreover have "n \<le> length (acc @ bs) + length (content s1)" using less.prems c by simp
    moreover have "length (acc @ bs) \<le> n" using bs False by simp
    ultimately obtain s2 where "ReadFull_loop read n (acc @ bs) s1
          = Some (Inr ((acc @ bs) @ take (n - length (acc @ bs)) (content s1)), s2)"
        "content s2 = drop (n - length (acc @ bs)) (content s1)" "ok s2"
        "end_error s2 = end_error s1"
      using less.hyps [of "acc @ bs" s1] s1 by blast
    with False r c s1 bs show ?thesis
      by (simp add: ReadFull_loop.simps [of read n acc s])
  qed
qed

lemma ReadFull_loop_short:
  assumes "ok s" and "length acc + length (content s) < n"
  shows "\<exists>s'. ReadFull_loop read n acc s
      = Some (Inl (if acc @ content s \<noteq> [] \<and> end_error s = EOF then UnexpectedEOF
                   else end_error s), s')
    \<and> content s' = [] \<and> ok s' \<and> end_error s' = end_error s"
  using assms
proof (induction "length (content s)" arbitrary: acc s rule: less_induct)
  case less
  show ?case
  proof (cases "content s = []")
    case True
    with less.prems show ?thesis by (simp add: ReadFull_loop.simps [of read n acc] read_end)
  next
    case False
    with less.prems obtain bs s1 where r: "read s (n - length acc) = ((bs, None), s1)"
      and bs: "bs \<noteq> []" and c: "content s = bs @ content s1"
      and s1: "ok s1" "end_error s1 = end_error s"
      using read_data [of s "n - length acc"] by auto
    have "length (content s1) < length (content s)" using bs c by simp
    moreover have "length (acc @ bs) + length (content s1) < n" using less.prems c by simp
    ultimately obtain s2 where "ReadFull_loop read n (acc @ bs) s1
        = Some (Inl (if (acc @ bs) @ content s1 \<noteq> [] \<and> end_error s1 = EOF then UnexpectedEOF
                     else end_error s1), s2)"
        "content s2 = []" "ok s2" "end_error s2 = end_error s1"
      using less.hyps [of s1 "acc @ bs"] s1 by blast
    with less.prems r c s1 show ?thesis
      by (simp add: ReadFull_loop.simps [of read n acc s])
  qed
qed

text \<open>
  \<open>io.ReadFull\<close> depends on the bytes of the stream only, not on how reads cut them, and it
  always returns.
\<close>

lemma ReadFull_enough:
  assumes "ok s" and "n \<le> length (content s)"
  shows "\<exists>s'. ReadFull read n s = Some (Inr (take n (content s)), s')
    \<and> content s' = drop n (content s) \<and> ok s' \<and> end_error s' = end_error s"
  using ReadFull_loop_enough [of s n "[]"] assms by (simp add: ReadFull_def)

lemma ReadFull_short:
  assumes "ok s" and "length (content s) < n"
  shows "\<exists>s'. ReadFull read n s
      = Some (Inl (if content s \<noteq> [] \<and> end_error s = EOF then UnexpectedEOF else end_error s), s')
    \<and> content s' = [] \<and> ok s' \<and> end_error s' = end_error s"
  using ReadFull_loop_short [of s "[]" n] assms by (simp add: ReadFull_def)

end

section \<open>A TCP connection\<close>

text \<open>
  The input of a \<open>net.Conn\<close>: the segments still to be read and what the connection reports after
  the last one (\<open>io.EOF\<close> after a close of the peer, a reset, or \<open>net.ErrClosed\<close>). A read with
  an empty buffer returns at once.
\<close>

record conn =
  segs :: "bytes list"
  conn_end :: go_error

definition conn_Read :: "conn reader" where
  "conn_Read c n =
     (if n = 0 then (([], None), c)
      else case segs c of
        [] \<Rightarrow> (([], Some (conn_end c)), c)
      | seg # rest \<Rightarrow>
          (if length seg \<le> n then ((seg, None), c\<lparr>segs := rest\<rparr>)
           else ((take n seg, None), c\<lparr>segs := drop n seg # rest\<rparr>)))"

definition conn_ok :: "conn \<Rightarrow> bool" where
  "conn_ok c \<longleftrightarrow> [] \<notin> set (segs c)"

definition conn_content :: "conn \<Rightarrow> bytes" where
  "conn_content c = concat (segs c)"

interpretation tcp: io_reader conn_Read conn_content conn_end conn_ok
proof unfold_locales
  fix c :: conn and n :: nat
  assume ok: "conn_ok c" and "conn_content c \<noteq> []" and n: "0 < n"
  then obtain seg rest where s: "segs c = seg # rest"
    by (cases "segs c") (auto simp: conn_content_def)
  show "\<exists>bs c'. conn_Read c n = ((bs, None), c') \<and> bs \<noteq> [] \<and> length bs \<le> n
      \<and> conn_content c = bs @ conn_content c' \<and> conn_ok c' \<and> conn_end c' = conn_end c"
    using ok n s by (auto simp: conn_Read_def conn_content_def conn_ok_def)
next
  fix c :: conn and n :: nat
  assume "conn_ok c" and "conn_content c = []" and "0 < n"
  then show "conn_Read c n = (([], Some (conn_end c)), c)"
    by (cases "segs c") (auto simp: conn_Read_def conn_content_def conn_ok_def)
qed (simp add: conn_Read_def)

text \<open>A connection whose next segment is \<open>bs\<close>, when \<open>bs\<close> is not empty.\<close>

definition conn_of :: "bytes \<Rightarrow> bytes list \<Rightarrow> go_error \<Rightarrow> conn" where
  "conn_of bs rest e = \<lparr>segs = (if bs = [] then rest else bs # rest), conn_end = e\<rparr>"

lemma conn_content_of [simp]: "conn_content (conn_of bs rest e) = bs @ concat rest"
  by (simp add: conn_of_def conn_content_def)

lemma conn_end_of [simp]: "conn_end (conn_of bs rest e) = e"
  by (simp add: conn_of_def)

lemma conn_ok_of [simp]: "conn_ok (conn_of bs rest e) \<longleftrightarrow> [] \<notin> set rest"
  by (auto simp: conn_of_def conn_ok_def)

lemma conn_Read_of:
  assumes "n \<le> length bs"
  shows "conn_Read (conn_of bs rest e) n = ((take n bs, None), conn_of (drop n bs) rest e)"
  using assms by (auto simp: conn_Read_def conn_of_def)

lemma ReadFull_of:
  assumes "n \<le> length bs"
  shows "ReadFull conn_Read n (conn_of bs rest e) = Some (Inr (take n bs), conn_of (drop n bs) rest e)"
proof (cases "n = 0")
  case True
  then show ?thesis by (simp add: ReadFull_def ReadFull_loop.simps)
next
  case False
  with assms show ?thesis
    by (simp add: ReadFull_def ReadFull_loop.simps [of _ _ "[]"] conn_Read_of
        ReadFull_loop.simps [of _ _ "take n bs"])
qed

section \<open>Lines of a \<open>bufio.Reader\<close>\<close>

text \<open>
  \<open>ReadString(delim)\<close> and \<open>ReadBytes(delim)\<close> return the bytes up to and including the delimiter,
  however the reads below cut them, and an error when the stream ends first (\<^const>\<open>None\<close>).
\<close>

definition ReadDelim :: "'a \<Rightarrow> 'a list \<Rightarrow> ('a list \<times> 'a list) option" where
  "ReadDelim d xs =
     (if d \<in> set xs
      then Some (takeWhile (\<lambda>c. c \<noteq> d) xs @ [d], tl (dropWhile (\<lambda>c. c \<noteq> d) xs))
      else None)"

lemma ReadDelim_Some:
  assumes "ReadDelim d xs = Some (l, r)"
  shows "xs = l @ r \<and> (\<exists>l'. l = l' @ [d] \<and> d \<notin> set l')"
proof -
  from assms have d: "d \<in> set xs" and l: "l = takeWhile (\<lambda>c. c \<noteq> d) xs @ [d]"
    and r: "r = tl (dropWhile (\<lambda>c. c \<noteq> d) xs)"
    by (auto simp: ReadDelim_def split: if_splits)
  have "dropWhile (\<lambda>c. c \<noteq> d) xs \<noteq> []" using d by simp
  moreover have "hd (dropWhile (\<lambda>c. c \<noteq> d) xs) = d"
    using hd_dropWhile [of "\<lambda>c. c \<noteq> d" xs] calculation by simp
  ultimately have "dropWhile (\<lambda>c. c \<noteq> d) xs = d # r" using r by (metis list.collapse)
  then have "xs = takeWhile (\<lambda>c. c \<noteq> d) xs @ d # r" by (metis takeWhile_dropWhile_id)
  moreover have "d \<notin> set (takeWhile (\<lambda>c. c \<noteq> d) xs)" by (auto dest: set_takeWhileD)
  ultimately show ?thesis using l by auto
qed

lemma ReadDelim_length: "ReadDelim d xs = Some (l, r) \<Longrightarrow> length r < length xs"
  by (auto dest!: ReadDelim_Some)

lemma ReadDelim_append [simp]:
  "d \<notin> set l \<Longrightarrow> ReadDelim d (l @ d # r) = Some (l @ [d], r)"
  by (induction l) (auto simp: ReadDelim_def)

lemma ReadDelim_None [simp]: "ReadDelim d xs = None \<longleftrightarrow> d \<notin> set xs"
  by (simp add: ReadDelim_def)

text \<open>All the complete lines of a stream, in order, as a loop of \<open>ReadString\<close> sees them.\<close>

function lines_of :: "'a \<Rightarrow> 'a list \<Rightarrow> 'a list list" where
  "lines_of d xs = (case ReadDelim d xs of None \<Rightarrow> [] | Some (l, r) \<Rightarrow> l # lines_of d r)"
  by pat_completeness auto
termination
  by (relation "measure (\<lambda>(d, xs). length xs)") (auto dest: ReadDelim_length)

declare lines_of.simps [simp del]

lemma lines_of_end [simp]: "d \<notin> set xs \<Longrightarrow> lines_of d xs = []"
  by (subst lines_of.simps) (simp add: ReadDelim_None [THEN iffD2])

lemma lines_of_line [simp]: "d \<notin> set l \<Longrightarrow> lines_of d (l @ d # r) = (l @ [d]) # lines_of d r"
  by (subst lines_of.simps) simp

lemma lines_of_concat:
  "\<forall>l \<in> set ls. d \<notin> set l \<Longrightarrow> d \<notin> set rest \<Longrightarrow>
     lines_of d (concat (map (\<lambda>l. l @ [d]) ls) @ rest) = map (\<lambda>l. l @ [d]) ls"
  by (induction ls) auto

end
