(* ===== verification/Reader.thy ===== *)
theory Reader
  imports Go_IO
begin

unbundle bit_operations_syntax

text \<open>
  The package \<^verbatim>\<open>reader\<close>: the functions of \<^verbatim>\<open>reader/reader.go\<close> over an \<open>io.Reader\<close>, with the
  parts of \<open>encoding/binary\<close> they use. \<open>binary.Read\<close> into a value of a fixed size reads its bytes
  with \<open>io.ReadFull\<close> and decodes them; on an error the destination is not written.
\<close>

section \<open>\<open>encoding/binary\<close>\<close>

definition be_put16 :: "u16 \<Rightarrow> bytes" where
  "be_put16 w = [ucast (drop_bit 8 w), ucast w]"

definition be_put32 :: "u32 \<Rightarrow> bytes" where
  "be_put32 w = [ucast (drop_bit 24 w), ucast (drop_bit 16 w), ucast (drop_bit 8 w), ucast w]"

definition be_get16 :: "bytes \<Rightarrow> u16" where
  "be_get16 b = ucast (b ! 1) OR push_bit 8 (ucast (b ! 0))"

definition be_get32 :: "bytes \<Rightarrow> u32" where
  "be_get32 b = ucast (b ! 3) OR push_bit 8 (ucast (b ! 2)) OR push_bit 16 (ucast (b ! 1))
     OR push_bit 24 (ucast (b ! 0))"

definition le_get16 :: "bytes \<Rightarrow> u16" where
  "le_get16 b = ucast (b ! 0) OR push_bit 8 (ucast (b ! 1))"

definition le_get32 :: "bytes \<Rightarrow> u32" where
  "le_get32 b = ucast (b ! 0) OR push_bit 8 (ucast (b ! 1)) OR push_bit 16 (ucast (b ! 2))
     OR push_bit 24 (ucast (b ! 3))"

text \<open>The elements of a \<open>[]uint16\<close>, two bytes each.\<close>

fun be_get16s :: "nat \<Rightarrow> bytes \<Rightarrow> u16 list" where
  "be_get16s 0 b = []"
| "be_get16s (Suc n) b = be_get16 b # be_get16s n (drop 2 b)"

lemma length_be_put16 [simp]: "length (be_put16 w) = 2"
  by (simp add: be_put16_def)

lemma length_be_put32 [simp]: "length (be_put32 w) = 4"
  by (simp add: be_put32_def)

lemma be_get16_put16 [simp]: "be_get16 (be_put16 w @ rest) = w"
  by (rule bit_word_eqI)
    (auto simp: be_get16_def be_put16_def bit_simps nth_append)

lemma be_get32_put32 [simp]: "be_get32 (be_put32 w @ rest) = w"
proof (rule bit_word_eqI)
  fix n assume n: "n < LENGTH(32)"
  consider "n < 8" | "8 \<le> n" "n < 16" | "16 \<le> n" "n < 24" | "24 \<le> n" by linarith
  then show "bit (be_get32 (be_put32 w @ rest)) n \<longleftrightarrow> bit w n"
    using n by cases (auto simp: be_get32_def be_put32_def bit_simps nth_append)
qed

lemma be_get16_put16_nil [simp]: "be_get16 (be_put16 w) = w"
  using be_get16_put16 [of w "[]"] by simp

lemma be_get32_put32_nil [simp]: "be_get32 (be_put32 w) = w"
  using be_get32_put32 [of w "[]"] by simp

lemma be_get16s_put16s [simp]:
  "be_get16s (length ws) (concat (map be_put16 ws) @ rest) = ws"
  by (induction ws) auto

lemma be_get16s_put16s_nil [simp]: "be_get16s (length ws) (concat (map be_put16 ws)) = ws"
  using be_get16s_put16s [of ws "[]"] by simp

lemma length_concat_put16s [simp]: "length (concat (map be_put16 ws)) = 2 * length ws"
  by (induction ws) auto

section \<open>The functions of the package\<close>

definition ReadB_byte :: "'s reader \<Rightarrow> ('s, byte) io" where
  "ReadB_byte rd = io_bind (ReadFull rd 1) (\<lambda>b. io_return (b ! 0))"

definition ReadB_u16 :: "'s reader \<Rightarrow> ('s, u16) io" where
  "ReadB_u16 rd = io_bind (ReadFull rd 2) (\<lambda>b. io_return (be_get16 b))"

definition ReadB_u32 :: "'s reader \<Rightarrow> ('s, u32) io" where
  "ReadB_u32 rd = io_bind (ReadFull rd 4) (\<lambda>b. io_return (be_get32 b))"

definition ReadB_u16s :: "'s reader \<Rightarrow> nat \<Rightarrow> ('s, u16 list) io" where
  "ReadB_u16s rd n = io_bind (ReadFull rd (2 * n)) (\<lambda>b. io_return (be_get16s n b))"

definition ReadB_bytes :: "'s reader \<Rightarrow> nat \<Rightarrow> ('s, bytes) io" where
  "ReadB_bytes rd n = ReadFull rd n"

definition ReadL_u16 :: "'s reader \<Rightarrow> ('s, u16) io" where
  "ReadL_u16 rd = io_bind (ReadFull rd 2) (\<lambda>b. io_return (le_get16 b))"

definition ReadL_u32 :: "'s reader \<Rightarrow> ('s, u32) io" where
  "ReadL_u32 rd = io_bind (ReadFull rd 4) (\<lambda>b. io_return (le_get32 b))"

text \<open>\<open>ReadN\<close> makes one call of \<open>Read\<close>; a shorter read is reported as an unexpected end.\<close>

definition ReadN :: "'s reader \<Rightarrow> nat \<Rightarrow> ('s, bytes) io" where
  "ReadN rd n s =
     (case rd s n of
        ((buf, Some err), s') \<Rightarrow> Some (Inl err, s')
      | ((buf, None), s') \<Rightarrow>
          (if length buf \<noteq> n then Some (Inl UnexpectedEOF, s') else Some (Inr buf, s')))"

definition ReadByte :: "'s reader \<Rightarrow> ('s, byte) io" where
  "ReadByte rd = io_bind (ReadN rd 1) (\<lambda>buf. io_return (buf ! 0))"

definition SkipN :: "'s reader \<Rightarrow> nat \<Rightarrow> 's \<Rightarrow> (nat \<times> go_error option) \<times> 's" where
  "SkipN rd n s =
     (case rd s n of
        ((buf, Some err), s') \<Rightarrow> ((length buf, Some err), s')
      | ((buf, None), s') \<Rightarrow>
          (if length buf \<noteq> n then ((length buf, Some UnexpectedEOF), s')
           else ((length buf, None), s')))"

text \<open>
  \<open>ReadString\<close> reads up to a zero byte. The error of the very first read is dropped: the variable
  \<open>b\<close> keeps its zero value, so that an empty stream gives the empty string.
\<close>

partial_function (option) ReadString_loop ::
  "'s reader \<Rightarrow> bytes \<Rightarrow> byte \<Rightarrow> 's \<Rightarrow> ((go_error + string) \<times> 's) option" where
  "ReadString_loop rd bb b s =
     (if b = 0 then Some (Inr (string_of_bytes bb), s)
      else
        (case ReadB_byte rd s of
           None \<Rightarrow> None
         | Some (r, s') \<Rightarrow>
             (case r of
                Inl err \<Rightarrow> Some (Inl err, s')
              | Inr b' \<Rightarrow> ReadString_loop rd (bb @ [b]) b' s')))"

definition ReadString :: "'s reader \<Rightarrow> ('s, string) io" where
  "ReadString rd s =
     (case ReadB_byte rd s of
        None \<Rightarrow> None
      | Some (Inl err, s') \<Rightarrow> ReadString_loop rd [] 0 s'
      | Some (Inr b, s') \<Rightarrow> ReadString_loop rd [] b s')"

definition ReadStringFixed :: "'s reader \<Rightarrow> nat \<Rightarrow> ('s, string) io" where
  "ReadStringFixed rd n = io_bind (ReadFull rd n) (\<lambda>bb. io_return (string_of_bytes bb))"

function ReverseBytes_loop :: "int \<Rightarrow> int \<Rightarrow> 'a list \<Rightarrow> 'a list" where
  "ReverseBytes_loop i j data =
     (if i < j
      then ReverseBytes_loop (i + 1) (j - 1)
             (data[nat i := data ! nat j, nat j := data ! nat i])
      else data)"
  by pat_completeness auto
termination
  by (relation "measure (\<lambda>(i, j, data). nat (j - i))") auto

declare ReverseBytes_loop.simps [simp del]

definition ReverseBytes :: "'a list \<Rightarrow> 'a list" where
  "ReverseBytes data = ReverseBytes_loop 0 (int (length data) - 1) data"

definition ReadReverseBytes :: "'s reader \<Rightarrow> nat \<Rightarrow> ('s, bytes) io" where
  "ReadReverseBytes rd n = io_bind (ReadB_bytes rd n) (\<lambda>buf. io_return (ReverseBytes buf))"

text \<open>\<open>io.ReadAll\<close>, reading pieces of up to 512 bytes until the end of the stream.\<close>

partial_function (option) ReadAll_loop ::
  "'s reader \<Rightarrow> bytes \<Rightarrow> 's \<Rightarrow> ((bytes \<times> go_error option) \<times> 's) option" where
  "ReadAll_loop rd acc s =
     (case rd s 512 of
        ((bs, None), s') \<Rightarrow> ReadAll_loop rd (acc @ bs) s'
      | ((bs, Some e), s') \<Rightarrow> Some ((acc @ bs, if e = EOF then None else Some e), s'))"

definition ReadAll :: "'s reader \<Rightarrow> 's \<Rightarrow> ((bytes \<times> go_error option) \<times> 's) option" where
  "ReadAll rd = ReadAll_loop rd []"

lemmas readb_defs = ReadB_byte_def ReadB_u16_def ReadB_u32_def ReadB_u16s_def ReadB_bytes_def

section \<open>What the reads return\<close>

text \<open>
  Over any \<open>io.Reader\<close>: a read of a fixed size takes its bytes from the front of the stream when
  they are there, however they are cut, and fails with the error of \<open>io.ReadFull\<close> otherwise.
\<close>

context io_reader
begin

lemma ReadB_byte_enough:
  assumes "ok s" and "content s \<noteq> []"
  shows "\<exists>s'. ReadB_byte read s = Some (Inr (hd (content s)), s')
    \<and> content s' = tl (content s) \<and> ok s' \<and> end_error s' = end_error s"
proof -
  from assms have "1 \<le> length (content s)" by (cases "content s") auto
  from ReadFull_enough [OF assms(1) this] assms(2) show ?thesis
    by (cases "content s") (auto simp: ReadB_byte_def)
qed

lemma ReadB_u16_enough:
  assumes "ok s" and "content s = be_put16 w @ rest"
  shows "\<exists>s'. ReadB_u16 read s = Some (Inr w, s') \<and> content s' = rest \<and> ok s'
    \<and> end_error s' = end_error s"
  using ReadFull_enough [OF assms(1), of 2] assms(2) by (auto simp: ReadB_u16_def)

lemma ReadB_u32_enough:
  assumes "ok s" and "content s = be_put32 w @ rest"
  shows "\<exists>s'. ReadB_u32 read s = Some (Inr w, s') \<and> content s' = rest \<and> ok s'
    \<and> end_error s' = end_error s"
  using ReadFull_enough [OF assms(1), of 4] assms(2) by (auto simp: ReadB_u32_def)

lemma ReadB_u16s_enough:
  assumes "ok s" and "content s = concat (map be_put16 ws) @ rest"
  shows "\<exists>s'. ReadB_u16s read (length ws) s = Some (Inr ws, s') \<and> content s' = rest \<and> ok s'
    \<and> end_error s' = end_error s"
  using ReadFull_enough [OF assms(1), of "2 * length ws"] assms(2) by (auto simp: ReadB_u16s_def)

lemma ReadByte_enough:
  assumes "ok s" and "content s \<noteq> []"
  shows "\<exists>s'. ReadByte read s = Some (Inr (hd (content s)), s')
    \<and> content s' = tl (content s) \<and> ok s' \<and> end_error s' = end_error s"
proof -
  obtain bs s' where r: "read s 1 = ((bs, None), s')" and bs: "bs \<noteq> []" "length bs \<le> 1"
    and c: "content s = bs @ content s'" and s': "ok s'" "end_error s' = end_error s"
    using read_data [OF assms, of 1] by auto
  from bs obtain b where "bs = [b]" by (cases bs) auto
  with r c s' show ?thesis by (simp add: ReadByte_def io_bind_def ReadN_def)
qed

lemma ReadByte_end:
  assumes "ok s" and "content s = []"
  shows "ReadByte read s = Some (Inl (end_error s), s)"
  using read_end [OF assms, of 1] by (simp add: ReadByte_def io_bind_def ReadN_def)

lemma ReadString_loop_terminated:
  assumes "ok s" and "b \<noteq> 0" and "content s = str @ 0 # rest" and "0 \<notin> set str"
  shows "\<exists>s'. ReadString_loop read bb b s = Some (Inr (string_of_bytes (bb @ b # str)), s')
    \<and> content s' = rest \<and> ok s' \<and> end_error s' = end_error s"
  using assms
proof (induction str arbitrary: s b bb)
  case Nil
  then obtain s1 where "ReadB_byte read s = Some (Inr 0, s1)" "content s1 = rest" "ok s1"
    "end_error s1 = end_error s" using ReadB_byte_enough [of s] by auto
  with Nil.prems show ?case
    by (simp add: ReadString_loop.simps [of read bb b s]
        ReadString_loop.simps [of read "bb @ [b]" 0 s1])
next
  case (Cons c str)
  then obtain s1 where r: "ReadB_byte read s = Some (Inr c, s1)" and s1: "content s1 = str @ 0 # rest"
    "ok s1" "end_error s1 = end_error s" using ReadB_byte_enough [of s] by auto
  from Cons.prems(4) have "c \<noteq> 0" "0 \<notin> set str" by auto
  then obtain s' where "ReadString_loop read (bb @ [b]) c s1
      = Some (Inr (string_of_bytes ((bb @ [b]) @ c # str)), s')" "content s' = rest" "ok s'"
      "end_error s' = end_error s1"
    using Cons.IH [OF s1(2) _ s1(1)] by blast
  with Cons.prems r s1 show ?case by (simp add: ReadString_loop.simps [of read bb b s])
qed

lemma ReadString_terminated:
  assumes "ok s" and "content s = str @ 0 # rest" and "0 \<notin> set str"
  shows "\<exists>s'. ReadString read s = Some (Inr (string_of_bytes str), s')
    \<and> content s' = rest \<and> ok s' \<and> end_error s' = end_error s"
proof (cases str)
  case Nil
  with assms obtain s1 where "ReadB_byte read s = Some (Inr 0, s1)" "content s1 = rest" "ok s1"
    "end_error s1 = end_error s" using ReadB_byte_enough [of s] by auto
  with Nil show ?thesis by (simp add: ReadString_def ReadString_loop.simps [of read "[]" 0 s1])
next
  case (Cons c cs)
  with assms obtain s1 where r: "ReadB_byte read s = Some (Inr c, s1)"
    and s1: "content s1 = cs @ 0 # rest" "ok s1" "end_error s1 = end_error s"
    using ReadB_byte_enough [of s] by auto
  with Cons assms(3) ReadString_loop_terminated [of s1 c cs rest "[]"] show ?thesis
    by (simp add: ReadString_def)
qed

lemma ReadAll_loop_content:
  assumes "ok s"
  shows "\<exists>s'. ReadAll_loop read acc s
      = Some ((acc @ content s, if end_error s = EOF then None else Some (end_error s)), s')
    \<and> content s' = []"
  using assms
proof (induction "length (content s)" arbitrary: s acc rule: less_induct)
  case less
  show ?case
  proof (cases "content s = []")
    case True
    with less.prems show ?thesis by (simp add: ReadAll_loop.simps [of read acc s] read_end)
  next
    case False
    with less.prems obtain bs s1 where r: "read s 512 = ((bs, None), s1)" and bs: "bs \<noteq> []"
      and c: "content s = bs @ content s1" and s1: "ok s1" "end_error s1 = end_error s"
      using read_data [of s 512] by auto
    then show ?thesis
      using less.hyps [of s1 "acc @ bs"]
      by (auto simp: ReadAll_loop.simps [of read acc s] split: if_splits)
  qed
qed

end

section \<open>Reversal in place\<close>

text \<open>The loop of swaps, by positions: after it the positions from \<open>i\<close> to \<open>j\<close> are mirrored.\<close>

lemma ReverseBytes_loop_nth:
  "0 \<le> i \<Longrightarrow> j < int (length xs) \<Longrightarrow>
    length (ReverseBytes_loop i j xs) = length xs \<and>
    (\<forall>k < length xs. ReverseBytes_loop i j xs ! k
       = (if i \<le> int k \<and> int k \<le> j then xs ! nat (i + j - int k) else xs ! k))"
proof (induction i j xs rule: ReverseBytes_loop.induct)
  case (1 i j xs)
  let ?ys = "xs[nat i := xs ! nat j, nat j := xs ! nat i]"
  show ?case
  proof (cases "i < j")
    case True
    with "1.IH" "1.prems" have IH: "length (ReverseBytes_loop (i + 1) (j - 1) ?ys) = length xs"
      "\<And>k. k < length xs \<Longrightarrow> ReverseBytes_loop (i + 1) (j - 1) ?ys ! k
         = (if i + 1 \<le> int k \<and> int k \<le> j - 1 then ?ys ! nat (i + j - int k) else ?ys ! k)"
      by auto
    show ?thesis
    proof (intro conjI allI impI)
      show "length (ReverseBytes_loop i j xs) = length xs"
        using True IH(1) by (simp add: ReverseBytes_loop.simps [of i j xs])
    next
      fix k assume k: "k < length xs"
      have step: "ReverseBytes_loop i j xs ! k = (if i + 1 \<le> int k \<and> int k \<le> j - 1
          then ?ys ! nat (i + j - int k) else ?ys ! k)"
        using True IH(2) [OF k] by (simp add: ReverseBytes_loop.simps [of i j xs])
      consider "int k = i" | "int k = j" | "i < int k" "int k < j" | "int k < i \<or> j < int k"
        by linarith
      then show "ReverseBytes_loop i j xs ! k
         = (if i \<le> int k \<and> int k \<le> j then xs ! nat (i + j - int k) else xs ! k)"
      proof cases
        case 1
        then have "nat i = k" by simp
        with 1 step True "1.prems" k show ?thesis by (simp add: nth_list_update)
      next
        case 2
        then have "nat j = k" by simp
        with 2 step True "1.prems" k show ?thesis by (simp add: nth_list_update)
      next
        case 3
        then have "nat (i + j - int k) \<noteq> nat i" "nat (i + j - int k) \<noteq> nat j"
          using "1.prems" by arith+
        with step 3 show ?thesis by simp
      next
        case 4
        then have "k \<noteq> nat i" "k \<noteq> nat j" using True "1.prems" by arith+
        with step 4 show ?thesis by auto
      qed
    qed
  next
    case False
    then have "nat (i + j - int k) = k" if "i \<le> int k" "int k \<le> j" for k
      using that by simp
    with False show ?thesis by (auto simp: ReverseBytes_loop.simps [of i j xs])
  qed
qed

lemma ReverseBytes_rev: "ReverseBytes xs = rev xs"
proof -
  have *: "nat (int (length xs) - 1 - int k) = length xs - Suc k" if "k < length xs" for k
    using that by simp
  show ?thesis
    using ReverseBytes_loop_nth [of 0 "int (length xs) - 1" xs]
    by (intro nth_equalityI) (auto simp: ReverseBytes_def rev_nth *)
qed
section \<open>Properties\<close>

text \<open>
  \<open>ReverseBytes\<close>, which swaps in place from both ends, returns the reversed slice.
\<close>

theorem ReverseBytes_correct: "ReverseBytes data = rev data"
  by (rule ReverseBytes_rev)

text \<open>
  \<open>ReadString\<close> on a TCP connection returns the bytes before the first zero byte and leaves
  the stream right after it, however the peer's bytes are cut into segments.
\<close>

theorem ReadString_conn:
  assumes "conn_ok c" and "conn_content c = bytes_of_string str @ 0 # rest"
    and "0 \<notin> set (bytes_of_string str)"
  shows "\<exists>c'. ReadString conn_Read c = Some (Inr str, c') \<and> conn_content c' = rest \<and> conn_ok c'"
  using tcp.ReadString_terminated [OF assms] by auto

theorem ReadString_conn_witness:
  "\<exists>c'. ReadString conn_Read \<lparr>segs = [[104], [105, 0, 7]], conn_end = EOF\<rparr> = Some (Inr ''hi'', c')
    \<and> conn_content c' = [7] \<and> conn_ok c'"
  by (rule ReadString_conn) (simp_all add: conn_ok_def conn_content_def bytes_of_string_def byte_of_char_def)

text \<open>
  \<open>ReadString\<close> drops the error of its first read. On a connection that has ended, with
  whatever error, it returns the empty string and no error, although its comment says that an
  error reading the string is returned.
\<close>

theorem ReadString_ended:
  "ReadString conn_Read \<lparr>segs = [], conn_end = e\<rparr> = Some (Inr [], \<lparr>segs = [], conn_end = e\<rparr>)"
  by (simp add: ReadString_def ReadB_byte_def io_bind_def ReadFull_def ReadFull_loop.simps
      conn_Read_def ReadString_loop.simps string_of_bytes_def)

text \<open>
  \<open>ReadN\<close> makes a single \<open>Read\<close>: when the next segment holds fewer than \<open>n\<close> bytes it fails
  with \<open>io.ErrUnexpectedEOF\<close>, consuming the segment, even if the rest of the \<open>n\<close> bytes is in
  the segments behind it; when the segment holds them it returns exactly the first \<open>n\<close> bytes.
\<close>

theorem ReadN_segment:
  assumes "seg \<noteq> []"
  shows "ReadN conn_Read n (conn_of seg rest e) =
    (if n \<le> length seg then Some (Inr (take n seg), conn_of (drop n seg) rest e)
     else Some (Inl UnexpectedEOF, \<lparr>segs = rest, conn_end = e\<rparr>))"
  using assms by (auto simp: ReadN_def conn_Read_def conn_of_def)

theorem ReadN_segment_witness:
  "ReadN conn_Read 3 (conn_of [1, 2] [[3, 4]] EOF) = Some (Inl UnexpectedEOF, \<lparr>segs = [[3, 4]], conn_end = EOF\<rparr>)
   \<and> ReadN conn_Read 2 (conn_of [1, 2] [[3, 4]] EOF) = Some (Inr [1, 2], conn_of [] [[3, 4]] EOF)"
  using ReadN_segment [of "[1, 2]" 3 "[[3, 4]]" EOF] ReadN_segment [of "[1, 2]" 2 "[[3, 4]]" EOF]
  by simp

end
