(* ===== verification/Counting_Reader.thy ===== *)
theory Counting_Reader
  imports Reader
begin

text \<open>
  \<^verbatim>\<open>reader/counting_reader.go\<close>: a reader that wraps another one and counts the bytes read through
  it. Its methods repeat the functions of \<^verbatim>\<open>reader/reader.go\<close> over the wrapped reader; they differ
  in their error texts, in the default byte order of the string reads (which does not matter for
  single bytes) and in that \<open>ReadReverseBytes\<close> panics on an error.
\<close>

section \<open>The wrapper and its methods\<close>

record 's counting =
  inner :: 's
  BytesRead :: nat

definition CR_Read :: "'s reader \<Rightarrow> 's counting reader" where
  "CR_Read rd cr n =
     (case rd (inner cr) n of
        ((bs, err), s') \<Rightarrow>
          ((bs, err), \<lparr>inner = s', BytesRead = BytesRead cr + length bs\<rparr>))"

definition CR_ReadString :: "'s reader \<Rightarrow> ('s counting, string) io" where
  "CR_ReadString rd = ReadString (CR_Read rd)"

definition CR_ReadStringFixed :: "'s reader \<Rightarrow> nat \<Rightarrow> ('s counting, string) io" where
  "CR_ReadStringFixed rd n = ReadStringFixed (CR_Read rd) n"

definition CR_ReadBytes :: "'s reader \<Rightarrow> 's counting reader" where
  "CR_ReadBytes rd = CR_Read rd"

definition CR_ReadL_u16 :: "'s reader \<Rightarrow> ('s counting, u16) io" where
  "CR_ReadL_u16 rd = ReadL_u16 (CR_Read rd)"

definition CR_ReadL_u32 :: "'s reader \<Rightarrow> ('s counting, u32) io" where
  "CR_ReadL_u32 rd = ReadL_u32 (CR_Read rd)"

definition CR_ReadB_u16 :: "'s reader \<Rightarrow> ('s counting, u16) io" where
  "CR_ReadB_u16 rd = ReadB_u16 (CR_Read rd)"

definition CR_ReadB_u32 :: "'s reader \<Rightarrow> ('s counting, u32) io" where
  "CR_ReadB_u32 rd = ReadB_u32 (CR_Read rd)"

definition CR_ReadN :: "'s reader \<Rightarrow> nat \<Rightarrow> ('s counting, bytes) io" where
  "CR_ReadN rd n cr =
     (case CR_ReadBytes rd cr n of
        ((buf, Some err), cr') \<Rightarrow> Some (Inl err, cr')
      | ((buf, None), cr') \<Rightarrow>
          (if length buf \<noteq> n
           then Some (Inl (ErrText (''read '' @ Itoa (length buf) @ '' instead of required '' @ Itoa n)), cr')
           else Some (Inr buf, cr')))"

definition CR_SkipN :: "'s reader \<Rightarrow> nat \<Rightarrow> 's counting \<Rightarrow> (nat \<times> go_error option) \<times> 's counting" where
  "CR_SkipN rd n cr =
     (case CR_ReadBytes rd cr n of
        ((buf, Some err), cr') \<Rightarrow> ((length buf, Some (ErrJoin (ErrText ''wow.ReadBytes'') err)), cr')
      | ((buf, None), cr') \<Rightarrow>
          (if length buf \<noteq> n
           then ((length buf, Some (ErrText (''skipped '' @ Itoa (length buf) @ '' instead of required: '' @ Itoa n))), cr')
           else ((length buf, None), cr')))"

text \<open>\<open>panic(err)\<close> is the left value here.\<close>

definition CR_ReadReverseBytes :: "'s reader \<Rightarrow> nat \<Rightarrow> ('s counting, bytes) io" where
  "CR_ReadReverseBytes rd n =
     io_bind (ReadB_bytes (CR_Read rd) n) (\<lambda>buf. io_return (ReverseBytes buf))"

definition CR_ReadAll ::
  "'s reader \<Rightarrow> 's counting \<Rightarrow> ((bytes \<times> go_error option) \<times> 's counting) option" where
  "CR_ReadAll rd = ReadAll (CR_Read rd)"

section \<open>The wrapper is a reader, and it counts\<close>

text \<open>
  The wrapper of a TCP connection satisfies the laws of \<open>io.Reader\<close>, with the count as part of
  its invariant: the bytes read and the bytes left add up to the same total \<open>T\<close> at all times.
  Every fact of the interface then speaks about the count as well.
\<close>

definition counted :: "nat \<Rightarrow> conn counting \<Rightarrow> bool" where
  "counted T cr \<longleftrightarrow> conn_ok (inner cr) \<and> BytesRead cr + length (conn_content (inner cr)) = T"

interpretation cr: io_reader "CR_Read conn_Read" "\<lambda>cr. conn_content (inner cr)"
  "\<lambda>cr. conn_end (inner cr)" "counted T" for T
proof unfold_locales
  fix s :: "conn counting" and n :: nat
  assume ok: "counted T s" and ne: "conn_content (inner s) \<noteq> []" and n: "0 < n"
  obtain bs c where "conn_Read (inner s) n = ((bs, None), c)" "bs \<noteq> []" "length bs \<le> n"
    "conn_content (inner s) = bs @ conn_content c" "conn_ok c" "conn_end c = conn_end (inner s)"
    using tcp.read_data [OF _ ne n] ok by (auto simp: counted_def)
  then show "\<exists>bs s'. CR_Read conn_Read s n = ((bs, None), s') \<and> bs \<noteq> [] \<and> length bs \<le> n
      \<and> conn_content (inner s) = bs @ conn_content (inner s') \<and> counted T s'
      \<and> conn_end (inner s') = conn_end (inner s)"
    using ok by (auto simp: CR_Read_def counted_def)
next
  fix s :: "conn counting" and n :: nat
  assume "counted T s" and "conn_content (inner s) = []" and "0 < n"
  then show "CR_Read conn_Read s n = (([], Some (conn_end (inner s))), s)"
    by (simp add: CR_Read_def counted_def tcp.read_end)
next
  fix s :: "conn counting"
  assume "counted T s"
  then show "CR_Read conn_Read s 0 = (([], None), s)"
    by (simp add: CR_Read_def counted_def tcp.read_none)
qed

text \<open>
  The counting reader counts what it consumes: reading a zero-terminated string through it
  gives the string, leaves the stream behind the zero byte, and has added the length of the
  string and of its terminator to \<open>BytesRead\<close>, however the bytes are cut into segments.
\<close>

theorem CR_ReadString_counts:
  assumes "conn_ok (inner cr)" and "conn_content (inner cr) = bytes_of_string str @ 0 # rest"
    and "0 \<notin> set (bytes_of_string str)"
  shows "\<exists>cr'. CR_ReadString conn_Read cr = Some (Inr str, cr') \<and> conn_content (inner cr') = rest
    \<and> BytesRead cr' = BytesRead cr + length str + 1"
proof -
  let ?T = "BytesRead cr + length (conn_content (inner cr))"
  have "counted ?T cr" using assms(1) by (simp add: counted_def)
  from cr.ReadString_terminated [OF this assms(2,3)] assms(2) show ?thesis
    by (auto simp: CR_ReadString_def counted_def)
qed

theorem CR_ReadString_counts_witness:
  "\<exists>cr'. CR_ReadString conn_Read
        \<lparr>inner = \<lparr>segs = [[104], [105, 0, 7]], conn_end = EOF\<rparr>, BytesRead = 5\<rparr> = Some (Inr ''hi'', cr')
    \<and> conn_content (inner cr') = [7]
    \<and> BytesRead cr' = BytesRead \<lparr>inner = \<lparr>segs = [[104], [105, 0, 7]], conn_end = EOF\<rparr>, BytesRead = 5\<rparr>
        + length ''hi'' + 1"
  by (rule CR_ReadString_counts)
    (simp_all add: conn_ok_def conn_content_def bytes_of_string_def byte_of_char_def)

end
