(* ===== verification/Packets.thy ===== *)
theory Packets
  imports Reader
begin

text \<open>
  The packets of the traffic protocol: the structs of \<^verbatim>\<open>traffic/packets.go\<close> and their encoders and
  decoders of \<^verbatim>\<open>traffic/packets_gen.go\<close>. \<open>Marshal\<close> writes to a \<open>bytes.Buffer\<close>, whose writes never
  fail, so it is a total function to bytes; \<open>Unmarshal\<close> reads the fields behind the opcode, which
  the server has read before. A string is preceded by its length in one byte.
\<close>

section \<open>The packets\<close>

record IAmCameraPacket =
  cam_Road :: u16
  cam_Mile :: u16
  cam_Limit :: u16

record IAmDispatcherPacket =
  disp_Roads :: "u16 list"

record ErrorPacket =
  err_Message :: string

record PlatePacket =
  plate_Plate :: string
  plate_Timestamp :: u32

record TicketPacket =
  t_Plate :: string
  t_Road :: u16
  t_Mile1 :: u16
  t_Timestamp1 :: u32
  t_Mile2 :: u16
  t_Timestamp2 :: u32
  t_Speed :: u16

record WantHeartbeatPacket =
  wh_Interval :: u32

type_synonym HeartbeatPacket = unit

definition Opcode_IAmCamera :: byte where "Opcode_IAmCamera = 0x80"
definition Opcode_IAmDispatcher :: byte where "Opcode_IAmDispatcher = 0x81"
definition Opcode_Error :: byte where "Opcode_Error = 0x10"
definition Opcode_Plate :: byte where "Opcode_Plate = 0x20"
definition Opcode_Ticket :: byte where "Opcode_Ticket = 0x21"
definition Opcode_WantHeartbeat :: byte where "Opcode_WantHeartbeat = 0x40"
definition Opcode_Heartbeat :: byte where "Opcode_Heartbeat = 0x41"

lemmas opcode_defs = Opcode_IAmCamera_def Opcode_IAmDispatcher_def Opcode_Error_def
  Opcode_Plate_def Opcode_Ticket_def Opcode_WantHeartbeat_def Opcode_Heartbeat_def

section \<open>Encoders\<close>

text \<open>\<open>byte(len(s))\<close> keeps the low byte of the length.\<close>

definition len_byte :: "'a list \<Rightarrow> byte" where
  "len_byte xs = word_of_nat (length xs)"

definition put_string :: "string \<Rightarrow> bytes" where
  "put_string s = len_byte s # bytes_of_string s"

definition Marshal_IAmCamera :: "IAmCameraPacket \<Rightarrow> bytes" where
  "Marshal_IAmCamera p =
     Opcode_IAmCamera # be_put16 (cam_Road p) @ be_put16 (cam_Mile p) @ be_put16 (cam_Limit p)"

definition Marshal_IAmDispatcher :: "IAmDispatcherPacket \<Rightarrow> bytes" where
  "Marshal_IAmDispatcher p =
     Opcode_IAmDispatcher # len_byte (disp_Roads p) # concat (map be_put16 (disp_Roads p))"

definition Marshal_Error :: "ErrorPacket \<Rightarrow> bytes" where
  "Marshal_Error p = Opcode_Error # put_string (err_Message p)"

definition Marshal_Plate :: "PlatePacket \<Rightarrow> bytes" where
  "Marshal_Plate p = Opcode_Plate # put_string (plate_Plate p) @ be_put32 (plate_Timestamp p)"

definition Marshal_Ticket :: "TicketPacket \<Rightarrow> bytes" where
  "Marshal_Ticket p =
     Opcode_Ticket # put_string (t_Plate p) @ be_put16 (t_Road p) @ be_put16 (t_Mile1 p)
       @ be_put32 (t_Timestamp1 p) @ be_put16 (t_Mile2 p) @ be_put32 (t_Timestamp2 p)
       @ be_put16 (t_Speed p)"

definition Marshal_WantHeartbeat :: "WantHeartbeatPacket \<Rightarrow> bytes" where
  "Marshal_WantHeartbeat p = Opcode_WantHeartbeat # be_put32 (wh_Interval p)"

definition Marshal_Heartbeat :: "HeartbeatPacket \<Rightarrow> bytes" where
  "Marshal_Heartbeat p = [Opcode_Heartbeat]"

lemmas marshal_defs = Marshal_IAmCamera_def Marshal_IAmDispatcher_def Marshal_Error_def
  Marshal_Plate_def Marshal_Ticket_def Marshal_WantHeartbeat_def Marshal_Heartbeat_def

section \<open>Decoders\<close>

definition get_string :: "'s reader \<Rightarrow> ('s, string) io" where
  "get_string rd =
     io_bind (ReadByte rd) (\<lambda>length.
     io_bind (ReadN rd (unat length)) (\<lambda>buf.
     io_return (string_of_bytes buf)))"

definition Unmarshal_IAmCamera :: "'s reader \<Rightarrow> ('s, IAmCameraPacket) io" where
  "Unmarshal_IAmCamera rd =
     io_bind (ReadB_u16 rd) (\<lambda>road.
     io_bind (ReadB_u16 rd) (\<lambda>mile.
     io_bind (ReadB_u16 rd) (\<lambda>limit.
     io_return \<lparr>cam_Road = road, cam_Mile = mile, cam_Limit = limit\<rparr>)))"

definition Unmarshal_IAmDispatcher :: "'s reader \<Rightarrow> ('s, IAmDispatcherPacket) io" where
  "Unmarshal_IAmDispatcher rd =
     io_bind (ReadByte rd) (\<lambda>length.
     io_bind (ReadB_u16s rd (unat length)) (\<lambda>buf.
     io_return \<lparr>disp_Roads = buf\<rparr>))"

definition Unmarshal_Error :: "'s reader \<Rightarrow> ('s, ErrorPacket) io" where
  "Unmarshal_Error rd = io_bind (get_string rd) (\<lambda>m. io_return \<lparr>err_Message = m\<rparr>)"

definition Unmarshal_Plate :: "'s reader \<Rightarrow> ('s, PlatePacket) io" where
  "Unmarshal_Plate rd =
     io_bind (get_string rd) (\<lambda>plate.
     io_bind (ReadB_u32 rd) (\<lambda>timestamp.
     io_return \<lparr>plate_Plate = plate, plate_Timestamp = timestamp\<rparr>))"

definition Unmarshal_Ticket :: "'s reader \<Rightarrow> ('s, TicketPacket) io" where
  "Unmarshal_Ticket rd =
     io_bind (get_string rd) (\<lambda>plate.
     io_bind (ReadB_u16 rd) (\<lambda>road.
     io_bind (ReadB_u16 rd) (\<lambda>mile1.
     io_bind (ReadB_u32 rd) (\<lambda>timestamp1.
     io_bind (ReadB_u16 rd) (\<lambda>mile2.
     io_bind (ReadB_u32 rd) (\<lambda>timestamp2.
     io_bind (ReadB_u16 rd) (\<lambda>speed.
     io_return \<lparr>t_Plate = plate, t_Road = road, t_Mile1 = mile1, t_Timestamp1 = timestamp1,
       t_Mile2 = mile2, t_Timestamp2 = timestamp2, t_Speed = speed\<rparr>)))))))"

definition Unmarshal_WantHeartbeat :: "'s reader \<Rightarrow> ('s, WantHeartbeatPacket) io" where
  "Unmarshal_WantHeartbeat rd =
     io_bind (ReadB_u32 rd) (\<lambda>interval. io_return \<lparr>wh_Interval = interval\<rparr>)"

definition Unmarshal_Heartbeat :: "'s reader \<Rightarrow> ('s, HeartbeatPacket) io" where
  "Unmarshal_Heartbeat rd = io_return ()"

lemmas unmarshal_defs = Unmarshal_IAmCamera_def Unmarshal_IAmDispatcher_def Unmarshal_Error_def
  Unmarshal_Plate_def Unmarshal_Ticket_def Unmarshal_WantHeartbeat_def Unmarshal_Heartbeat_def

section \<open>Reads from one segment\<close>

lemma ReadB_u16_of [simp]:
  "ReadB_u16 conn_Read (conn_of (be_put16 w @ r) ss e) = Some (Inr w, conn_of r ss e)"
  by (simp add: ReadB_u16_def io_bind_def ReadFull_of)

lemma ReadB_u32_of [simp]:
  "ReadB_u32 conn_Read (conn_of (be_put32 w @ r) ss e) = Some (Inr w, conn_of r ss e)"
  by (simp add: ReadB_u32_def io_bind_def ReadFull_of)

lemma ReadB_u16s_of [simp]:
  "n = length ws \<Longrightarrow> ReadB_u16s conn_Read n (conn_of (concat (map be_put16 ws) @ r) ss e)
     = Some (Inr ws, conn_of r ss e)"
  by (simp add: ReadB_u16s_def io_bind_def ReadFull_of)

lemma ReadN_of [simp]:
  "n \<le> length bs \<Longrightarrow>
     ReadN conn_Read n (conn_of bs ss e) = Some (Inr (take n bs), conn_of (drop n bs) ss e)"
  by (simp add: ReadN_def conn_Read_of)

lemma ReadByte_of [simp]:
  "ReadByte conn_Read (conn_of (b # bs) ss e) = Some (Inr b, conn_of bs ss e)"
  by (simp add: ReadByte_def io_bind_def)

lemma unat_len_byte: "length xs \<le> 255 \<Longrightarrow> unat (len_byte xs) = length xs"
  by (simp add: len_byte_def unat_of_nat)

lemma get_string_of [simp]:
  "length s \<le> 255 \<Longrightarrow>
     get_string conn_Read (conn_of (put_string s @ r) ss e) = Some (Inr s, conn_of r ss e)"
  by (simp add: get_string_def put_string_def io_bind_def unat_len_byte)

section \<open>The interface of a packet type\<close>

text \<open>
  What the server relies on: the encoder starts with the opcode, and the decoder, given the bytes
  behind the opcode in one segment, returns the packet and leaves the rest of the segment. \<open>fits\<close>
  says that the lengths in the packet fit their length byte.
\<close>

definition read_packet :: "(conn, 'p) io \<Rightarrow> (conn, 'p) io" where
  "read_packet unmarshal = io_bind (ReadByte conn_Read) (\<lambda>opcode. unmarshal)"

fun read_packets :: "(conn, 'p) io \<Rightarrow> nat \<Rightarrow> (conn, 'p list) io" where
  "read_packets unmarshal 0 = io_return []"
| "read_packets unmarshal (Suc n) =
     io_bind (read_packet unmarshal) (\<lambda>p.
     io_bind (read_packets unmarshal n) (\<lambda>ps. io_return (p # ps)))"

locale packet_codec =
  fixes opcode :: byte
    and marshal :: "'p \<Rightarrow> bytes"
    and unmarshal :: "(conn, 'p) io"
    and fits :: "'p \<Rightarrow> bool"
  assumes marshal_opcode: "marshal p = opcode # tl (marshal p)"
    and unmarshal_body: "fits p \<Longrightarrow>
      unmarshal (conn_of (tl (marshal p) @ r) ss e) = Some (Inr p, conn_of r ss e)"
begin

lemma read_packet_marshal:
  assumes "fits p"
  shows "read_packet unmarshal (conn_of (marshal p @ r) ss e) = Some (Inr p, conn_of r ss e)"
proof -
  have "ReadByte conn_Read (conn_of (marshal p @ r) ss e)
      = Some (Inr opcode, conn_of (tl (marshal p) @ r) ss e)"
    by (subst marshal_opcode) simp
  then show ?thesis
    by (simp add: read_packet_def io_bind_def unmarshal_body [OF assms])
qed

lemma read_packets_marshal:
  "\<forall>p \<in> set ps. fits p \<Longrightarrow>
     read_packets unmarshal (length ps) (conn_of (concat (map marshal ps) @ r) ss e)
       = Some (Inr ps, conn_of r ss e)"
  by (induction ps) (simp_all add: io_bind_def read_packet_marshal)

lemma marshal_inj:
  assumes "fits p" and "fits q" and "marshal p = marshal q"
  shows "p = q"
  using unmarshal_body [OF assms(1), of "[]" "[]" EOF] unmarshal_body [OF assms(2), of "[]" "[]" EOF]
    assms(3)
  by simp

end

text \<open>A packet type whose decoder does not depend on how the bytes are cut into segments.\<close>

locale stream_codec = packet_codec opcode marshal unmarshal fits
  for opcode :: byte and marshal :: "'p \<Rightarrow> bytes" and unmarshal :: "(conn, 'p) io"
    and fits :: "'p \<Rightarrow> bool" +
  assumes unmarshal_any_cut: "fits p \<Longrightarrow> conn_ok c \<Longrightarrow> conn_content c = tl (marshal p) @ r \<Longrightarrow>
    \<exists>c'. unmarshal c = Some (Inr p, c') \<and> conn_content c' = r \<and> conn_ok c' \<and> conn_end c' = conn_end c"
begin

lemma read_packet_any_cut:
  assumes "fits p" and "conn_ok c" and "conn_content c = marshal p @ r"
  shows "\<exists>c'. read_packet unmarshal c = Some (Inr p, c') \<and> conn_content c' = r \<and> conn_ok c'
    \<and> conn_end c' = conn_end c"
proof -
  have c: "conn_content c = opcode # (tl (marshal p) @ r)"
    using assms(3) marshal_opcode [of p] by (metis append_Cons)
  then obtain c1 where "ReadByte conn_Read c = Some (Inr opcode, c1)"
    and "conn_content c1 = tl (marshal p) @ r" "conn_ok c1" "conn_end c1 = conn_end c"
    using tcp.ReadByte_enough [OF assms(2)] by auto
  with unmarshal_any_cut [OF assms(1), of c1 r] show ?thesis
    by (simp add: read_packet_def io_bind_def)
qed

end

section \<open>The packets of the protocol satisfy it\<close>

definition always :: "'a \<Rightarrow> bool" where
  "always p \<longleftrightarrow> True"

definition roads_fit :: "IAmDispatcherPacket \<Rightarrow> bool" where
  "roads_fit p \<longleftrightarrow> length (disp_Roads p) \<le> 255"

definition message_fits :: "ErrorPacket \<Rightarrow> bool" where
  "message_fits p \<longleftrightarrow> length (err_Message p) \<le> 255"

definition plate_fits :: "PlatePacket \<Rightarrow> bool" where
  "plate_fits p \<longleftrightarrow> length (plate_Plate p) \<le> 255"

definition ticket_fits :: "TicketPacket \<Rightarrow> bool" where
  "ticket_fits p \<longleftrightarrow> length (t_Plate p) \<le> 255"

interpretation camera: stream_codec Opcode_IAmCamera Marshal_IAmCamera
  "Unmarshal_IAmCamera conn_Read" always
proof unfold_locales
  fix p :: IAmCameraPacket and c :: conn and r :: bytes
  assume "conn_ok c" and "conn_content c = tl (Marshal_IAmCamera p) @ r"
  then have c: "conn_content c
      = be_put16 (cam_Road p) @ be_put16 (cam_Mile p) @ be_put16 (cam_Limit p) @ r"
    by (simp add: Marshal_IAmCamera_def)
  obtain c1 where c1: "ReadB_u16 conn_Read c = Some (Inr (cam_Road p), c1)" "conn_ok c1"
    "conn_content c1 = be_put16 (cam_Mile p) @ be_put16 (cam_Limit p) @ r" "conn_end c1 = conn_end c"
    using tcp.ReadB_u16_enough [OF \<open>conn_ok c\<close> c] by blast
  obtain c2 where c2: "ReadB_u16 conn_Read c1 = Some (Inr (cam_Mile p), c2)" "conn_ok c2"
    "conn_content c2 = be_put16 (cam_Limit p) @ r" "conn_end c2 = conn_end c"
    using tcp.ReadB_u16_enough [OF c1(2,3)] c1(4) by auto
  obtain c3 where c3: "ReadB_u16 conn_Read c2 = Some (Inr (cam_Limit p), c3)" "conn_ok c3"
    "conn_content c3 = r" "conn_end c3 = conn_end c"
    using tcp.ReadB_u16_enough [OF c2(2,3)] c2(4) by auto
  show "\<exists>c'. Unmarshal_IAmCamera conn_Read c = Some (Inr p, c') \<and> conn_content c' = r
      \<and> conn_ok c' \<and> conn_end c' = conn_end c"
    by (simp add: Unmarshal_IAmCamera_def io_bind_def c1(1) c2(1) c3)
qed (simp_all add: Marshal_IAmCamera_def Unmarshal_IAmCamera_def io_bind_def)

interpretation dispatcher: stream_codec Opcode_IAmDispatcher Marshal_IAmDispatcher
  "Unmarshal_IAmDispatcher conn_Read" roads_fit
proof unfold_locales
  fix p :: IAmDispatcherPacket and c :: conn and r :: bytes
  assume fits: "roads_fit p" and "conn_ok c" and c: "conn_content c = tl (Marshal_IAmDispatcher p) @ r"
  then obtain c1 where c1: "ReadByte conn_Read c = Some (Inr (len_byte (disp_Roads p)), c1)" "conn_ok c1"
    "conn_content c1 = concat (map be_put16 (disp_Roads p)) @ r" "conn_end c1 = conn_end c"
    using tcp.ReadByte_enough [of c] by (auto simp: Marshal_IAmDispatcher_def)
  moreover have "unat (len_byte (disp_Roads p)) = length (disp_Roads p)"
    using fits by (simp add: roads_fit_def unat_len_byte)
  ultimately show "\<exists>c'. Unmarshal_IAmDispatcher conn_Read c = Some (Inr p, c') \<and> conn_content c' = r
      \<and> conn_ok c' \<and> conn_end c' = conn_end c"
    using tcp.ReadB_u16s_enough [of c1 "disp_Roads p" r]
    by (auto simp: Unmarshal_IAmDispatcher_def io_bind_def)
qed (simp_all add: Marshal_IAmDispatcher_def Unmarshal_IAmDispatcher_def io_bind_def roads_fit_def
    unat_len_byte)

interpretation want_heartbeat: stream_codec Opcode_WantHeartbeat Marshal_WantHeartbeat
  "Unmarshal_WantHeartbeat conn_Read" always
proof unfold_locales
  fix p :: WantHeartbeatPacket and c :: conn and r :: bytes
  assume "conn_ok c" and "conn_content c = tl (Marshal_WantHeartbeat p) @ r"
  then show "\<exists>c'. Unmarshal_WantHeartbeat conn_Read c = Some (Inr p, c') \<and> conn_content c' = r
      \<and> conn_ok c' \<and> conn_end c' = conn_end c"
    using tcp.ReadB_u32_enough [of c "wh_Interval p" r]
    by (auto simp: Unmarshal_WantHeartbeat_def Marshal_WantHeartbeat_def io_bind_def)
qed (simp_all add: Marshal_WantHeartbeat_def Unmarshal_WantHeartbeat_def io_bind_def)

interpretation heartbeat: stream_codec Opcode_Heartbeat Marshal_Heartbeat
  "Unmarshal_Heartbeat conn_Read" always
  by unfold_locales (simp_all add: Marshal_Heartbeat_def Unmarshal_Heartbeat_def)

interpretation error: packet_codec Opcode_Error Marshal_Error "Unmarshal_Error conn_Read" message_fits
  by unfold_locales
    (simp_all add: Marshal_Error_def Unmarshal_Error_def io_bind_def message_fits_def)

interpretation plate: packet_codec Opcode_Plate Marshal_Plate "Unmarshal_Plate conn_Read" plate_fits
  by unfold_locales
    (simp_all add: Marshal_Plate_def Unmarshal_Plate_def io_bind_def plate_fits_def)

interpretation ticket: packet_codec Opcode_Ticket Marshal_Ticket "Unmarshal_Ticket conn_Read" ticket_fits
  by unfold_locales
    (simp_all add: Marshal_Ticket_def Unmarshal_Ticket_def io_bind_def ticket_fits_def)

section \<open>Properties\<close>

text \<open>
  Tickets survive the wire: a sequence of tickets, encoded one after the other into one
  segment, is decoded to the same sequence, and what follows them is left in the stream. The
  plates must be at most 255 bytes long.
\<close>

theorem tickets_roundtrip:
  assumes "\<forall>p \<in> set ps. length (t_Plate p) \<le> 255"
  shows "read_packets (Unmarshal_Ticket conn_Read) (length ps)
      (conn_of (concat (map Marshal_Ticket ps) @ r) ss e) = Some (Inr ps, conn_of r ss e)"
  by (rule ticket.read_packets_marshal) (use assms in \<open>simp add: ticket_fits_def\<close>)

definition example_ticket :: TicketPacket where
  "example_ticket = \<lparr>t_Plate = ''UN1X'', t_Road = 123, t_Mile1 = 8, t_Timestamp1 = 0,
     t_Mile2 = 9, t_Timestamp2 = 45, t_Speed = 8000\<rparr>"

theorem tickets_roundtrip_witness:
  "read_packets (Unmarshal_Ticket conn_Read) (length [example_ticket, example_ticket])
      (conn_of (concat (map Marshal_Ticket [example_ticket, example_ticket]) @ [1]) [[2]] EOF)
    = Some (Inr [example_ticket, example_ticket], conn_of [1] [[2]] EOF)"
  by (rule tickets_roundtrip) (simp add: example_ticket_def)

text \<open>
  A camera's introduction is decoded to the packet that was encoded, whatever its fields and
  however the network cuts the bytes into segments.
\<close>

theorem camera_roundtrip:
  assumes "conn_ok c" and "conn_content c = Marshal_IAmCamera p @ r"
  shows "\<exists>c'. read_packet (Unmarshal_IAmCamera conn_Read) c = Some (Inr p, c')
    \<and> conn_content c' = r \<and> conn_ok c'"
  using camera.read_packet_any_cut [OF _ assms] by (auto simp: always_def)

theorem camera_roundtrip_witness:
  "\<exists>c'. read_packet (Unmarshal_IAmCamera conn_Read)
        \<lparr>segs = [[0x80, 0], [66, 0, 100, 0], [60, 7]], conn_end = EOF\<rparr>
      = Some (Inr \<lparr>cam_Road = 66, cam_Mile = 100, cam_Limit = 60\<rparr>, c')
    \<and> conn_content c' = [7] \<and> conn_ok c'"
  by (rule camera_roundtrip)
    (simp_all add: conn_ok_def conn_content_def Marshal_IAmCamera_def Opcode_IAmCamera_def be_put16_def)

text \<open>
  The same for a dispatcher's introduction with at most 255 roads.
\<close>

theorem dispatcher_roundtrip:
  assumes "length (disp_Roads p) \<le> 255" and "conn_ok c"
    and "conn_content c = Marshal_IAmDispatcher p @ r"
  shows "\<exists>c'. read_packet (Unmarshal_IAmDispatcher conn_Read) c = Some (Inr p, c')
    \<and> conn_content c' = r \<and> conn_ok c'"
  using dispatcher.read_packet_any_cut [OF _ assms(2,3)] assms(1) by (auto simp: roads_fit_def)

theorem dispatcher_roundtrip_witness:
  "\<exists>c'. read_packet (Unmarshal_IAmDispatcher conn_Read)
        \<lparr>segs = [[0x81], [2, 0, 66, 1], [112]], conn_end = EOF\<rparr>
      = Some (Inr \<lparr>disp_Roads = [66, 368]\<rparr>, c')
    \<and> conn_content c' = [] \<and> conn_ok c'"
  by (rule dispatcher_roundtrip)
    (simp_all add: conn_ok_def conn_content_def Marshal_IAmDispatcher_def Opcode_IAmDispatcher_def
      be_put16_def len_byte_def)

text \<open>
  A plate report is decoded only when the whole plate is in the segment after its length
  byte. If the plate is cut by a segment boundary (and so the segment with its beginning is
  shorter than the plate), decoding fails with \<open>io.ErrUnexpectedEOF\<close> although all the bytes
  arrive.
\<close>

theorem plate_cut_fails:
  assumes "seg \<noteq> []" and "length seg < unat n"
  shows "Unmarshal_Plate conn_Read \<lparr>segs = (n # seg) # rest, conn_end = e\<rparr>
    = Some (Inl UnexpectedEOF, \<lparr>segs = rest, conn_end = e\<rparr>)"
proof -
  have "\<lparr>segs = (n # seg) # rest, conn_end = e\<rparr> = conn_of (n # seg) rest e"
    by (simp add: conn_of_def)
  moreover have "ReadN conn_Read (unat n) (conn_of seg rest e)
      = Some (Inl UnexpectedEOF, \<lparr>segs = rest, conn_end = e\<rparr>)"
    using assms by (auto simp: ReadN_def conn_Read_def conn_of_def)
  ultimately show ?thesis
    by (simp add: Unmarshal_Plate_def get_string_def io_bind_def)
qed

theorem plate_cut_fails_witness:
  "Unmarshal_Plate conn_Read \<lparr>segs = (4 # [85, 78]) # [[49, 88, 0, 0, 0, 1]], conn_end = EOF\<rparr>
    = Some (Inl UnexpectedEOF, \<lparr>segs = [[49, 88, 0, 0, 0, 1]], conn_end = EOF\<rparr>)"
  by (rule plate_cut_fails) simp_all

end
