(* ===== verification/Go_Float.thy ===== *)
theory Go_Float
  imports Complex_Main
begin

text \<open>
  The floating-point operations of the traffic server: a result of exact arithmetic on the
  non-negative rationals, rounded to \<open>p\<close> significant bits, to nearest with ties to even, as IEEE
  754 prescribes. \<open>float32\<close> has 24 bits and \<open>float64\<close> has 53. The exponent is not bounded: the
  values the server computes (day numbers, and speeds between \<open>3600 / 2^32\<close> and \<open>3 * 10^10\<close>) are far
  inside the normal range of both formats.
\<close>

section \<open>Rounding to a number of bits\<close>

definition round_half_even :: "rat \<Rightarrow> int" where
  "round_half_even x =
     (let f = \<lfloor>x\<rfloor>; d = x - of_int f
      in if d < 1 / 2 then f else if d > 1 / 2 then f + 1 else if even f then f else f + 1)"

fun bitlen :: "nat \<Rightarrow> nat" where
  "bitlen n = (if n = 0 then 0 else Suc (bitlen (n div 2)))"

declare bitlen.simps [simp del]

text \<open>The exponent \<open>e\<close> with \<open>2 ^ e \<le> x < 2 ^ (e + 1)\<close>, for a positive \<open>x\<close>.\<close>

definition expo :: "rat \<Rightarrow> int" where
  "expo x =
     (let (n, d) = quotient_of x; k = int (bitlen (nat n)) - int (bitlen (nat d))
      in if 2 powi k \<le> x then k else k - 1)"

definition fl :: "nat \<Rightarrow> rat \<Rightarrow> rat" where
  "fl p x =
     (if x \<le> 0 then 0
      else let e = expo x - int p + 1 in of_int (round_half_even (x / 2 powi e)) * 2 powi e)"

definition float32 :: "rat \<Rightarrow> rat" where
  "float32 x = fl 24 x"

definition float64 :: "rat \<Rightarrow> rat" where
  "float64 x = fl 53 x"

section \<open>Its laws\<close>

lemma round_half_even_mono: "x \<le> y \<Longrightarrow> round_half_even x \<le> round_half_even y"
proof -
  assume xy: "x \<le> y"
  then have "\<lfloor>x\<rfloor> \<le> \<lfloor>y\<rfloor>" by (rule floor_mono)
  moreover have "round_half_even x \<le> round_half_even y" if "\<lfloor>x\<rfloor> = \<lfloor>y\<rfloor>"
    using that xy by (auto simp: round_half_even_def Let_def)
  moreover have "round_half_even x \<le> \<lfloor>x\<rfloor> + 1" "\<lfloor>y\<rfloor> \<le> round_half_even y"
    by (auto simp: round_half_even_def Let_def)
  ultimately show ?thesis by linarith
qed

lemma round_half_even_int [simp]: "round_half_even (of_int m) = m"
  by (simp add: round_half_even_def)

lemma round_half_even_error: "\<bar>of_int (round_half_even x) - x\<bar> \<le> 1 / 2"
proof -
  have "of_int \<lfloor>x\<rfloor> \<le> x" "x < of_int \<lfloor>x\<rfloor> + 1" by linarith+
  then show ?thesis by (auto simp: round_half_even_def Let_def abs_le_iff)
qed

lemma bitlen_bounds: "0 < n \<Longrightarrow> 2 ^ (bitlen n - 1) \<le> n \<and> n < 2 ^ bitlen n \<and> 0 < bitlen n"
proof (induction n rule: bitlen.induct)
  case (1 n)
  show ?case
  proof (cases "n = 1")
    case True
    then show ?thesis by (simp add: bitlen.simps)
  next
    case False
    with "1.prems" have "0 < n div 2" by simp
    with "1.IH" "1.prems" have IH: "2 ^ (bitlen (n div 2) - 1) \<le> n div 2" "n div 2 < 2 ^ bitlen (n div 2)"
      "0 < bitlen (n div 2)" by auto
    have b: "bitlen n = Suc (bitlen (n div 2))" using "1.prems" by (subst bitlen.simps) simp
    from IH(3) obtain m where m: "bitlen (n div 2) = Suc m" by (cases "bitlen (n div 2)") auto
    with IH(1) have "2 * 2 ^ m \<le> n" by simp
    moreover from IH(2) have "n < 2 * 2 ^ bitlen (n div 2)" by linarith
    ultimately show ?thesis using b m by simp
  qed
qed

lemma rat_pow_bounds:
  assumes "2 ^ a \<le> nat n" and "nat n < 2 ^ b" and "0 < n"
  shows "(2::rat) ^ a \<le> of_int n" and "of_int n < (2::rat) ^ b"
proof -
  have n: "of_int n = (of_nat (nat n) :: rat)" using assms(3) by simp
  have "of_nat (2 ^ a) \<le> (of_nat (nat n) :: rat)" "(of_nat (nat n) :: rat) < of_nat (2 ^ b)"
    using assms(1,2) by (simp_all only: of_nat_le_iff of_nat_less_iff)
  then show "(2::rat) ^ a \<le> of_int n" and "of_int n < (2::rat) ^ b"
    by (simp_all add: n)
qed

lemma expo_bounds:
  assumes "0 < x"
  shows "2 powi expo x \<le> x \<and> x < 2 powi (expo x + 1)"
proof -
  obtain n d where q: "quotient_of x = (n, d)" by fastforce
  then have d: "0 < d" and x: "x = of_int n / of_int d"
    by (auto simp: quotient_of_denom_pos quotient_of_div)
  with assms have n: "0 < n" by (simp add: zero_less_divide_iff)
  let ?a = "bitlen (nat n)" and ?b = "bitlen (nat d)"
  let ?k = "int ?a - int ?b"
  have a: "2 ^ (?a - 1) \<le> nat n" "nat n < 2 ^ ?a" "0 < ?a"
    using bitlen_bounds [of "nat n"] n by auto
  have b: "2 ^ (?b - 1) \<le> nat d" "nat d < 2 ^ ?b" "0 < ?b"
    using bitlen_bounds [of "nat d"] d by auto
  have nr: "(2::rat) ^ (?a - 1) \<le> of_int n" "of_int n < (2::rat) ^ ?a"
    by (fact rat_pow_bounds [OF a(1) a(2) n])+
  have dr: "(2::rat) ^ (?b - 1) \<le> of_int d" "of_int d < (2::rat) ^ ?b"
    by (fact rat_pow_bounds [OF b(1) b(2) d])+
  have pa: "(2::rat) ^ (?a - 1) = 2 powi (int ?a - 1)" "(2::rat) ^ ?a = 2 powi int ?a"
    using a(3) by (simp_all add: power_int_def nat_diff_distrib)
  have pb: "(2::rat) ^ (?b - 1) = 2 powi (int ?b - 1)" "(2::rat) ^ ?b = 2 powi int ?b"
    using b(3) by (simp_all add: power_int_def nat_diff_distrib)
  have dpos: "(0::rat) < of_int d" using d by simp
  have n1: "2 powi (int ?a - 1) \<le> (of_int n :: rat)" and n2: "of_int n < (2::rat) powi int ?a"
    using nr unfolding pa by auto
  have d1: "2 powi (int ?b - 1) \<le> (of_int d :: rat)" and d2: "of_int d \<le> (2::rat) powi int ?b"
    using dr unfolding pb by auto
  have "(2::rat) powi (?k - 1) * of_int d \<le> 2 powi (?k - 1) * 2 powi int ?b"
    by (rule mult_left_mono [OF d2]) simp
  also have "\<dots> = 2 powi (?k - 1 + int ?b)" by (rule power_int_add [symmetric]) simp
  also have "\<dots> \<le> of_int n" using n1 by (simp add: algebra_simps)
  finally have low: "2 powi (?k - 1) \<le> x" using x dpos by (simp add: pos_le_divide_eq)
  have "of_int n < (2::rat) powi (?k + 1 + (int ?b - 1))" using n2 by (simp add: algebra_simps)
  also have "\<dots> = 2 powi (?k + 1) * 2 powi (int ?b - 1)" by (rule power_int_add) simp
  also have "\<dots> \<le> 2 powi (?k + 1) * of_int d"
    by (rule mult_left_mono [OF d1]) simp
  finally have high: "x < 2 powi (?k + 1)" using x dpos by (simp add: pos_divide_less_eq)
  have "expo x = (if 2 powi ?k \<le> x then ?k else ?k - 1)" by (simp add: expo_def q)
  with low high show ?thesis by auto
qed

lemma powi_le_iff: "(2::rat) powi a \<le> 2 powi b \<longleftrightarrow> a \<le> b"
  using power_int_strict_increasing [of b a "2::rat"] power_int_increasing [of a b "2::rat"]
  by (metis (no_types) linorder_not_le one_less_numeral_iff semiring_norm(76) less_imp_le)

lemma expo_unique:
  assumes "0 < x" and "2 powi e \<le> x" and "x < 2 powi (e + 1)"
  shows "expo x = e"
proof -
  from expo_bounds [OF assms(1)] assms have "(2::rat) powi expo x < 2 powi (e + 1)"
    and "(2::rat) powi e < 2 powi (expo x + 1)" by linarith+
  then have "\<not> (2::rat) powi (e + 1) \<le> 2 powi expo x" "\<not> (2::rat) powi (expo x + 1) \<le> 2 powi e"
    by linarith+
  then show ?thesis by (simp add: powi_le_iff)
qed

lemma expo_mono: "0 < x \<Longrightarrow> x \<le> y \<Longrightarrow> expo x \<le> expo y"
proof -
  assume "0 < x" "x \<le> y"
  with expo_bounds [of x] expo_bounds [of y] have "(2::rat) powi expo x < 2 powi (expo y + 1)"
    by linarith
  then have "\<not> (2::rat) powi (expo y + 1) \<le> 2 powi expo x" by linarith
  then show ?thesis by (simp add: powi_le_iff)
qed

lemma fl_nonneg: "0 \<le> fl p x"
proof (cases "0 < x")
  case True
  let ?e = "expo x - int p + 1"
  have "0 \<le> x / 2 powi ?e" using True by simp
  then have "0 \<le> round_half_even (x / 2 powi ?e)"
    using round_half_even_mono [of 0 "x / 2 powi ?e"] round_half_even_int [of 0] by simp
  with True show ?thesis by (simp add: fl_def Let_def)
next
  case False
  then show ?thesis by (simp add: fl_def)
qed

lemma fl_bounds:
  assumes "0 < x" and "0 < p"
  shows "2 powi expo x \<le> fl p x" and "fl p x \<le> 2 powi (expo x + 1)"
proof -
  let ?e = "expo x - int p + 1"
  let ?P = "(2::rat) powi ?e"
  have P: "0 < ?P" by simp
  have lo: "(2::rat) powi (int p - 1) * ?P = 2 powi expo x"
    by (subst power_int_add [symmetric]) simp_all
  have hi: "(2::rat) powi int p * ?P = 2 powi (expo x + 1)"
    by (subst power_int_add [symmetric]) simp_all
  have pi: "(2::rat) powi (int p - 1) = of_int (2 ^ (p - 1))" "(2::rat) powi int p = of_int (2 ^ p)"
    using assms(2) by (simp_all add: power_int_def nat_diff_distrib)
  have "2 powi (int p - 1) \<le> x / ?P" "x / ?P \<le> 2 powi int p"
    using expo_bounds [OF assms(1)]
    by (simp_all only: pos_le_divide_eq [OF P] pos_divide_le_eq [OF P] lo hi less_imp_le)
  then have "of_int (2 ^ (p - 1)) \<le> x / ?P" "x / ?P \<le> of_int (2 ^ p)"
    unfolding pi by simp_all
  then have r: "2 ^ (p - 1) \<le> round_half_even (x / ?P)" "round_half_even (x / ?P) \<le> 2 ^ p"
    using round_half_even_mono [of "of_int (2 ^ (p - 1))" "x / ?P"]
      round_half_even_mono [of "x / ?P" "of_int (2 ^ p)"] by (simp_all only: round_half_even_int)
  have f: "fl p x = of_int (round_half_even (x / ?P)) * ?P"
    using assms(1) by (simp add: fl_def Let_def)
  have "(of_int (2 ^ (p - 1)) :: rat) * ?P \<le> of_int (round_half_even (x / ?P)) * ?P"
    by (rule mult_right_mono) (use r P in \<open>simp_all only: of_int_le_iff less_imp_le\<close>)
  then show "2 powi expo x \<le> fl p x" by (simp only: f lo [symmetric] pi)
  have "(of_int (round_half_even (x / ?P)) :: rat) * ?P \<le> of_int (2 ^ p) * ?P"
    by (rule mult_right_mono) (use r P in \<open>simp_all only: of_int_le_iff less_imp_le\<close>)
  then show "fl p x \<le> 2 powi (expo x + 1)" by (simp only: f hi [symmetric] pi)
qed

lemma fl_mono:
  assumes "0 < p" and "x \<le> y"
  shows "fl p x \<le> fl p y"
proof (cases "0 < x")
  case False
  then show ?thesis using fl_nonneg [of p y] by (simp add: fl_def)
next
  case True
  with assms(2) have y: "0 < y" by simp
  show ?thesis
  proof (cases "expo x = expo y")
    case True
    let ?P = "(2::rat) powi (expo y - int p + 1)"
    have "x / ?P \<le> y / ?P" using assms(2) by (simp add: divide_right_mono)
    then have "(of_int (round_half_even (x / ?P)) :: rat) \<le> of_int (round_half_even (y / ?P))"
      using round_half_even_mono by simp
    then have "of_int (round_half_even (x / ?P)) * ?P \<le> of_int (round_half_even (y / ?P)) * ?P"
      by (rule mult_right_mono) simp
    with True \<open>0 < x\<close> y show ?thesis by (simp add: fl_def Let_def)
  next
    case False
    with expo_mono [OF \<open>0 < x\<close> assms(2)] have "expo x + 1 \<le> expo y" by simp
    then have "(2::rat) powi (expo x + 1) \<le> 2 powi expo y" by (simp only: powi_le_iff)
    with fl_bounds(2) [OF \<open>0 < x\<close> assms(1)] fl_bounds(1) [OF y assms(1)] show ?thesis by linarith
  qed
qed

lemma fl_error:
  assumes "0 < x"
  shows "\<bar>fl p x - x\<bar> \<le> 2 powi (expo x - int p)"
proof -
  let ?P = "(2::rat) powi (expo x - int p + 1)"
  have P: "?P = 2 * 2 powi (expo x - int p)"
    by (simp add: power_int_add)
  have "fl p x - x = (of_int (round_half_even (x / ?P)) - x / ?P) * ?P"
    using assms by (simp add: fl_def Let_def left_diff_distrib)
  then have "\<bar>fl p x - x\<bar> = \<bar>of_int (round_half_even (x / ?P)) - x / ?P\<bar> * ?P"
    by (simp add: abs_mult)
  also have "\<dots> \<le> 1 / 2 * ?P" by (rule mult_right_mono [OF round_half_even_error]) simp
  also have "\<dots> = 2 powi (expo x - int p)" by (simp add: P)
  finally show ?thesis .
qed

lemma fl_rel:
  assumes "0 < x"
  shows "\<bar>fl p x - x\<bar> \<le> x / 2 ^ p"
proof -
  have "\<bar>fl p x - x\<bar> \<le> 2 powi (expo x - int p)" by (rule fl_error [OF assms])
  also have "\<dots> = 2 powi expo x / 2 ^ p" by (simp add: power_int_diff)
  also have "\<dots> \<le> x / 2 ^ p" using expo_bounds [OF assms] by (simp add: divide_right_mono)
  finally show ?thesis .
qed

lemma fl_rel_bounds:
  assumes "0 < x"
  shows "fl p x \<le> x + x / 2 ^ p" and "x - x / 2 ^ p \<le> fl p x"
  using fl_rel [OF assms, of p] by linarith+

lemma fl_of_nat:
  assumes "m < 2 ^ p" and "0 < p"
  shows "fl p (of_nat m) = of_nat m"
proof (cases "m = 0")
  case True
  then show ?thesis by (simp add: fl_def)
next
  case False
  let ?e = "expo (of_nat m) - int p + 1"
  have "(2::rat) powi expo (of_nat m) \<le> of_nat m" using expo_bounds [of "of_nat m"] False by simp
  also have "(of_nat m :: rat) < 2 ^ p" using assms(1) by (metis of_nat_less_iff of_nat_numeral of_nat_power)
  also have "(2::rat) ^ p = 2 powi int p" by simp
  finally have "\<not> (2::rat) powi int p \<le> 2 powi expo (of_nat m)" by (simp only: not_le)
  then have e: "?e \<le> 0" unfolding powi_le_iff by simp
  have "(of_nat m :: rat) / 2 powi ?e = of_nat m * 2 powi (- ?e)"
    by (simp only: power_int_minus divide_inverse)
  also have "\<dots> = of_int (int m * 2 ^ nat (- ?e))"
    using e by (simp add: power_int_def)
  finally have d: "(of_nat m :: rat) / 2 powi ?e = of_int (int m * 2 ^ nat (- ?e))" .
  have "fl p (of_nat m) = of_int (round_half_even (of_nat m / 2 powi ?e)) * 2 powi ?e"
    using False by (simp add: fl_def Let_def)
  also have "\<dots> = of_nat m / 2 powi ?e * 2 powi ?e" by (simp only: d round_half_even_int)
  also have "\<dots> = of_nat m" by simp
  finally show ?thesis .
qed


lemma round_half_even_near:
  assumes "\<bar>x - of_int m\<bar> < 1 / 2"
  shows "round_half_even x = m"
proof -
  have "of_int m - 1 / 2 < x" "x < of_int m + 1 / 2" using assms by linarith+
  then have "\<lfloor>x\<rfloor> = m \<or> \<lfloor>x\<rfloor> = m - 1" by linarith
  then show ?thesis
    using \<open>of_int m - 1 / 2 < x\<close> \<open>x < of_int m + 1 / 2\<close>
    by (auto simp: round_half_even_def Let_def)
qed

text \<open>Evaluation of one rounding from its exponent and its significand.\<close>

lemma fl_eval:
  assumes "2 powi e \<le> x" and "x < 2 powi (e + 1)"
    and "\<bar>x / 2 powi (e - int p + 1) - of_int m\<bar> < 1 / 2"
  shows "fl p x = of_int m * 2 powi (e - int p + 1)"
proof -
  have "(0::rat) < 2 powi e" by simp
  with assms(1) have "0 < x" by linarith
  then show ?thesis
    using expo_unique [OF _ assms(1,2)] round_half_even_near [OF assms(3)] by (simp add: fl_def Let_def)
qed

text \<open>
  A rounded value above a number that the format represents comes from an exact value above it.
\<close>

lemma fl_greater_exact:
  assumes "of_nat m < fl p x" and "m < 2 ^ p" and "0 < p"
  shows "of_nat m < x"
  using fl_mono [OF assms(3), of x "of_nat m"] fl_of_nat [OF assms(2,3)] assms(1)
  by (metis linorder_not_less)

lemma powi_le_powiI: "a \<le> b \<Longrightarrow> (2::rat) powi a \<le> 2 powi b"
  by (simp only: powi_le_iff)

text \<open>
  Dividing an integer of 32 bits by the seconds of a day in \<open>float64\<close> and taking the floor is
  integer division: the rounding error is below \<open>2 ^ -37\<close>, and a quotient that is not an integer
  stays at least \<open>1 / 86400\<close> below the next one.
\<close>

lemma floor_float64_day:
  assumes "n < 2 ^ 32"
  shows "\<lfloor>float64 (of_nat n / 86400)\<rfloor> = int (n div 86400)"
proof -
  let ?q = "n div 86400" and ?x = "of_nat n / 86400 :: rat"
  have "?q * 86400 \<le> n" "n < (?q + 1) * 86400" by simp_all
  then have "of_nat (?q * 86400) \<le> (of_nat n :: rat)" "(of_nat (n + 1) :: rat) \<le> of_nat ((?q + 1) * 86400)"
    by (simp_all only: of_nat_le_iff)
  then have lo: "of_nat ?q \<le> ?x" and hi: "?x \<le> of_nat ?q + 1 - 1 / 86400"
    by (simp_all add: field_simps)
  have "?q \<le> n" by (rule div_le_dividend)
  with assms have "?q < 2 ^ 32" by (rule le_less_trans [rotated])
  then have q: "?q < 2 ^ 53" by simp
  have low: "of_nat ?q \<le> fl 53 ?x"
    using fl_mono [OF _ lo, of 53] fl_of_nat [OF q] by simp
  have high: "fl 53 ?x < of_nat ?q + 1"
  proof (cases "n = 0")
    case True
    then show ?thesis by (simp add: fl_def)
  next
    case False
    then have x: "0 < ?x" by simp
    have "of_nat n \<le> (of_nat (2 ^ 32) :: rat)" using assms by (simp only: of_nat_le_iff less_imp_le)
    then have "?x < 2 powi 16" by (simp add: field_simps)
    with expo_bounds [OF x] have "(2::rat) powi expo ?x < 2 powi 16" by linarith
    then have "\<not> (2::rat) powi 16 \<le> 2 powi expo ?x" by (simp only: not_le)
    then have "expo ?x - int 53 \<le> - 37" unfolding powi_le_iff by simp
    then have "(2::rat) powi (expo ?x - int 53) \<le> 2 powi (- 37)" by (rule powi_le_powiI)
    moreover have "(2::rat) powi (- 37) < 1 / 86400" by simp
    moreover have "fl 53 ?x - ?x \<le> 2 powi (expo ?x - int 53)"
      using fl_error [OF x, of 53] by (simp only: abs_le_iff)
    ultimately show ?thesis using hi by linarith
  qed
  from low high show ?thesis by (simp add: float64_def floor_eq_iff)
qed

end
