(* ===== verification/Traffic.thy ===== *)
theory Traffic
  imports Packets Balancer Go_Float Go_Machine
begin

text \<open>
  \<^verbatim>\<open>traffic/traffic.go\<close>: the goroutine \<open>handlingServer\<close>, which owns all the state of the server
  and handles one message of the channel at a time. \<open>traffic_step\<close> is one iteration of its loop.
  The maps of the Go code are partial functions; \<open>clients\<close> is the set of registered peers (the Go
  map leads to the connection object of a peer, which the model names by its \<open>Id\<close>); a heartbeat's
  cancel function is named by the number of the goroutine it cancels. What a message makes the
  server do is a list of effects. The conversion of a \<open>float32\<close> outside its range to \<open>uint16\<close>
  is left to the implementation by the Go specification: it is the parameter \<open>ovf\<close>.
\<close>

section \<open>Messages, effects and state\<close>

datatype packet =
    PWantHeartbeat WantHeartbeatPacket
  | PCamera IAmCameraPacket
  | PDispatcher IAmDispatcherPacket
  | PPlate PlatePacket

text \<open>\<open>NilPacket\<close> is the nil interface that the reader sends after an unknown opcode.\<close>

datatype tmsg = Connected | Disconnected | Packet packet | NilPacket

datatype out_packet = OutError ErrorPacket | OutTicket TicketPacket | OutHeartbeat

fun wire :: "out_packet \<Rightarrow> bytes" where
  "wire (OutError p) = Marshal_Error p"
| "wire (OutTicket p) = Marshal_Ticket p"
| "wire OutHeartbeat = Marshal_Heartbeat ()"

datatype effect =
    Send peer_id out_packet
  | StartHeartbeat nat peer_id u32
  | CancelHeartbeat nat

record PlateInfo =
  pi_Plate :: string
  pi_Timestamp :: u32
  pi_Road :: u16
  pi_Mile :: u16

record traffic =
  clients :: "peer_id set"
  heartbeats :: "peer_id \<rightharpoonup> nat"
  hb_next :: nat
  cameras :: "peer_id \<rightharpoonup> IAmCameraPacket"
  plateReadings :: "string \<rightharpoonup> PlateInfo list"
  dispatchers :: "peer_id \<rightharpoonup> IAmDispatcherPacket"
  road_dispatchers :: "u16 \<rightharpoonup> peer_id balancer"
  tickets :: "u16 \<rightharpoonup> TicketPacket list"
  dayPlates :: "int \<rightharpoonup> string set"

definition traffic_init :: traffic where
  "traffic_init = \<lparr>clients = {}, heartbeats = Map.empty, hb_next = 0, cameras = Map.empty,
     plateReadings = Map.empty, dispatchers = Map.empty, road_dispatchers = Map.empty,
     tickets = Map.empty, dayPlates = Map.empty\<rparr>"

definition write_error :: "peer_id \<Rightarrow> string \<Rightarrow> effect" where
  "write_error c msg = Send c (OutError \<lparr>err_Message = msg\<rparr>)"

definition sendTicket :: "peer_id \<Rightarrow> TicketPacket \<Rightarrow> effect" where
  "sendTicket c ticket = Send c (OutTicket ticket)"

section \<open>Heartbeats, cameras and dispatchers\<close>

definition handle_WantHeartbeat ::
  "traffic \<Rightarrow> peer_id \<Rightarrow> WantHeartbeatPacket \<Rightarrow> traffic \<times> effect list" where
  "handle_WantHeartbeat s c p =
     (let (s1, os) =
        (case heartbeats s c of
           Some cancel \<Rightarrow> (s\<lparr>heartbeats := (heartbeats s)(c := None)\<rparr>, [CancelHeartbeat cancel])
         | None \<Rightarrow> (s, []))
      in if wh_Interval p = 0 then (s1, os)
         else (s1\<lparr>heartbeats := (heartbeats s1)(c \<mapsto> hb_next s1), hb_next := hb_next s1 + 1\<rparr>,
               os @ [StartHeartbeat (hb_next s1) c (wh_Interval p)]))"

definition handle_IAmCamera ::
  "traffic \<Rightarrow> peer_id \<Rightarrow> IAmCameraPacket \<Rightarrow> traffic \<times> effect list" where
  "handle_IAmCamera s c p =
     (if cameras s c \<noteq> None then (s, [write_error c ''you already are a camera''])
      else if dispatchers s c \<noteq> None then (s, [write_error c ''you already are a dispatcher''])
      else (s\<lparr>cameras := (cameras s)(c \<mapsto> p)\<rparr>, []))"

text \<open>The body of the loop over the roads of a new dispatcher, and the loop.\<close>

definition register_road :: "peer_id \<Rightarrow> u16 \<Rightarrow> traffic \<Rightarrow> traffic \<times> effect list" where
  "register_road c road s =
     (let balancer = (case road_dispatchers s road of None \<Rightarrow> NewBalancer | Some b \<Rightarrow> b);
          s1 = s\<lparr>road_dispatchers := (road_dispatchers s)(road \<mapsto> Add balancer c)\<rparr>;
          t = lookup_list (tickets s1) road
      in if length t = 0 then (s1, [])
         else (s1\<lparr>tickets := (tickets s1)(road \<mapsto> [])\<rparr>, map (sendTicket c) t))"

fun register_roads :: "peer_id \<Rightarrow> u16 list \<Rightarrow> traffic \<Rightarrow> traffic \<times> effect list" where
  "register_roads c [] s = (s, [])"
| "register_roads c (road # roads) s =
     (case register_road c road s of
        (s1, os1) \<Rightarrow> (case register_roads c roads s1 of (s2, os2) \<Rightarrow> (s2, os1 @ os2)))"

definition handle_IAmDispatcher ::
  "traffic \<Rightarrow> peer_id \<Rightarrow> IAmDispatcherPacket \<Rightarrow> traffic \<times> effect list" where
  "handle_IAmDispatcher s c p =
     (if dispatchers s c \<noteq> None then (s, [write_error c ''you already are a dispatcher''])
      else if cameras s c \<noteq> None then (s, [write_error c ''you already are a camera''])
      else register_roads c (disp_Roads p) (s\<lparr>dispatchers := (dispatchers s)(c \<mapsto> p)\<rparr>))"

section \<open>Plates\<close>

text \<open>\<open>int(math.Floor(float64(p.Timestamp) / 86400))\<close>\<close>

definition day_of :: "u32 \<Rightarrow> int" where
  "day_of timestamp = \<lfloor>float64 (of_nat (unat timestamp) / 86400)\<rfloor>"

definition ticketed :: "(int \<rightharpoonup> string set) \<Rightarrow> int \<Rightarrow> string \<Rightarrow> bool" where
  "ticketed dp day plate = (case dp day of None \<Rightarrow> False | Some plates \<Rightarrow> plate \<in> plates)"

definition uint16_of_float :: "(rat \<Rightarrow> u16) \<Rightarrow> rat \<Rightarrow> u16" where
  "uint16_of_float ovf x = (if x < 65536 then word_of_int \<lfloor>x\<rfloor> else ovf x)"

text \<open>
  The computation of \<open>distance\<close>, \<open>timeDiff\<close> and \<open>speed\<close>, at the widths of the code.
\<close>

definition distance_of :: "PlateInfo \<Rightarrow> PlateInfo \<Rightarrow> u32" where
  "distance_of prev current =
     (if pi_Mile prev < pi_Mile current then ucast (pi_Mile current - pi_Mile prev)
      else ucast (pi_Mile prev - pi_Mile current))"

definition speed_of :: "u32 \<Rightarrow> u32 \<Rightarrow> rat" where
  "speed_of distance timeDiff =
     float32 (float32 (of_nat (unat (distance * 3600))) / float32 (of_nat (unat timeDiff)))"

text \<open>
  One iteration of the loop over the earlier sightings: the ticket for this pair, with the first
  and the last day it covers and the road whose dispatchers get it, or \<^const>\<open>None\<close> where the
  code continues with the next sighting.
\<close>

definition check_pair ::
  "(rat \<Rightarrow> u16) \<Rightarrow> (int \<rightharpoonup> string set) \<Rightarrow> IAmCameraPacket \<Rightarrow> PlateInfo \<Rightarrow> PlateInfo \<Rightarrow>
   (TicketPacket \<times> int \<times> int \<times> u16) option" where
  "check_pair ovf dp camera plateInfo loopPacket =
     (let newPacketDay = day_of (pi_Timestamp plateInfo);
          loopPacketDay = day_of (pi_Timestamp loopPacket);
          (current, prev, prevDay, currentDay) =
            (if pi_Timestamp loopPacket < pi_Timestamp plateInfo
             then (plateInfo, loopPacket, loopPacketDay, newPacketDay)
             else (loopPacket, plateInfo, newPacketDay, loopPacketDay))
      in if list_ex (\<lambda>i. ticketed dp i (pi_Plate current)) [prevDay..currentDay] then None
         else if pi_Road prev \<noteq> pi_Road current then None
         else let distance = distance_of prev current in
           if distance \<le> 0 then None
           else let timeDiff = pi_Timestamp current - pi_Timestamp prev in
             if timeDiff \<le> 0 then None
             else let speed = speed_of distance timeDiff in
               if speed > float32 (of_nat (unat (cam_Limit camera)))
               then Some (\<lparr>t_Plate = pi_Plate current, t_Road = cam_Road camera,
                           t_Mile1 = pi_Mile prev, t_Timestamp1 = pi_Timestamp prev,
                           t_Mile2 = pi_Mile current, t_Timestamp2 = pi_Timestamp current,
                           t_Speed = uint16_of_float ovf (float32 (speed * 100))\<rparr>,
                          prevDay, currentDay, pi_Road current)
               else None)"

fun scan_sightings ::
  "(rat \<Rightarrow> u16) \<Rightarrow> (int \<rightharpoonup> string set) \<Rightarrow> IAmCameraPacket \<Rightarrow> PlateInfo \<Rightarrow> PlateInfo list \<Rightarrow>
   (TicketPacket \<times> int \<times> int \<times> u16) option" where
  "scan_sightings ovf dp camera plateInfo [] = None"
| "scan_sightings ovf dp camera plateInfo (p # ps) =
     (case check_pair ovf dp camera plateInfo p of
        Some r \<Rightarrow> Some r
      | None \<Rightarrow> scan_sightings ovf dp camera plateInfo ps)"

text \<open>\<open>dayPlates[j][current.Plate] = struct{}{}\<close> for the days of the ticket.\<close>

fun mark_days :: "(int \<rightharpoonup> string set) \<Rightarrow> string \<Rightarrow> int list \<Rightarrow> (int \<rightharpoonup> string set)" where
  "mark_days dp plate [] = dp"
| "mark_days dp plate (j # js) =
     mark_days (dp(j \<mapsto> insert plate (case dp j of None \<Rightarrow> {} | Some plates \<Rightarrow> plates))) plate js"

text \<open>
  Handing a ticket over: to the next dispatcher of the road, or into the queue of the road. The
  lookup \<open>clients[dispatcher]\<close> gives nil for a peer that is not registered, and writing to it
  panics.
\<close>

definition dispatch_ticket ::
  "traffic \<Rightarrow> u16 \<Rightarrow> TicketPacket \<Rightarrow> go_panic + traffic \<times> effect list" where
  "dispatch_ticket s road ticket =
     (let queue = s\<lparr>tickets := (tickets s)(road \<mapsto> lookup_list (tickets s) road @ [ticket])\<rparr>
      in case road_dispatchers s road of
           None \<Rightarrow> Inr (queue, [])
         | Some rd \<Rightarrow>
             (case Get rd of
                Inl p \<Rightarrow> Inl p
              | Inr (None, rd') \<Rightarrow> Inr (queue, [])
              | Inr (Some dispatcher, rd') \<Rightarrow>
                  (if dispatcher \<in> clients s
                   then Inr (s\<lparr>road_dispatchers := (road_dispatchers s)(road \<mapsto> rd')\<rparr>,
                             [sendTicket dispatcher ticket])
                   else Inl NilDereference)))"

text \<open>
  The loop that removes the readings of ticketed days. It removes at \<open>i\<close> and then increments \<open>i\<close>.
\<close>

function clean_readings :: "(int \<rightharpoonup> string set) \<Rightarrow> nat \<Rightarrow> PlateInfo list \<Rightarrow> PlateInfo list" where
  "clean_readings dp i readings =
     (if i < length readings
      then (if ticketed dp (day_of (pi_Timestamp (readings ! i))) (pi_Plate (readings ! i))
            then clean_readings dp (Suc i) (remove_at i readings)
            else clean_readings dp (Suc i) readings)
      else readings)"
  by pat_completeness auto
termination
  by (relation "measure (\<lambda>(dp, i, readings). length readings - i)") auto

declare clean_readings.simps [simp del]

definition clean_plate :: "traffic \<Rightarrow> string \<Rightarrow> traffic" where
  "clean_plate s plate =
     s\<lparr>plateReadings := (plateReadings s)
         (plate \<mapsto> clean_readings (dayPlates s) 0 (lookup_list (plateReadings s) plate))\<rparr>"

definition add_reading :: "traffic \<Rightarrow> PlateInfo \<Rightarrow> traffic" where
  "add_reading s plateInfo =
     s\<lparr>plateReadings := (plateReadings s)
         (pi_Plate plateInfo \<mapsto> lookup_list (plateReadings s) (pi_Plate plateInfo) @ [plateInfo])\<rparr>"

text \<open>The branch \<open>ISSUE TICKET\<close>: the days are marked, then the ticket is handed over.\<close>

definition issue_ticket ::
  "traffic \<Rightarrow> TicketPacket \<times> int \<times> int \<times> u16 \<Rightarrow> go_panic + traffic \<times> effect list" where
  "issue_ticket s r =
     (case r of (ticket, prevDay, currentDay, road) \<Rightarrow>
        dispatch_ticket
          (s\<lparr>dayPlates := mark_days (dayPlates s) (t_Plate ticket) [prevDay..currentDay]\<rparr>)
          road ticket)"

definition handle_Plate ::
  "(rat \<Rightarrow> u16) \<Rightarrow> traffic \<Rightarrow> peer_id \<Rightarrow> PlatePacket \<Rightarrow> go_panic + traffic \<times> effect list" where
  "handle_Plate ovf s c p =
     (case cameras s c of
        None \<Rightarrow> Inr (s, [write_error c ''you must be a camera to send plates''])
      | Some camera \<Rightarrow>
          (let newPacketDay = day_of (plate_Timestamp p)
           in if ticketed (dayPlates s) newPacketDay (plate_Plate p) then Inr (s, [])
              else
                (let plateInfo = \<lparr>pi_Plate = plate_Plate p, pi_Timestamp = plate_Timestamp p,
                       pi_Road = cam_Road camera, pi_Mile = cam_Mile camera\<rparr>;
                     s1 = add_reading s plateInfo;
                     sightings = lookup_list (plateReadings s1) (plate_Plate p)
                 in if length sightings < 2 then Inr (s1, [])
                    else
                      (case scan_sightings ovf (dayPlates s1) camera plateInfo (butlast sightings) of
                         None \<Rightarrow> Inr (clean_plate s1 (plate_Plate p), [])
                       | Some r \<Rightarrow>
                           (case issue_ticket s1 r of
                              Inl e \<Rightarrow> Inl e
                            | Inr (s2, os) \<Rightarrow> Inr (clean_plate s2 (plate_Plate p), os))))))"

section \<open>Connections, and one iteration of the loop\<close>

definition remove_dispatcher :: "peer_id \<Rightarrow> (u16 \<rightharpoonup> peer_id balancer) \<Rightarrow> (u16 \<rightharpoonup> peer_id balancer)" where
  "remove_dispatcher c rds =
     (\<lambda>road. case rds road of
        None \<Rightarrow> None
      | Some b \<Rightarrow> (let b' = Remove b c in if Len b' = 0 then None else Some b'))"

definition handle_disconnected :: "traffic \<Rightarrow> peer_id \<Rightarrow> traffic" where
  "handle_disconnected s c =
     (let s1 = s\<lparr>cameras := (cameras s)(c := None)\<rparr>;
          s2 = (if dispatchers s1 c \<noteq> None
                then s1\<lparr>dispatchers := (dispatchers s1)(c := None),
                        road_dispatchers := remove_dispatcher c (road_dispatchers s1)\<rparr>
                else s1)
      in s2\<lparr>heartbeats := (heartbeats s2)(c := None)\<rparr>)"

fun traffic_step :: "(rat \<Rightarrow> u16) \<Rightarrow> (traffic, peer_id \<times> tmsg, effect) handler" where
  "traffic_step ovf s (c, Packet (PWantHeartbeat p)) = Inr (handle_WantHeartbeat s c p)"
| "traffic_step ovf s (c, Packet (PCamera p)) = Inr (handle_IAmCamera s c p)"
| "traffic_step ovf s (c, Packet (PDispatcher p)) = Inr (handle_IAmDispatcher s c p)"
| "traffic_step ovf s (c, Packet (PPlate p)) = handle_Plate ovf s c p"
| "traffic_step ovf s (c, Connected) = Inr (s\<lparr>clients := insert c (clients s)\<rparr>, [])"
| "traffic_step ovf s (c, Disconnected) = Inr (handle_disconnected s c, [])"
| "traffic_step ovf s (c, NilPacket) = Inr (s, [])"

lemmas traffic_defs = handle_WantHeartbeat_def handle_IAmCamera_def handle_IAmDispatcher_def
  handle_Plate_def handle_disconnected_def write_error_def sendTicket_def

end
