(* ===== verification/Traffic_Inv.thy ===== *)
theory Traffic_Inv
  imports Traffic
begin

text \<open>
  What one message does to the state of the traffic server: the days of a plate, the balancers of
  the roads, the queues of tickets, and the invariant that every message keeps.
\<close>

section \<open>Days\<close>

lemma day_of_div: "day_of ts = int (unat ts div 86400)"
proof -
  have "unat ts < 2 ^ 32" using unsigned_less [of ts] by simp
  then show ?thesis by (simp only: day_of_def floor_float64_day)
qed

lemma day_of_mono: "ts \<le> ts' \<Longrightarrow> day_of ts \<le> day_of ts'"
  by (simp add: day_of_div word_le_nat_alt div_le_mono zdiv_int [symmetric])

lemma ticketed_upd:
  "ticketed (dp(j \<mapsto> ps)) d plate \<longleftrightarrow> (if d = j then plate \<in> ps else ticketed dp d plate)"
  by (simp add: ticketed_def)

lemma ticketed_insert:
  "ticketed (dp(j \<mapsto> insert p (case dp j of None \<Rightarrow> {} | Some ps \<Rightarrow> ps))) d x
     \<longleftrightarrow> ticketed dp d x \<or> (d = j \<and> x = p)"
  by (cases "dp j") (auto simp: ticketed_def)

lemma ticketed_mark_days:
  "ticketed (mark_days dp plate js) d x \<longleftrightarrow> ticketed dp d x \<or> (d \<in> set js \<and> x = plate)"
proof (induction js arbitrary: dp)
  case Nil
  then show ?case by simp
next
  case (Cons j js)
  show ?case by (simp only: mark_days.simps Cons.IH ticketed_insert) auto
qed

section \<open>The roads of the dispatchers\<close>

definition road_members :: "(u16 \<rightharpoonup> peer_id balancer) \<Rightarrow> u16 \<Rightarrow> peer_id set" where
  "road_members rds r = (case rds r of None \<Rightarrow> {} | Some b \<Rightarrow> balancer_members b)"

definition balancers_ok :: "peer_id set \<Rightarrow> (u16 \<rightharpoonup> peer_id balancer) \<Rightarrow> bool" where
  "balancers_ok cl rds \<longleftrightarrow> (\<forall>r b. rds r = Some b \<longrightarrow>
     balancer_ok b \<and> balancer_members b \<noteq> {} \<and> balancer_members b \<subseteq> cl)"

definition roads_of :: "(peer_id \<rightharpoonup> IAmDispatcherPacket) \<Rightarrow> u16 \<Rightarrow> peer_id set" where
  "roads_of ds r = {c. \<exists>p. ds c = Some p \<and> r \<in> set (disp_Roads p)}"

lemma balancers_ok_upd:
  "balancers_ok cl rds \<Longrightarrow> balancer_ok b \<Longrightarrow> balancer_members b \<noteq> {} \<Longrightarrow> balancer_members b \<subseteq> cl \<Longrightarrow>
     balancers_ok cl (rds(r \<mapsto> b))"
  by (simp add: balancers_ok_def)

lemma balancers_okD:
  "balancers_ok cl rds \<Longrightarrow> rds r = Some b \<Longrightarrow>
     balancer_ok b \<and> balancer_members b \<noteq> {} \<and> balancer_members b \<subseteq> cl"
  by (simp add: balancers_ok_def)

lemma road_members_upd [simp]:
  "road_members (rds(r \<mapsto> b)) r' = (if r' = r then balancer_members b else road_members rds r')"
  by (simp add: road_members_def)

lemma road_members_empty_iff: "balancers_ok cl rds \<Longrightarrow> road_members rds r = {} \<longleftrightarrow> rds r = None"
  by (auto simp: road_members_def dest: balancers_okD split: option.splits)

text \<open>Adding a peer to the balancer of a road, which is created when there is none.\<close>

lemma add_to_road:
  assumes "balancers_ok cl rds" and "c \<in> cl"
  shows "balancers_ok cl (rds(r \<mapsto> Add (case rds r of None \<Rightarrow> NewBalancer | Some b \<Rightarrow> b) c))"
    and "balancer_members (Add (case rds r of None \<Rightarrow> NewBalancer | Some b \<Rightarrow> b) c)
      = insert c (road_members rds r)"
proof -
  let ?b = "case rds r of None \<Rightarrow> NewBalancer | Some b \<Rightarrow> b"
  have ok: "balancer_ok ?b" and sub: "balancer_members ?b \<subseteq> cl" and
    m: "balancer_members ?b = road_members rds r"
    using balancers_okD [OF assms(1)]
    by (auto simp: bal.ok_new bal.members_new road_members_def split: option.splits)
  show "balancer_members (Add ?b c) = insert c (road_members rds r)"
    by (simp add: bal.members_add [OF ok] m)
  then show "balancers_ok cl (rds(r \<mapsto> Add ?b c))"
    using balancers_ok_upd [OF assms(1) bal.ok_add [OF ok]] sub m assms(2) by auto
qed

lemma remove_dispatcher_ok:
  assumes "balancers_ok cl rds"
  shows "balancers_ok cl (remove_dispatcher c rds)"
    and "road_members (remove_dispatcher c rds) r = road_members rds r - {c}"
proof -
  have *: "remove_dispatcher c rds r = Some b \<Longrightarrow> \<exists>b0. rds r = Some b0 \<and> b = Remove b0 c
      \<and> balancer_ok b \<and> balancer_members b = balancer_members b0 - {c} \<and> balancer_members b \<noteq> {}"
    for r b
  proof -
    assume r: "remove_dispatcher c rds r = Some b"
    then obtain b0 where b0: "rds r = Some b0" and b: "b = Remove b0 c" and l: "Len b \<noteq> 0"
      by (auto simp: remove_dispatcher_def Let_def split: option.splits if_splits)
    have "balancer_ok b0" using balancers_okD [OF assms b0] by blast
    with b0 b l bal.len_zero_iff [of b] show ?thesis
      by (simp add: bal.ok_remove bal.members_remove)
  qed
  show "balancers_ok cl (remove_dispatcher c rds)"
    unfolding balancers_ok_def
  proof (intro allI impI)
    fix r b
    assume "remove_dispatcher c rds r = Some b"
    from * [OF this] obtain b0 where b0: "rds r = Some b0" and b: "balancer_ok b"
      "balancer_members b = balancer_members b0 - {c}" "balancer_members b \<noteq> {}" by blast
    have "balancer_members b0 \<subseteq> cl" using balancers_okD [OF assms b0] by blast
    with b show "balancer_ok b \<and> balancer_members b \<noteq> {} \<and> balancer_members b \<subseteq> cl" by blast
  qed
  show "road_members (remove_dispatcher c rds) r = road_members rds r - {c}"
  proof (cases "rds r")
    case None
    then show ?thesis by (simp add: road_members_def remove_dispatcher_def)
  next
    case (Some b)
    then have ok: "balancer_ok b" using balancers_okD [OF assms] by blast
    with Some show ?thesis
      using bal.members_remove [OF ok, of c] bal.len_zero_iff [OF bal.ok_remove [OF ok], of c]
      by (simp add: road_members_def remove_dispatcher_def Let_def)
  qed
qed

text \<open>The registration loop of a dispatcher: what it keeps, and what one road changes.\<close>

definition same_but_roads :: "traffic \<Rightarrow> traffic \<Rightarrow> bool" where
  "same_but_roads s t \<longleftrightarrow> clients t = clients s \<and> heartbeats t = heartbeats s \<and> hb_next t = hb_next s
     \<and> cameras t = cameras s \<and> plateReadings t = plateReadings s \<and> dispatchers t = dispatchers s
     \<and> dayPlates t = dayPlates s"

lemma register_road_spec:
  assumes "register_road c road s = (t, os)"
    and "balancers_ok (clients s) (road_dispatchers s)" and "c \<in> clients s"
  shows "same_but_roads s t" and "balancers_ok (clients t) (road_dispatchers t)"
    and "road_members (road_dispatchers t) r
      = road_members (road_dispatchers s) r \<union> (if r = road then {c} else {})"
    and "lookup_list (tickets t) r = (if r = road then [] else lookup_list (tickets s) r)"
    and "os = map (sendTicket c) (lookup_list (tickets s) road)"
proof -
  let ?b = "Add (case road_dispatchers s road of None \<Rightarrow> NewBalancer | Some b \<Rightarrow> b) c"
  have rd: "road_dispatchers t = (road_dispatchers s)(road \<mapsto> ?b)"
    and f: "same_but_roads s t"
    using assms(1) by (auto simp: register_road_def Let_def same_but_roads_def split: if_splits)
  then show "same_but_roads s t" by simp
  show "balancers_ok (clients t) (road_dispatchers t)"
    using add_to_road(1) [OF assms(2,3)] f by (simp only: rd same_but_roads_def)
  show "road_members (road_dispatchers t) r
      = road_members (road_dispatchers s) r \<union> (if r = road then {c} else {})"
    by (simp add: rd add_to_road(2) [OF assms(2,3)])
  show "lookup_list (tickets t) r = (if r = road then [] else lookup_list (tickets s) r)"
    using assms(1) by (auto simp: register_road_def Let_def split: if_splits)
  show "os = map (sendTicket c) (lookup_list (tickets s) road)"
    using assms(1) by (auto simp: register_road_def Let_def split: if_splits)
qed

lemma register_roads_spec:
  assumes "register_roads c roads s = (t, os)"
    and "balancers_ok (clients s) (road_dispatchers s)" and "c \<in> clients s"
  shows "same_but_roads s t \<and> balancers_ok (clients t) (road_dispatchers t)
    \<and> (\<forall>r. road_members (road_dispatchers t) r
          = road_members (road_dispatchers s) r \<union> (if r \<in> set roads then {c} else {}))
    \<and> (\<forall>r. lookup_list (tickets t) r = (if r \<in> set roads then [] else lookup_list (tickets s) r))"
  using assms
proof (induction roads arbitrary: s os)
  case Nil
  then show ?case by (simp add: same_but_roads_def)
next
  case (Cons road roads)
  from Cons.prems(1) obtain s1 os1 os2 where r: "register_road c road s = (s1, os1)"
    and rs: "register_roads c roads s1 = (t, os2)" by (auto split: prod.splits)
  note one = register_road_spec [OF r Cons.prems(2,3)]
  have "c \<in> clients s1" using one(1) Cons.prems(3) by (simp add: same_but_roads_def)
  from Cons.IH [OF rs one(2) this] one(1,3,4) show ?case
    by (auto simp: same_but_roads_def)
qed
section \<open>Tickets\<close>

text \<open>The days a ticket covers, and tickets that may not both be issued.\<close>

definition covers :: "TicketPacket \<Rightarrow> int \<Rightarrow> bool" where
  "covers t d \<longleftrightarrow> day_of (t_Timestamp1 t) \<le> d \<and> d \<le> day_of (t_Timestamp2 t)"

definition clash :: "TicketPacket \<Rightarrow> TicketPacket \<Rightarrow> bool" where
  "clash t u \<longleftrightarrow> t_Plate t = t_Plate u \<and> (\<exists>d. covers t d \<and> covers u d)"

lemma clash_sym: "clash t u \<longleftrightarrow> clash u t"
  by (auto simp: clash_def)

definition marked :: "(int \<rightharpoonup> string set) \<Rightarrow> TicketPacket \<Rightarrow> bool" where
  "marked dp t \<longleftrightarrow> (\<forall>d. covers t d \<longrightarrow> ticketed dp d (t_Plate t))"

definition unmarked :: "(int \<rightharpoonup> string set) \<Rightarrow> TicketPacket \<Rightarrow> bool" where
  "unmarked dp t \<longleftrightarrow> (\<forall>d. covers t d \<longrightarrow> \<not> ticketed dp d (t_Plate t))"

lemma marked_unmarked_no_clash: "marked dp t \<Longrightarrow> unmarked dp u \<Longrightarrow> \<not> clash t u"
  by (auto simp: marked_def unmarked_def clash_def)

lemma marked_mono: "marked dp t \<Longrightarrow> marked (mark_days dp plate js) t"
  by (simp add: marked_def ticketed_mark_days)

lemma marked_own_days:
  "marked (mark_days dp (t_Plate t) [day_of (t_Timestamp1 t)..day_of (t_Timestamp2 t)]) t"
  by (simp add: marked_def ticketed_mark_days covers_def)

text \<open>
  What a pair of sightings has in common with the ticket it leads to. \<open>obs\<close> is a sighting as the
  ticket reports it.
\<close>

definition obs1 :: "TicketPacket \<Rightarrow> PlateInfo" where
  "obs1 t = \<lparr>pi_Plate = t_Plate t, pi_Timestamp = t_Timestamp1 t, pi_Road = t_Road t, pi_Mile = t_Mile1 t\<rparr>"

definition obs2 :: "TicketPacket \<Rightarrow> PlateInfo" where
  "obs2 t = \<lparr>pi_Plate = t_Plate t, pi_Timestamp = t_Timestamp2 t, pi_Road = t_Road t, pi_Mile = t_Mile2 t\<rparr>"

definition over_limit :: "u16 \<Rightarrow> PlateInfo \<Rightarrow> PlateInfo \<Rightarrow> bool" where
  "over_limit limit p c \<longleftrightarrow> distance_of p c \<noteq> 0
     \<and> speed_of (distance_of p c) (pi_Timestamp c - pi_Timestamp p) > float32 (of_nat (unat limit))"

definition in_order :: "PlateInfo \<Rightarrow> PlateInfo \<Rightarrow> PlateInfo \<times> PlateInfo" where
  "in_order new old = (if pi_Timestamp old < pi_Timestamp new then (old, new) else (new, old))"

definition ticket_for :: "(rat \<Rightarrow> u16) \<Rightarrow> u16 \<Rightarrow> PlateInfo \<Rightarrow> PlateInfo \<Rightarrow> TicketPacket" where
  "ticket_for ovf road p c = \<lparr>t_Plate = pi_Plate c, t_Road = road, t_Mile1 = pi_Mile p,
     t_Timestamp1 = pi_Timestamp p, t_Mile2 = pi_Mile c, t_Timestamp2 = pi_Timestamp c,
     t_Speed = uint16_of_float ovf
       (float32 (speed_of (distance_of p c) (pi_Timestamp c - pi_Timestamp p) * 100))\<rparr>"

text \<open>The decision for one pair, as a condition on the two sightings in the order of their times.\<close>

lemma check_pair_cases:
  assumes "in_order new old = (p, c)"
  shows "check_pair ovf dp camera new old =
    (if (\<forall>d. day_of (pi_Timestamp p) \<le> d \<longrightarrow> d \<le> day_of (pi_Timestamp c) \<longrightarrow> \<not> ticketed dp d (pi_Plate c))
        \<and> pi_Road p = pi_Road c \<and> pi_Timestamp p \<noteq> pi_Timestamp c
        \<and> over_limit (cam_Limit camera) p c
     then Some (ticket_for ovf (cam_Road camera) p c, day_of (pi_Timestamp p), day_of (pi_Timestamp c), pi_Road c)
     else None)"
proof -
  have e: "list_ex (\<lambda>i. ticketed dp i pl) [a..b] \<longleftrightarrow> (\<exists>d. a \<le> d \<and> d \<le> b \<and> ticketed dp d pl)" for pl a b
    by (auto simp: list_ex_iff)
  have z: "pi_Timestamp c - pi_Timestamp p = 0 \<longleftrightarrow> pi_Timestamp p = pi_Timestamp c" by auto
  show ?thesis
  proof (cases "pi_Timestamp old < pi_Timestamp new")
    case True
    with assms have "p = old" "c = new" by (simp_all add: in_order_def)
    with True z show ?thesis
      by (auto simp: check_pair_def Let_def e over_limit_def ticket_for_def)
  next
    case False
    with assms have "p = new" "c = old" by (simp_all add: in_order_def)
    with False z show ?thesis
      by (auto simp: check_pair_def Let_def e over_limit_def ticket_for_def)
  qed
qed

lemma in_order_cases: "in_order new old = (p, c) \<Longrightarrow> (p = old \<and> c = new) \<or> (p = new \<and> c = old)"
  by (auto simp: in_order_def split: if_splits)

lemma in_order_le: "in_order new old = (p, c) \<Longrightarrow> pi_Timestamp p \<le> pi_Timestamp c"
  by (auto simp: in_order_def split: if_splits)

lemma check_pair_Some:
  assumes "check_pair ovf dp camera new old = Some (t, d1, d2, road)"
    and "pi_Plate old = pi_Plate new" and "pi_Road new = cam_Road camera"
  shows "t_Plate t = pi_Plate new \<and> d1 = day_of (t_Timestamp1 t) \<and> d2 = day_of (t_Timestamp2 t)
    \<and> unmarked dp t \<and> t_Timestamp1 t < t_Timestamp2 t \<and> road = cam_Road camera \<and> t_Road t = road
    \<and> {obs1 t, obs2 t} = {new, old} \<and> over_limit (cam_Limit camera) (obs1 t) (obs2 t)"
proof -
  obtain p c where pc: "in_order new old = (p, c)" by fastforce
  from check_pair_cases [OF pc, of ovf dp camera] assms(1)
  have days: "\<forall>d. day_of (pi_Timestamp p) \<le> d \<longrightarrow> d \<le> day_of (pi_Timestamp c) \<longrightarrow> \<not> ticketed dp d (pi_Plate c)"
    and road: "pi_Road p = pi_Road c" and ts: "pi_Timestamp p \<noteq> pi_Timestamp c"
    and over: "over_limit (cam_Limit camera) p c"
    and t: "t = ticket_for ovf (cam_Road camera) p c"
    and r: "d1 = day_of (pi_Timestamp p)" "d2 = day_of (pi_Timestamp c)" "road = pi_Road c"
    by (auto split: if_splits)
  have pl: "pi_Plate p = pi_Plate c" "pi_Plate c = pi_Plate new" "pi_Road c = cam_Road camera"
    using in_order_cases [OF pc] assms(2,3) road by auto
  then have o: "obs1 t = p" "obs2 t = c"
    using road by (auto simp: t obs1_def obs2_def ticket_for_def)
  then have "{obs1 t, obs2 t} = {new, old}" using in_order_cases [OF pc] by auto
  moreover have "pi_Timestamp p < pi_Timestamp c" using in_order_le [OF pc] ts by simp
  ultimately show ?thesis
    using days over pl r o by (simp add: t ticket_for_def unmarked_def covers_def)
qed

lemma scan_sightings_Some:
  "scan_sightings ovf dp camera new ps = Some r \<Longrightarrow> \<exists>old \<in> set ps. check_pair ovf dp camera new old = Some r"
  by (induction ps) (auto split: option.splits)

lemma scan_sightings_None:
  "scan_sightings ovf dp camera new ps = None \<longleftrightarrow> (\<forall>old \<in> set ps. check_pair ovf dp camera new old = None)"
  by (induction ps) (auto split: option.splits)

section \<open>Cleaning\<close>

lemma set_clean_readings: "set (clean_readings dp i rs) \<subseteq> set rs"
proof (induction dp i rs rule: clean_readings.induct)
  case (1 dp i rs)
  show ?case
    by (subst clean_readings.simps) (use 1 set_remove_at_subset [of i rs] in auto)
qed
section \<open>The invariant\<close>

abbreviation queue :: "traffic \<Rightarrow> u16 \<Rightarrow> TicketPacket list" where
  "queue s r \<equiv> lookup_list (tickets s) r"

abbreviation members_on :: "traffic \<Rightarrow> u16 \<Rightarrow> peer_id set" where
  "members_on s r \<equiv> road_members (road_dispatchers s) r"

definition roads_inv :: "traffic \<Rightarrow> bool" where
  "roads_inv s \<longleftrightarrow> balancers_ok (clients s) (road_dispatchers s)
     \<and> (\<forall>r. members_on s r = roads_of (dispatchers s) r)
     \<and> (\<forall>r. queue s r \<noteq> [] \<longrightarrow> members_on s r = {})
     \<and> (\<forall>r. \<forall>t \<in> set (queue s r). t_Road t = r)"

definition roles_inv :: "traffic \<Rightarrow> bool" where
  "roles_inv s \<longleftrightarrow> dom (cameras s) \<inter> dom (dispatchers s) = {}
     \<and> dom (cameras s) \<subseteq> clients s \<and> dom (dispatchers s) \<subseteq> clients s"

definition readings_inv :: "traffic \<Rightarrow> bool" where
  "readings_inv s \<longleftrightarrow> (\<forall>k. \<forall>x \<in> set (lookup_list (plateReadings s) k). pi_Plate x = k)"

definition heartbeats_inv :: "traffic \<Rightarrow> bool" where
  "heartbeats_inv s \<longleftrightarrow> (\<forall>c n. heartbeats s c = Some n \<longrightarrow> n < hb_next s)
     \<and> (\<forall>c d n. heartbeats s c = Some n \<longrightarrow> heartbeats s d = Some n \<longrightarrow> c = d)"

definition traffic_inv :: "traffic \<Rightarrow> bool" where
  "traffic_inv s \<longleftrightarrow> roads_inv s \<and> roles_inv s \<and> readings_inv s \<and> heartbeats_inv s"

lemmas traffic_inv_defs = traffic_inv_def roads_inv_def roles_inv_def readings_inv_def heartbeats_inv_def

lemma traffic_inv_init: "traffic_inv traffic_init"
  by (simp add: traffic_inv_defs traffic_init_def balancers_ok_def road_members_def roads_of_def)

text \<open>A peer sends packets after it has connected; its connection is announced first.\<close>

fun traffic_enabled :: "traffic \<Rightarrow> peer_id \<times> tmsg \<Rightarrow> bool" where
  "traffic_enabled s (c, Connected) = True"
| "traffic_enabled s (c, m) = (c \<in> clients s)"

section \<open>Every message keeps it\<close>

lemma roads_of_upd:
  "ds c = None \<Longrightarrow> roads_of (ds(c \<mapsto> p)) r = roads_of ds r \<union> (if r \<in> set (disp_Roads p) then {c} else {})"
  by (auto simp: roads_of_def)

lemma roads_of_del: "roads_of (ds(c := None)) r = roads_of ds r - {c}"
  by (auto simp: roads_of_def)

lemma inv_WantHeartbeat:
  assumes "traffic_inv s"
  shows "traffic_inv (fst (handle_WantHeartbeat s c p))"
proof -
  let ?t = "fst (handle_WantHeartbeat s c p)"
  have same: "clients ?t = clients s" "road_dispatchers ?t = road_dispatchers s"
    "dispatchers ?t = dispatchers s" "tickets ?t = tickets s" "cameras ?t = cameras s"
    "plateReadings ?t = plateReadings s"
    by (auto simp: handle_WantHeartbeat_def Let_def split: option.splits)
  have "heartbeats_inv ?t"
    using assms by (fastforce simp: handle_WantHeartbeat_def Let_def traffic_inv_def heartbeats_inv_def
        less_Suc_eq split: option.splits if_splits)
  with assms same show ?thesis
    by (auto simp: traffic_inv_def roads_inv_def roles_inv_def readings_inv_def)
qed

lemma inv_IAmCamera:
  assumes "traffic_inv s" and "c \<in> clients s"
  shows "traffic_inv (fst (handle_IAmCamera s c p))"
  using assms
  by (auto simp: handle_IAmCamera_def traffic_inv_defs)

lemma inv_IAmDispatcher:
  assumes "traffic_inv s" and "c \<in> clients s"
  shows "traffic_inv (fst (handle_IAmDispatcher s c p))"
proof (cases "dispatchers s c \<noteq> None \<or> cameras s c \<noteq> None")
  case True
  with assms show ?thesis by (auto simp: handle_IAmDispatcher_def)
next
  case False
  let ?s0 = "s\<lparr>dispatchers := (dispatchers s)(c \<mapsto> p)\<rparr>"
  obtain t os where r: "register_roads c (disp_Roads p) ?s0 = (t, os)" by fastforce
  have "balancers_ok (clients ?s0) (road_dispatchers ?s0)" "c \<in> clients ?s0"
    using assms by (simp_all add: traffic_inv_def roads_inv_def)
  from register_roads_spec [OF r this]
  have f: "same_but_roads ?s0 t" and ok: "balancers_ok (clients t) (road_dispatchers t)"
    and m: "\<And>r. members_on t r = members_on s r \<union> (if r \<in> set (disp_Roads p) then {c} else {})"
    and q: "\<And>r. queue t r = (if r \<in> set (disp_Roads p) then [] else queue s r)"
    by auto
  have h: "fst (handle_IAmDispatcher s c p) = t"
    using False r by (simp add: handle_IAmDispatcher_def)
  have "members_on t r = roads_of (dispatchers t) r" for r
    using assms False f by (simp add: m roads_of_upd same_but_roads_def traffic_inv_def roads_inv_def)
  moreover have "queue t r \<noteq> [] \<Longrightarrow> members_on t r = {}" for r
    using assms by (auto simp: q m traffic_inv_def roads_inv_def split: if_splits)
  moreover have "u \<in> set (queue t r) \<Longrightarrow> t_Road u = r" for u r
    using assms by (auto simp: q traffic_inv_def roads_inv_def split: if_splits)
  ultimately have "roads_inv t" using ok by (simp add: roads_inv_def)
  moreover have "roles_inv t \<and> readings_inv t \<and> heartbeats_inv t"
    using assms False f by (auto simp: same_but_roads_def traffic_inv_defs)
  ultimately show ?thesis by (simp add: h traffic_inv_def)
qed

lemma inv_disconnected:
  assumes "traffic_inv s"
  shows "traffic_inv (handle_disconnected s c)"
proof -
  let ?t = "handle_disconnected s c"
  have b: "balancers_ok (clients s) (road_dispatchers s)"
    and m: "\<And>r. members_on s r = roads_of (dispatchers s) r"
    using assms by (auto simp: traffic_inv_def roads_inv_def)
  have t: "clients ?t = clients s" "tickets ?t = tickets s" "plateReadings ?t = plateReadings s"
    "hb_next ?t = hb_next s" "heartbeats ?t = (heartbeats s)(c := None)"
    "cameras ?t = (cameras s)(c := None)" "dispatchers ?t = (dispatchers s)(c := None)"
    by (auto simp: handle_disconnected_def Let_def)
  have rd: "road_dispatchers ?t = (if dispatchers s c = None then road_dispatchers s
      else remove_dispatcher c (road_dispatchers s))"
    by (simp add: handle_disconnected_def Let_def)
  have mt: "members_on ?t r = members_on s r - {c}" for r
  proof (cases "dispatchers s c = None")
    case True
    then have "c \<notin> members_on s r" by (simp add: m roads_of_def)
    with True show ?thesis by (simp add: rd)
  next
    case False
    then show ?thesis by (auto simp: rd remove_dispatcher_ok(2) [OF b])
  qed
  have "balancers_ok (clients ?t) (road_dispatchers ?t)"
    using b by (simp add: t rd remove_dispatcher_ok(1))
  then have "roads_inv ?t"
    using assms by (auto simp: roads_inv_def mt t roads_of_del m traffic_inv_def)
  moreover have "roles_inv ?t \<and> readings_inv ?t \<and> heartbeats_inv ?t"
    using assms by (auto simp: roles_inv_def readings_inv_def heartbeats_inv_def t traffic_inv_def)
  ultimately show ?thesis by (simp add: traffic_inv_def)
qed

lemma inv_connected: "traffic_inv s \<Longrightarrow> traffic_inv (s\<lparr>clients := insert c (clients s)\<rparr>)"
  by (auto simp: traffic_inv_defs balancers_ok_def)

section \<open>Plates\<close>

definition same_but_tickets :: "traffic \<Rightarrow> traffic \<Rightarrow> bool" where
  "same_but_tickets s t \<longleftrightarrow> clients t = clients s \<and> heartbeats t = heartbeats s \<and> hb_next t = hb_next s
     \<and> cameras t = cameras s \<and> dispatchers t = dispatchers s"

lemma dispatch_ticket_spec:
  assumes "balancers_ok (clients s) (road_dispatchers s)"
  shows "\<exists>t os. dispatch_ticket s road tk = Inr (t, os) \<and> same_but_tickets s t
    \<and> dayPlates t = dayPlates s \<and> plateReadings t = plateReadings s
    \<and> balancers_ok (clients t) (road_dispatchers t) \<and> (\<forall>r. members_on t r = members_on s r)
    \<and> (if members_on s road = {}
       then os = [] \<and> (\<forall>r. queue t r = (if r = road then queue s r @ [tk] else queue s r))
       else (\<exists>d \<in> members_on s road. os = [sendTicket d tk]) \<and> (\<forall>r. queue t r = queue s r))"
proof (cases "road_dispatchers s road")
  case None
  with assms show ?thesis
    by (simp add: dispatch_ticket_def same_but_tickets_def road_members_def Let_def)
next
  case (Some b)
  have ok: "balancer_ok b" and ne: "balancer_members b \<noteq> {}" and sub: "balancer_members b \<subseteq> clients s"
    using balancers_okD [OF assms Some] by blast+
  obtain d b' where g: "Get b = Inr (Some d, b')" and d: "d \<in> balancer_members b"
    and b': "balancer_ok b'" "balancer_members b' = balancer_members b"
    using bal.get_member [OF ok ne] by blast
  have m: "members_on s road = balancer_members b" using Some by (simp add: road_members_def)
  let ?t = "s\<lparr>road_dispatchers := (road_dispatchers s)(road \<mapsto> b')\<rparr>"
  have "dispatch_ticket s road tk = Inr (?t, [sendTicket d tk])"
    using Some g d sub by (auto simp: dispatch_ticket_def Let_def)
  moreover have "balancers_ok (clients ?t) (road_dispatchers ?t)"
    using balancers_ok_upd [OF assms b'(1)] b'(2) ne sub by auto
  moreover have "members_on ?t r = members_on s r" for r
    using b'(2) m by simp
  ultimately show ?thesis
    using m ne d by (auto simp: same_but_tickets_def)
qed

text \<open>
  What handling a plate amounts to: either no ticket is issued, and tickets, days and dispatchers
  stay as they are, or one ticket is issued for days that had none, which are then marked, and it
  is handed to a dispatcher of the road or queued when there is none.
\<close>

definition issues :: "traffic \<Rightarrow> TicketPacket \<Rightarrow> traffic \<Rightarrow> effect list \<Rightarrow> bool" where
  "issues s tk t os \<longleftrightarrow> unmarked (dayPlates s) tk
     \<and> dayPlates t = mark_days (dayPlates s) (t_Plate tk) [day_of (t_Timestamp1 tk)..day_of (t_Timestamp2 tk)]
     \<and> (if members_on s (t_Road tk) = {}
        then os = [] \<and> (\<forall>r. queue t r = (if r = t_Road tk then queue s r @ [tk] else queue s r))
        else (\<exists>d \<in> members_on s (t_Road tk). os = [sendTicket d tk]) \<and> (\<forall>r. queue t r = queue s r))"

definition no_issue :: "traffic \<Rightarrow> traffic \<Rightarrow> effect list \<Rightarrow> bool" where
  "no_issue s t os \<longleftrightarrow> dayPlates t = dayPlates s \<and> tickets t = tickets s
     \<and> (\<forall>x \<in> set os. \<exists>d e. x = Send d (OutError e))"

definition plate_step :: "traffic \<Rightarrow> traffic \<Rightarrow> bool" where
  "plate_step s t \<longleftrightarrow> same_but_tickets s t \<and> readings_inv t
     \<and> balancers_ok (clients t) (road_dispatchers t) \<and> (\<forall>r. members_on t r = members_on s r)"

lemma clean_plate_simps [simp]:
  "clients (clean_plate s k) = clients s" "heartbeats (clean_plate s k) = heartbeats s"
  "hb_next (clean_plate s k) = hb_next s" "cameras (clean_plate s k) = cameras s"
  "dispatchers (clean_plate s k) = dispatchers s" "road_dispatchers (clean_plate s k) = road_dispatchers s"
  "tickets (clean_plate s k) = tickets s" "dayPlates (clean_plate s k) = dayPlates s"
  by (simp_all add: clean_plate_def)

lemma clean_plate_readings:
  "lookup_list (plateReadings (clean_plate s k)) k' =
     (if k' = k then clean_readings (dayPlates s) 0 (lookup_list (plateReadings s) k)
      else lookup_list (plateReadings s) k')"
  by (simp add: clean_plate_def)

lemma readings_inv_clean: "readings_inv s \<Longrightarrow> readings_inv (clean_plate s k)"
  using set_clean_readings [of "dayPlates s" 0 "lookup_list (plateReadings s) k"]
  by (auto simp: readings_inv_def clean_plate_readings)

lemma add_reading_simps [simp]:
  "clients (add_reading s x) = clients s" "heartbeats (add_reading s x) = heartbeats s"
  "hb_next (add_reading s x) = hb_next s" "cameras (add_reading s x) = cameras s"
  "dispatchers (add_reading s x) = dispatchers s" "road_dispatchers (add_reading s x) = road_dispatchers s"
  "tickets (add_reading s x) = tickets s" "dayPlates (add_reading s x) = dayPlates s"
  by (simp_all add: add_reading_def)

lemma add_reading_readings:
  "lookup_list (plateReadings (add_reading s x)) k =
     (if k = pi_Plate x then lookup_list (plateReadings s) (pi_Plate x) @ [x]
      else lookup_list (plateReadings s) k)"
  by (simp add: add_reading_def)

lemma readings_inv_add: "readings_inv s \<Longrightarrow> readings_inv (add_reading s x)"
  by (auto simp: readings_inv_def add_reading_readings)

lemma issue_ticket_spec:
  assumes "balancers_ok (clients s) (road_dispatchers s)" and "unmarked (dayPlates s) tk"
    and "d1 = day_of (t_Timestamp1 tk)" and "d2 = day_of (t_Timestamp2 tk)" and "t_Road tk = road"
  shows "\<exists>t os. issue_ticket s (tk, d1, d2, road) = Inr (t, os) \<and> issues s tk t os
    \<and> same_but_tickets s t \<and> plateReadings t = plateReadings s
    \<and> balancers_ok (clients t) (road_dispatchers t) \<and> (\<forall>r. members_on t r = members_on s r)"
proof -
  define s0 where "s0 = s\<lparr>dayPlates := mark_days (dayPlates s) (t_Plate tk) [d1..d2]\<rparr>"
  have s0: "balancers_ok (clients s0) (road_dispatchers s0)" "same_but_tickets s s0"
    "plateReadings s0 = plateReadings s" "tickets s0 = tickets s" "road_dispatchers s0 = road_dispatchers s"
    "dayPlates s0 = mark_days (dayPlates s) (t_Plate tk) [d1..d2]"
    using assms(1) by (simp_all add: s0_def same_but_tickets_def)
  have "issue_ticket s (tk, d1, d2, road) = dispatch_ticket s0 road tk"
    by (simp add: issue_ticket_def s0_def)
  moreover obtain t os where t: "dispatch_ticket s0 road tk = Inr (t, os)" "same_but_tickets s0 t"
    "dayPlates t = dayPlates s0" "plateReadings t = plateReadings s0"
    "balancers_ok (clients t) (road_dispatchers t)" "\<forall>r. members_on t r = members_on s0 r"
    "if members_on s0 road = {}
     then os = [] \<and> (\<forall>r. queue t r = (if r = road then queue s0 r @ [tk] else queue s0 r))
     else (\<exists>d \<in> members_on s0 road. os = [sendTicket d tk]) \<and> (\<forall>r. queue t r = queue s0 r)"
    using dispatch_ticket_spec [OF s0(1), of road tk] by blast
  moreover have "issues s tk t os"
    using t(3,7) s0 assms(2-5) by (simp add: issues_def cong: if_cong)
  ultimately show ?thesis using s0 by (auto simp: same_but_tickets_def)
qed

text \<open>The sighting that a camera's report adds.\<close>

definition sighting :: "IAmCameraPacket \<Rightarrow> PlatePacket \<Rightarrow> PlateInfo" where
  "sighting camera p = \<lparr>pi_Plate = plate_Plate p, pi_Timestamp = plate_Timestamp p,
     pi_Road = cam_Road camera, pi_Mile = cam_Mile camera\<rparr>"

lemma sighting_simps [simp]:
  "pi_Plate (sighting camera p) = plate_Plate p" "pi_Timestamp (sighting camera p) = plate_Timestamp p"
  "pi_Road (sighting camera p) = cam_Road camera" "pi_Mile (sighting camera p) = cam_Mile camera"
  by (simp_all add: sighting_def)

abbreviation sightings_of :: "traffic \<Rightarrow> string \<Rightarrow> PlateInfo list" where
  "sightings_of s k \<equiv> lookup_list (plateReadings s) k"

lemma handle_Plate_camera:
  assumes "cameras s c = Some camera" and "\<not> ticketed (dayPlates s) (day_of (plate_Timestamp p)) (plate_Plate p)"
  shows "handle_Plate ovf s c p =
    (if sightings_of s (plate_Plate p) = [] then Inr (add_reading s (sighting camera p), [])
     else case scan_sightings ovf (dayPlates s) camera (sighting camera p) (sightings_of s (plate_Plate p)) of
        None \<Rightarrow> Inr (clean_plate (add_reading s (sighting camera p)) (plate_Plate p), [])
      | Some r \<Rightarrow>
          (case issue_ticket (add_reading s (sighting camera p)) r of
             Inl e \<Rightarrow> Inl e
           | Inr (s2, os) \<Rightarrow> Inr (clean_plate s2 (plate_Plate p), os)))"
proof -
  have l: "length (xs @ [x]) < 2 \<longleftrightarrow> xs = []" for xs and x :: PlateInfo by (cases xs) auto
  show ?thesis
    using assms
    by (simp add: handle_Plate_def Let_def l sighting_def [symmetric] add_reading_readings
        del: length_append)
qed

lemma handle_Plate_issues:
  assumes "traffic_inv s" and "cameras s c = Some camera"
    and "\<not> ticketed (dayPlates s) (day_of (plate_Timestamp p)) (plate_Plate p)"
    and "scan_sightings ovf (dayPlates s) camera (sighting camera p) (sightings_of s (plate_Plate p)) = Some q"
  shows "\<exists>t os tk old. handle_Plate ovf s c p = Inr (t, os) \<and> plate_step s t \<and> issues s tk t os
    \<and> old \<in> set (sightings_of s (plate_Plate p)) \<and> t_Road tk = cam_Road camera
    \<and> t_Plate tk = plate_Plate p \<and> {obs1 tk, obs2 tk} = {sighting camera p, old}
    \<and> t_Timestamp1 tk < t_Timestamp2 tk \<and> over_limit (cam_Limit camera) (obs1 tk) (obs2 tk)"
proof -
  let ?new = "sighting camera p" and ?k = "plate_Plate p"
  let ?s1 = "add_reading s ?new"
  have b: "balancers_ok (clients s) (road_dispatchers s)" and r: "readings_inv s"
    using assms(1) by (auto simp: traffic_inv_def roads_inv_def)
  obtain tk d1 d2 road where q: "q = (tk, d1, d2, road)" by (cases q)
  obtain old where old: "old \<in> set (sightings_of s ?k)"
    and cp: "check_pair ovf (dayPlates s) camera ?new old = Some (tk, d1, d2, road)"
    using scan_sightings_Some [OF assms(4)] q by blast
  have "pi_Plate old = pi_Plate ?new" using r old by (simp add: readings_inv_def)
  from check_pair_Some [OF cp this]
  have tk: "t_Plate tk = ?k" "d1 = day_of (t_Timestamp1 tk)" "d2 = day_of (t_Timestamp2 tk)"
    "unmarked (dayPlates s) tk" "t_Timestamp1 tk < t_Timestamp2 tk" "road = cam_Road camera"
    "t_Road tk = road" "{obs1 tk, obs2 tk} = {?new, old}"
    "over_limit (cam_Limit camera) (obs1 tk) (obs2 tk)" by auto
  have "unmarked (dayPlates ?s1) tk" using tk(4) by simp
  then obtain t os where i: "issue_ticket ?s1 (tk, d1, d2, road) = Inr (t, os)" "issues ?s1 tk t os"
    "same_but_tickets ?s1 t" "plateReadings t = plateReadings ?s1"
    "balancers_ok (clients t) (road_dispatchers t)" "\<forall>r. members_on t r = members_on ?s1 r"
    using issue_ticket_spec [of ?s1 tk d1 d2 road] b tk(2,3,7) by auto
  have "sightings_of s ?k \<noteq> []" using old by auto
  then have "handle_Plate ovf s c p = Inr (clean_plate t ?k, os)"
    using handle_Plate_camera [OF assms(2,3), of ovf] assms(4) q i(1) by simp
  moreover have "readings_inv t" using i(4) readings_inv_add [OF r] by (simp add: readings_inv_def)
  then have "plate_step s (clean_plate t ?k)"
    using i readings_inv_clean by (simp add: plate_step_def same_but_tickets_def)
  moreover have "issues s tk (clean_plate t ?k) os" using i(2) by (simp add: issues_def cong: if_cong)
  ultimately show ?thesis using tk old by blast
qed

lemma handle_Plate_spec:
  assumes "traffic_inv s"
  shows "\<exists>t os. handle_Plate ovf s c p = Inr (t, os) \<and> plate_step s t
    \<and> (no_issue s t os \<or>
       (\<exists>tk camera old. issues s tk t os \<and> cameras s c = Some camera
          \<and> old \<in> set (sightings_of s (plate_Plate p)) \<and> t_Road tk = cam_Road camera
          \<and> {obs1 tk, obs2 tk} = {sighting camera p, old} \<and> t_Timestamp1 tk < t_Timestamp2 tk
          \<and> over_limit (cam_Limit camera) (obs1 tk) (obs2 tk)))"
proof -
  have b: "balancers_ok (clients s) (road_dispatchers s)" and r: "readings_inv s"
    using assms by (auto simp: traffic_inv_def roads_inv_def)
  then have self: "plate_step s s" by (simp add: plate_step_def same_but_tickets_def)
  show ?thesis
  proof (cases "cameras s c")
    case None
    with self show ?thesis
      by (auto simp: handle_Plate_def no_issue_def write_error_def sendTicket_def)
  next
    case (Some camera)
    show ?thesis
    proof (cases "ticketed (dayPlates s) (day_of (plate_Timestamp p)) (plate_Plate p)")
      case True
      with Some self show ?thesis by (auto simp: handle_Plate_def Let_def no_issue_def)
    next
      case False
      let ?new = "sighting camera p" and ?k = "plate_Plate p"
      let ?s1 = "add_reading s ?new"
      note h = handle_Plate_camera [OF Some False, of ovf]
      have s1: "plate_step s ?s1" "plate_step s (clean_plate ?s1 ?k)"
        using b r readings_inv_add readings_inv_clean
        by (simp_all add: plate_step_def same_but_tickets_def)
      show ?thesis
      proof (cases "scan_sightings ovf (dayPlates s) camera ?new (sightings_of s ?k)")
        case None
        with h s1 show ?thesis by (auto simp: no_issue_def)
      next
        case (Some q)
        with handle_Plate_issues [OF assms \<open>cameras s c = Some camera\<close> False]
          \<open>cameras s c = Some camera\<close>
        show ?thesis by blast
      qed
    qed
  qed
qed
end
