(* ===== verification/Traffic_Run.thy ===== *)
theory Traffic_Run
  imports Traffic_Inv
begin

text \<open>
  Runs of the traffic server: no message makes it panic, and the tickets that are sent or queued
  never clash. The properties of the server are at the end.
\<close>

section \<open>The loop keeps the invariant and never panics\<close>

lemma inv_Plate:
  assumes "traffic_inv s" and "handle_Plate ovf s c p = Inr (t, os)"
  shows "traffic_inv t"
proof -
  from handle_Plate_spec [OF assms(1), of ovf c p] assms(2)
  have st: "plate_step s t" and cases: "no_issue s t os \<or> (\<exists>tk. issues s tk t os)" by auto
  have m: "members_on t r = members_on s r" for r using st by (simp add: plate_step_def)
  have q: "queue t r \<noteq> [] \<longrightarrow> members_on t r = {}" "\<forall>u \<in> set (queue t r). t_Road u = r" for r
  proof -
    have s: "queue s r \<noteq> [] \<longrightarrow> members_on s r = {}" "\<forall>u \<in> set (queue s r). t_Road u = r"
      using assms(1) by (auto simp: traffic_inv_def roads_inv_def)
    from cases show "queue t r \<noteq> [] \<longrightarrow> members_on t r = {}"
      using s by (auto simp: no_issue_def issues_def m split: if_splits) (metis empty_iff)
    from cases have "queue t r = queue s r \<or> (\<exists>tk. r = t_Road tk \<and> queue t r = queue s r @ [tk])"
      unfolding no_issue_def issues_def by (metis (full_types))
    then show "\<forall>u \<in> set (queue t r). t_Road u = r" using s(2) by auto
  qed
  have b: "balancers_ok (clients t) (road_dispatchers t)" and d: "dispatchers t = dispatchers s"
    using st by (auto simp: plate_step_def same_but_tickets_def)
  have "members_on s r = roads_of (dispatchers s) r" for r
    using assms(1) by (simp add: roads_inv_def traffic_inv_def)
  with b q have "roads_inv t" by (simp add: roads_inv_def m d)
  then show ?thesis
    using assms(1) st by (simp add: traffic_inv_def plate_step_def same_but_tickets_def roles_inv_def heartbeats_inv_def)
qed

lemma traffic_step_ok:
  assumes "traffic_inv s" and "traffic_enabled s e"
  shows "\<exists>t os. traffic_step ovf s e = Inr (t, os) \<and> traffic_inv t"
proof -
  obtain c m where e: "e = (c, m)" by (cases e)
  have fst_ok: "\<exists>t os. Inr r = Inr (t, os) \<and> traffic_inv t" if "traffic_inv (fst r)" for r :: "traffic \<times> effect list"
    using that by (cases r) auto
  show ?thesis
  proof (cases m)
    case Connected
    with e inv_connected [OF assms(1)] show ?thesis by simp
  next
    case Disconnected
    with e inv_disconnected [OF assms(1)] show ?thesis by simp
  next
    case NilPacket
    with e assms(1) show ?thesis by simp
  next
    case (Packet p)
    with e assms(2) have c: "c \<in> clients s" by simp
    show ?thesis
    proof (cases p)
      case (PWantHeartbeat x)
      have "traffic_step ovf s e = Inr (handle_WantHeartbeat s c x)" using e Packet PWantHeartbeat by simp
      then show ?thesis using fst_ok [OF inv_WantHeartbeat [OF assms(1), of c x]] by simp
    next
      case (PCamera x)
      have "traffic_step ovf s e = Inr (handle_IAmCamera s c x)" using e Packet PCamera by simp
      then show ?thesis using fst_ok [OF inv_IAmCamera [OF assms(1) c, of x]] by simp
    next
      case (PDispatcher x)
      have "traffic_step ovf s e = Inr (handle_IAmDispatcher s c x)" using e Packet PDispatcher by simp
      then show ?thesis using fst_ok [OF inv_IAmDispatcher [OF assms(1) c, of x]] by simp
    next
      case (PPlate x)
      have "traffic_step ovf s e = handle_Plate ovf s c x" using e Packet PPlate by simp
      then show ?thesis using handle_Plate_spec [OF assms(1), of ovf c x] inv_Plate [OF assms(1)] by auto
    qed
  qed
qed

section \<open>The tickets sent and queued so far\<close>

fun sent_tickets :: "effect list \<Rightarrow> TicketPacket list" where
  "sent_tickets [] = []"
| "sent_tickets (Send c (OutTicket t) # os) = t # sent_tickets os"
| "sent_tickets (x # os) = sent_tickets os"

lemma sent_tickets_append [simp]: "sent_tickets (xs @ ys) = sent_tickets xs @ sent_tickets ys"
  by (induction xs rule: sent_tickets.induct) auto

lemma sent_tickets_map [simp]: "sent_tickets (map (sendTicket c) ts) = ts"
  by (induction ts) (auto simp: sendTicket_def)

lemma sent_tickets_sendTicket [simp]: "sent_tickets [sendTicket c t] = [t]"
  by (simp add: sendTicket_def)

lemma sent_tickets_none: "\<forall>x \<in> set os. \<exists>d e. x = Send d (OutError e) \<Longrightarrow> sent_tickets os = []"
  by (induction os rule: sent_tickets.induct) auto

abbreviation apart :: "TicketPacket list \<Rightarrow> bool" where
  "apart \<equiv> sorted_wrt (\<lambda>t u. \<not> clash t u)"

text \<open>
  Of the tickets sent so far and those in the queues, no two clash, and the days of each are
  marked.
\<close>

definition tickets_hist :: "effect list \<Rightarrow> traffic \<Rightarrow> bool" where
  "tickets_hist h s \<longleftrightarrow> apart (sent_tickets h)
     \<and> (\<forall>r. apart (queue s r))
     \<and> (\<forall>r. \<forall>t \<in> set (sent_tickets h). \<forall>u \<in> set (queue s r). \<not> clash t u)
     \<and> (\<forall>r r'. r \<noteq> r' \<longrightarrow> (\<forall>t \<in> set (queue s r). \<forall>u \<in> set (queue s r'). \<not> clash t u))
     \<and> (\<forall>t \<in> set (sent_tickets h). marked (dayPlates s) t)
     \<and> (\<forall>r. \<forall>t \<in> set (queue s r). marked (dayPlates s) t)"

lemma tickets_hist_init: "tickets_hist [] traffic_init"
  by (simp add: tickets_hist_def traffic_init_def)

lemma tickets_hist_same:
  assumes "tickets_hist h s" and "tickets t = tickets s" and "dayPlates t = dayPlates s"
    and "sent_tickets os = []"
  shows "tickets_hist (h @ os) t"
  using assms by (simp add: tickets_hist_def)

lemma tickets_hist_issues:
  assumes "tickets_hist h s" and "issues s tk t os"
  shows "tickets_hist (h @ os) t"
proof -
  have un: "unmarked (dayPlates s) tk" using assms(2) by (simp add: issues_def)
  have old: "marked (dayPlates s) u \<Longrightarrow> \<not> clash u tk" "marked (dayPlates s) u \<Longrightarrow> marked (dayPlates t) u" for u
    using marked_unmarked_no_clash [OF _ un] marked_mono assms(2) by (simp_all add: issues_def)
  have new: "marked (dayPlates t) tk" using assms(2) marked_own_days by (simp add: issues_def)
  show ?thesis
  proof (cases "members_on s (t_Road tk) = {}")
    case True
    with assms(2) have os: "os = []" and q: "\<And>r. queue t r = (if r = t_Road tk then queue s r @ [tk] else queue s r)"
      by (auto simp: issues_def)
    show ?thesis
      using assms(1) old new clash_sym unfolding tickets_hist_def os q
      by (auto simp: sorted_wrt_append)
  next
    case False
    with assms(2) obtain d where os: "os = [sendTicket d tk]" and q: "\<And>r. queue t r = queue s r"
      by (auto simp: issues_def)
    show ?thesis
      using assms(1) old new clash_sym unfolding tickets_hist_def os q
      by (auto simp: sorted_wrt_append)
  qed
qed

lemma tickets_hist_register_road:
  assumes "tickets_hist h s" and "register_road c road s = (t, os)"
    and "balancers_ok (clients s) (road_dispatchers s)" and "c \<in> clients s"
  shows "tickets_hist (h @ os) t"
proof -
  note one = register_road_spec [OF assms(2-4)]
  have "dayPlates t = dayPlates s" using one(1) by (simp add: same_but_roads_def)
  moreover have "\<not> clash ta u" if "r \<noteq> road" "ta \<in> set (queue s road)" "u \<in> set (queue s r)" for r ta u
    using assms(1) that unfolding tickets_hist_def by metis
  ultimately show ?thesis
    using assms(1) unfolding tickets_hist_def one(4,5) by (auto simp: sorted_wrt_append)
qed

lemma tickets_hist_register_roads:
  assumes "tickets_hist h s" and "register_roads c roads s = (t, os)"
    and "balancers_ok (clients s) (road_dispatchers s)" and "c \<in> clients s"
  shows "tickets_hist (h @ os) t"
  using assms
proof (induction roads arbitrary: s h os)
  case Nil
  then show ?case by simp
next
  case (Cons road roads)
  from Cons.prems(2) obtain s1 os1 os2 where r: "register_road c road s = (s1, os1)"
    and rs: "register_roads c roads s1 = (t, os2)" and os: "os = os1 @ os2" by (auto split: prod.splits)
  note one = register_road_spec [OF r Cons.prems(3,4)]
  have "c \<in> clients s1" using one(1) Cons.prems(4) by (simp add: same_but_roads_def)
  from Cons.IH [OF tickets_hist_register_road [OF Cons.prems(1) r Cons.prems(3,4)] rs one(2) this]
  show ?case by (simp add: os)
qed

lemma traffic_step_hist:
  assumes "traffic_inv s" and "traffic_enabled s e" and "tickets_hist h s"
    and "traffic_step ovf s e = Inr (t, os)"
  shows "tickets_hist (h @ os) t"
proof -
  obtain c m where e: "e = (c, m)" by (cases e)
  note same = tickets_hist_same [OF assms(3)]
  show ?thesis
  proof (cases m)
    case Connected
    with e assms(4) show ?thesis by (intro same) auto
  next
    case Disconnected
    with e assms(4) show ?thesis by (intro same) (auto simp: handle_disconnected_def Let_def)
  next
    case NilPacket
    with e assms(4) show ?thesis by (intro same) auto
  next
    case (Packet p)
    with e assms(2) have c: "c \<in> clients s" by simp
    show ?thesis
    proof (cases p)
      case (PWantHeartbeat x)
      with e Packet assms(4) show ?thesis
        by (intro same) (auto simp: handle_WantHeartbeat_def Let_def split: option.splits if_splits)
    next
      case (PCamera x)
      with e Packet assms(4) show ?thesis
        by (intro same) (auto simp: handle_IAmCamera_def write_error_def split: if_splits)
    next
      case (PPlate x)
      with e Packet assms(4) have "handle_Plate ovf s c x = Inr (t, os)" by simp
      with handle_Plate_spec [OF assms(1), of ovf c x] consider "no_issue s t os" | tk where "issues s tk t os"
        by auto
      then show ?thesis
      proof cases
        case 1
        then show ?thesis by (intro same) (simp_all add: no_issue_def sent_tickets_none)
      next
        case 2
        then show ?thesis by (rule tickets_hist_issues [OF assms(3)])
      qed
    next
      case (PDispatcher x)
      with e Packet assms(4) have h: "handle_IAmDispatcher s c x = (t, os)" by simp
      show ?thesis
      proof (cases "dispatchers s c \<noteq> None \<or> cameras s c \<noteq> None")
        case True
        with h show ?thesis
          by (intro same) (auto simp: handle_IAmDispatcher_def write_error_def split: if_splits)
      next
        case False
        let ?s = "s\<lparr>dispatchers := (dispatchers s)(c \<mapsto> x)\<rparr>"
        have r: "register_roads c (disp_Roads x) ?s = (t, os)"
          using h False by (simp add: handle_IAmDispatcher_def)
        have "tickets_hist (h @ []) ?s" by (intro same) simp_all
        then have "tickets_hist h ?s" by simp
        then show ?thesis
          by (rule tickets_hist_register_roads [OF _ r])
            (use assms(1) c in \<open>simp_all add: traffic_inv_def roads_inv_def\<close>)
      qed
    qed
  qed
qed

interpretation traffic_loop:
  traced_loop "traffic_step ovf" traffic_enabled traffic_inv tickets_hist for ovf
  by unfold_locales (blast intro: traffic_step_ok traffic_step_hist)+

abbreviation traffic_run ::
  "(rat \<Rightarrow> u16) \<Rightarrow> (peer_id \<times> tmsg) list \<Rightarrow> go_panic + traffic \<times> effect list" where
  "traffic_run ovf es \<equiv> run (traffic_step ovf) traffic_init es"

abbreviation traffic_conforming :: "(rat \<Rightarrow> u16) \<Rightarrow> (peer_id \<times> tmsg) list \<Rightarrow> bool" where
  "traffic_conforming ovf es \<equiv> conforming (traffic_step ovf) traffic_enabled traffic_init es"

lemma traffic_run_inv:
  "traffic_conforming ovf es \<Longrightarrow> traffic_run ovf es = Inr (s, os) \<Longrightarrow> traffic_inv s"
  by (rule traffic_loop.run_inv [OF traffic_inv_init])

section \<open>The order of the messages\<close>

text \<open>The clients of a run are those that were announced.\<close>

lemma step_clients:
  "traffic_step ovf s (c, m) = Inr (t, os) \<Longrightarrow> traffic_inv s \<Longrightarrow>
     clients t = (if m = Connected then insert c (clients s) else clients s)"
proof -
  assume st: "traffic_step ovf s (c, m) = Inr (t, os)" and inv: "traffic_inv s"
  show ?thesis
  proof (cases m)
    case (Packet p)
    show ?thesis
    proof (cases p)
      case (PWantHeartbeat x)
      with Packet st show ?thesis by (auto simp: handle_WantHeartbeat_def Let_def split: option.splits if_splits)
    next
      case (PCamera x)
      with Packet st show ?thesis by (auto simp: handle_IAmCamera_def split: if_splits)
    next
      case (PDispatcher x)
      have r: "register_roads c roads s' = (t', os') \<Longrightarrow> clients t' = clients s'" for roads s' t' os'
        by (induction roads arbitrary: s' os')
          (force simp: register_road_def Let_def split: prod.splits if_splits)+
      from PDispatcher Packet st show ?thesis by (auto simp: handle_IAmDispatcher_def split: if_splits dest: r)
    next
      case (PPlate x)
      with Packet st handle_Plate_spec [OF inv, of ovf c x] show ?thesis
        by (auto simp: plate_step_def same_but_tickets_def)
    qed
  qed (use st in \<open>auto simp: handle_disconnected_def Let_def split: if_splits\<close>)
qed

text \<open>
  Messages arrive in order: before any other message of a peer comes the one that announces its
  connection.
\<close>

fun announced :: "peer_id set \<Rightarrow> (peer_id \<times> tmsg) list \<Rightarrow> bool" where
  "announced A [] = True"
| "announced A ((c, m) # es) =
     (if m = Connected then announced (insert c A) es else c \<in> A \<and> announced A es)"

lemma traffic_enabled_iff: "traffic_enabled s (c, m) \<longleftrightarrow> m = Connected \<or> c \<in> clients s"
  by (cases m) auto

lemma announced_conforming:
  "traffic_inv s \<Longrightarrow> conforming (traffic_step ovf) traffic_enabled s es \<longleftrightarrow> announced (clients s) es"
proof (induction es arbitrary: s)
  case Nil
  then show ?case by simp
next
  case (Cons e es)
  obtain c m where e: "e = (c, m)" by (cases e)
  show ?case
  proof (cases "m = Connected \<or> c \<in> clients s")
    case False
    then show ?thesis by (simp add: e traffic_enabled_iff)
  next
    case True
    then have "traffic_enabled s e" by (simp add: e traffic_enabled_iff)
    with traffic_step_ok [OF Cons.prems] obtain t os
      where t: "traffic_step ovf s e = Inr (t, os)" "traffic_inv t" by blast
    moreover have "clients t = (if m = Connected then insert c (clients s) else clients s)"
      using step_clients Cons.prems t(1) e by blast
    ultimately show ?thesis using Cons.IH [OF t(2)] True by (auto simp: e traffic_enabled_iff)
  qed
qed

lemma traffic_conforming_iff: "traffic_conforming ovf es \<longleftrightarrow> announced {} es"
  using announced_conforming [OF traffic_inv_init] by (simp add: traffic_init_def)

text \<open>A message sequence made of the sequences of its peers, each of which starts with \<open>Connected\<close>.\<close>

lemma announced_peers:
  "(\<And>c. messages_of c es = [] \<or> hd (messages_of c es) = Connected \<or> c \<in> A) \<Longrightarrow> announced A es"
proof (induction es arbitrary: A)
  case Nil
  then show ?case by simp
next
  case (Cons e es)
  obtain c m where e: "e = (c, m)" by (cases e)
  have *: "m = Connected \<or> c \<in> A" using Cons.prems [of c] by (auto simp: messages_of_def e)
  let ?A = "insert c A"
  have "announced ?A es"
  proof (rule Cons.IH)
    fix d
    show "messages_of d es = [] \<or> hd (messages_of d es) = Connected \<or> d \<in> ?A"
      using Cons.prems [of d] by (cases "d = c") (simp_all add: messages_of_def e)
  qed
  with * show ?case by (cases "m = Connected") (auto simp: e insert_absorb)
qed

end
