(* ===== verification/Traffic_Speed.thy ===== *)
theory Traffic_Speed
  imports Traffic_Inv
begin

text \<open>
  The speed check against exact arithmetic: the distance has no wrap-around, and the three
  roundings to \<open>float32\<close> keep the decision within a part in \<open>2 ^ 22\<close> of the exact quotient.
\<close>


lemma distance_of_nat:
  "int (unat (distance_of p c)) = \<bar>int (unat (pi_Mile c)) - int (unat (pi_Mile p))\<bar>"
proof -
  have "unat (ucast (x - y) :: u32) = unat x - unat y" if "y \<le> x" for x y :: u16
  proof -
    have "unat (x - y) < 2 ^ 16" using unsigned_less [of "x - y"] by simp
    then have "unat (x - y) < 2 ^ 32" by simp
    then have "unat (ucast (x - y) :: u32) = unat (x - y)"
      by (simp add: unsigned_ucast_eq take_bit_nat_eq_self)
    with that show ?thesis by (simp add: unat_sub_if' word_le_nat_alt)
  qed
  from this [of "pi_Mile p" "pi_Mile c"] this [of "pi_Mile c" "pi_Mile p"]
  have "unat (distance_of p c) = (if pi_Mile p < pi_Mile c then unat (pi_Mile c) - unat (pi_Mile p)
      else unat (pi_Mile p) - unat (pi_Mile c))"
    by (auto simp: distance_of_def)
  then show ?thesis unfolding word_less_nat_alt by presburger
qed

lemma distance_less: "unat (distance_of p c) < 65536"
proof -
  have "unat (pi_Mile x) < 65536" for x :: PlateInfo using unsigned_less [of "pi_Mile x"] by simp
  from this [of p] this [of c] show ?thesis using distance_of_nat [of p c] by linarith
qed

lemma distance_seconds: "unat (distance_of p c * 3600) = unat (distance_of p c) * 3600"
  using distance_less [of p c] by (simp add: unat_word_ariths)


text \<open>
  The computed speed against the exact quotient: three roundings to 24 bits.
\<close>

lemma speed_of_fl:
  "speed_of (distance_of p c) dt
     = fl 24 (fl 24 (of_nat (3600 * unat (distance_of p c))) / fl 24 (of_nat (unat dt)))"
  by (simp only: speed_of_def float32_def distance_seconds mult.commute)

lemma rounded_quotient_less:
  fixes D T L :: rat
  assumes "0 < D" and "0 < T" and "0 \<le> L" and "L < fl 24 D / fl 24 T"
  shows "L * T * (2 ^ 24 - 1) < D * (2 ^ 24 + 1)"
proof -
  have t: "T - T / 2 ^ 24 \<le> fl 24 T" by (rule fl_rel_bounds [OF assms(2)])
  moreover have "0 < T - T / 2 ^ 24" using assms(2) by simp
  ultimately have "0 < fl 24 T" by linarith
  with assms(4) have "L * fl 24 T < fl 24 D" by (simp add: pos_less_divide_eq)
  moreover have "L * (T - T / 2 ^ 24) \<le> L * fl 24 T" by (rule mult_left_mono [OF t assms(3)])
  moreover have "fl 24 D \<le> D + D / 2 ^ 24" by (rule fl_rel_bounds [OF assms(1)])
  ultimately have "L * (T - T / 2 ^ 24) < D + D / 2 ^ 24" by linarith
  then show ?thesis by (simp add: field_simps)
qed

lemma rounded_quotient_enough:
  fixes D T L :: rat
  assumes "0 < T" and "0 \<le> L" and "L \<le> 65536" and "(L + 1 / 64) * T \<le> D"
  shows "L < fl 24 (fl 24 D / fl 24 T)"
proof -
  have "0 < (L + 1 / 64) * T" using assms(1,2) by simp
  with assms(4) have "0 < D" by linarith
  have d: "D - D / 2 ^ 24 \<le> fl 24 D" by (rule fl_rel_bounds [OF \<open>0 < D\<close>])
  have t: "fl 24 T \<le> T + T / 2 ^ 24" "T - T / 2 ^ 24 \<le> fl 24 T" by (rule fl_rel_bounds [OF assms(1)])+
  have "0 < T - T / 2 ^ 24" using assms(1) by simp
  with t have ft: "0 < fl 24 T" by linarith
  define Q where "Q = (L + 1 / 64) * (2 ^ 24 - 1) / (2 ^ 24 + 1)"
  have "0 < Q" using assms(2) by (simp add: Q_def)
  have "Q * fl 24 T \<le> Q * (T + T / 2 ^ 24)"
    by (rule mult_left_mono [OF t(1)]) (use \<open>0 < Q\<close> in simp)
  also have "\<dots> = (L + 1 / 64) * T * (1 - 1 / 2 ^ 24)" by (simp add: Q_def field_simps)
  also have "\<dots> \<le> D * (1 - 1 / 2 ^ 24)" by (rule mult_right_mono [OF assms(4)]) simp
  also have "\<dots> = D - D / 2 ^ 24" by (simp add: field_simps)
  finally have "Q \<le> fl 24 D / fl 24 T" using ft d by (simp add: pos_le_divide_eq)
  then have m: "fl 24 Q \<le> fl 24 (fl 24 D / fl 24 T)" by (rule fl_mono [rotated]) simp
  have "Q - Q / 2 ^ 24 \<le> fl 24 Q" by (rule fl_rel_bounds [OF \<open>0 < Q\<close>])
  moreover have "L < Q - Q / 2 ^ 24" using assms(2,3) by (simp add: Q_def field_simps)
  ultimately show ?thesis using m by linarith
qed

lemma speed_over_limit:
  assumes "distance_of p c \<noteq> 0" and "dt \<noteq> 0"
    and "of_nat l < speed_of (distance_of p c) dt" and "l < 65536"
  shows "l * unat dt * (2 ^ 24 - 1) < 3600 * unat (distance_of p c) * (2 ^ 24 + 1)"
proof -
  have "0 < unat (distance_of p c)" "0 < unat dt" using assms(1,2) by (simp_all add: unat_gt_0)
  then have pos: "(0 :: rat) < of_nat (3600 * unat (distance_of p c))" "(0 :: rat) < of_nat (unat dt)"
    unfolding of_nat_0_less_iff by simp_all
  have "(of_nat l :: rat) < fl 24 (of_nat (3600 * unat (distance_of p c))) / fl 24 (of_nat (unat dt))"
    by (rule fl_greater_exact [of _ 24]) (use assms(3,4) in \<open>simp_all add: speed_of_fl del: of_nat_mult of_nat_unat\<close>)
  from rounded_quotient_less [OF pos _ this]
  have "(of_nat (l * unat dt * (2 ^ 24 - 1)) :: rat)
      < of_nat (3600 * unat (distance_of p c) * (2 ^ 24 + 1))" by simp
  then show ?thesis by (simp only: of_nat_less_iff)
qed

lemma speed_enough:
  assumes "dt \<noteq> 0" and "l < 65536"
    and "(64 * l + 1) * unat dt \<le> 64 * (3600 * unat (distance_of p c))"
  shows "of_nat l < speed_of (distance_of p c) dt"
proof -
  have "0 < unat dt" using assms(1) by (simp add: unat_gt_0)
  then have pos: "(0 :: rat) < of_nat (unat dt)" unfolding of_nat_0_less_iff .
  have "(of_nat ((64 * l + 1) * unat dt) :: rat) \<le> of_nat (64 * (3600 * unat (distance_of p c)))"
    using assms(3) by (simp only: of_nat_le_iff)
  then have "(of_nat l + 1 / 64) * of_nat (unat dt) \<le> (of_nat (3600 * unat (distance_of p c)) :: rat)"
    by (simp add: field_simps)
  from rounded_quotient_enough [OF pos _ _ this] assms(2) show ?thesis
    unfolding speed_of_fl by simp
qed

lemma float32_limit: "float32 (of_nat (unat (l :: u16))) = of_nat (unat l)"
proof -
  have "unat l < 2 ^ 16" using unsigned_less [of l] by simp
  then have "unat l < 2 ^ 24" by simp
  then show ?thesis unfolding float32_def by (rule fl_of_nat) simp
qed

end
