(* ===== verification/Reader_Returns.thy ===== *)
theory Reader_Returns
  imports Reader
begin

text \<open>
  The functions of \<^verbatim>\<open>reader/reader.go\<close> return on every stream that comes to an end, and none of
  them gives bytes back: what is left of the input does not grow. The loops of the clients terminate
  because of this.
\<close>

section \<open>Reads that return and do not grow the input\<close>

context io_reader
begin

definition returns :: "('s, 'a) io \<Rightarrow> bool" where
  "returns m \<longleftrightarrow> (\<forall>s. ok s \<longrightarrow> (\<exists>r s'. m s = Some (r, s') \<and> ok s' \<and> end_error s' = end_error s
     \<and> length (content s') \<le> length (content s)))"

lemma returns_bind [intro]: "returns m \<Longrightarrow> (\<And>x. returns (f x)) \<Longrightarrow> returns (io_bind m f)"
  unfolding returns_def
proof (intro allI impI)
  fix s
  assume m: "\<forall>s. ok s \<longrightarrow> (\<exists>r s'. m s = Some (r, s') \<and> ok s' \<and> end_error s' = end_error s
      \<and> length (content s') \<le> length (content s))"
    and f: "\<And>x. \<forall>s. ok s \<longrightarrow> (\<exists>r s'. f x s = Some (r, s') \<and> ok s' \<and> end_error s' = end_error s
      \<and> length (content s') \<le> length (content s))" and "ok s"
  from m \<open>ok s\<close> obtain r s1 where 1: "m s = Some (r, s1)" "ok s1" "end_error s1 = end_error s"
    "length (content s1) \<le> length (content s)" by blast
  show "\<exists>r s'. io_bind m f s = Some (r, s') \<and> ok s' \<and> end_error s' = end_error s
      \<and> length (content s') \<le> length (content s)"
  proof (cases r)
    case (Inl e)
    with 1 show ?thesis by simp
  next
    case (Inr x)
    from f [of x] 1(2) obtain r2 s2 where "f x s1 = Some (r2, s2)" "ok s2"
      "end_error s2 = end_error s1" "length (content s2) \<le> length (content s1)" by blast
    with 1 Inr show ?thesis by auto
  qed
qed

lemma returns_return [intro]: "returns (io_return x)"
  by (simp add: returns_def)

lemma returns_ReadFull [intro]: "returns (ReadFull read n)"
  unfolding returns_def
proof (intro allI impI)
  fix s
  assume "ok s"
  then show "\<exists>r s'. ReadFull read n s = Some (r, s') \<and> ok s' \<and> end_error s' = end_error s
      \<and> length (content s') \<le> length (content s)"
    using ReadFull_enough [of s n] ReadFull_short [of s n]
    by (cases "n \<le> length (content s)") fastforce+
qed

lemma returns_ReadN [intro]: "returns (ReadN read n)"
  unfolding returns_def
proof (intro allI impI)
  fix s
  assume ok: "ok s"
  show "\<exists>r s'. ReadN read n s = Some (r, s') \<and> ok s' \<and> end_error s' = end_error s
      \<and> length (content s') \<le> length (content s)"
  proof (cases "n = 0")
    case True
    with read_none [OF ok] ok show ?thesis by (simp add: ReadN_def)
  next
    case n: False
    show ?thesis
    proof (cases "content s = []")
      case True
      with read_end [OF ok True, of n] ok n show ?thesis by (simp add: ReadN_def)
    next
      case False
      with read_data [OF ok False, of n] n show ?thesis by (auto simp: ReadN_def)
    qed
  qed
qed

lemma returns_ReadByte [intro]: "returns (ReadByte read)"
  unfolding ReadByte_def by (intro returns_bind returns_ReadN returns_return)

lemma returns_ReadB [intro]:
  "returns (ReadB_u16 read)" "returns (ReadB_u32 read)" "returns (ReadB_u16s read n)"
  unfolding ReadB_u16_def ReadB_u32_def ReadB_u16s_def
  by (intro returns_bind returns_ReadFull returns_return)+

end

end
