(* ===== verification/Traffic_Client.thy ===== *)
theory Traffic_Client
  imports Traffic Reader_Returns
begin

text \<open>
  The goroutines of a client of the traffic server: \<open>HandleClient\<close>, which decodes its packets and
  sends them to the server, with the proof that it returns when the connection ends, and
  \<open>handleHeartbeath\<close>, which writes its heartbeats.
\<close>


context io_reader
begin

lemma returns_Unmarshal:
  "returns (Unmarshal_IAmCamera read)" "returns (Unmarshal_IAmDispatcher read)"
  "returns (Unmarshal_Plate read)" "returns (Unmarshal_WantHeartbeat read)"
  unfolding unmarshal_defs get_string_def by blast+

end

section \<open>\<open>HandleClient\<close>\<close>

text \<open>
  A packet behind its opcode: \<open>None\<close> for an unknown opcode. The errors of a camera, a dispatcher
  and a heartbeat request are wrapped unless they are \<open>io.EOF\<close>; those of a plate are not.
\<close>

definition wrap_error :: "string \<Rightarrow> ('s, 'a) io \<Rightarrow> ('s, 'a) io" where
  "wrap_error msg m s =
     (case m s of
        Some (Inl err, s') \<Rightarrow>
          Some (Inl (if errors_Is err EOF then err else ErrJoin err (ErrText msg)), s')
      | r \<Rightarrow> r)"

definition read_body :: "byte \<Rightarrow> (conn, packet option) io" where
  "read_body opcode =
     (if opcode = Opcode_Plate
      then io_bind (Unmarshal_Plate conn_Read) (\<lambda>p. io_return (Some (PPlate p)))
      else if opcode = Opcode_IAmCamera
      then io_bind (wrap_error ''could not unmarshal camera packet'' (Unmarshal_IAmCamera conn_Read))
             (\<lambda>p. io_return (Some (PCamera p)))
      else if opcode = Opcode_IAmDispatcher
      then io_bind (wrap_error ''could not unmarshal dispatcher packet'' (Unmarshal_IAmDispatcher conn_Read))
             (\<lambda>p. io_return (Some (PDispatcher p)))
      else if opcode = Opcode_WantHeartbeat
      then io_bind (wrap_error ''could not unmarshal want heartbeat packet'' (Unmarshal_WantHeartbeat conn_Read))
             (\<lambda>p. io_return (Some (PWantHeartbeat p)))
      else io_return None)"

definition invalid_opcode :: bytes where
  "invalid_opcode = Marshal_Error \<lparr>err_Message = ''received invalid opcode''\<rparr>"

text \<open>
  The loop: the messages it sends to the server, what it writes to the client, and the error it
  returns with. \<open>wr k\<close> is the outcome of the \<open>k\<close>-th write to the connection.
\<close>

partial_function (option) client_loop ::
  "(nat \<Rightarrow> go_error option) \<Rightarrow> nat \<Rightarrow> conn \<Rightarrow> (tmsg list \<times> bytes list \<times> go_error) option" where
  "client_loop wr k s =
     (case io_bind (ReadByte conn_Read) read_body s of
        None \<Rightarrow> None
      | Some (Inl err, s') \<Rightarrow> Some ([], [], err)
      | Some (Inr (Some p), s') \<Rightarrow>
          Option.bind (client_loop wr k s') (\<lambda>(ms, ws, err). Some (Packet p # ms, ws, err))
      | Some (Inr None, s') \<Rightarrow>
          (case wr k of
             Some err \<Rightarrow> Some ([], [invalid_opcode], err)
           | None \<Rightarrow>
               Option.bind (client_loop wr (Suc k) s')
                 (\<lambda>(ms, ws, err). Some (NilPacket # ms, invalid_opcode # ws, err))))"

definition HandleClient ::
  "(nat \<Rightarrow> go_error option) \<Rightarrow> conn \<Rightarrow> (tmsg list \<times> bytes list \<times> go_error) option" where
  "HandleClient wr s =
     Option.bind (client_loop wr 0 s)
       (\<lambda>(ms, ws, err). Some (Connected # ms @ [Disconnected], ws, err))"

lemma wrap_error_Inr [simp]: "m s = Some (Inr x, s') \<Longrightarrow> wrap_error msg m s = Some (Inr x, s')"
  by (simp add: wrap_error_def)

lemma returns_wrap_error: "tcp.returns m \<Longrightarrow> tcp.returns (wrap_error msg m)"
  unfolding tcp.returns_def
proof (intro allI impI)
  fix s
  assume m: "\<forall>s. conn_ok s \<longrightarrow> (\<exists>r s'. m s = Some (r, s') \<and> conn_ok s' \<and> conn_end s' = conn_end s
      \<and> length (conn_content s') \<le> length (conn_content s))" and "conn_ok s"
  then obtain r s' where "m s = Some (r, s')" "conn_ok s'" "conn_end s' = conn_end s"
    "length (conn_content s') \<le> length (conn_content s)" by blast
  then show "\<exists>r s'. wrap_error msg m s = Some (r, s') \<and> conn_ok s' \<and> conn_end s' = conn_end s
      \<and> length (conn_content s') \<le> length (conn_content s)"
    by (cases r) (simp_all add: wrap_error_def)
qed

lemma returns_read_body: "tcp.returns (read_body opcode)"
proof -
  have w: "tcp.returns (io_bind (wrap_error msg m) (\<lambda>p. io_return (f p)))" if "tcp.returns m"
    for msg f and m :: "(conn, 'a) io"
    by (rule tcp.returns_bind [OF returns_wrap_error [OF that] tcp.returns_return])
  have plate: "tcp.returns (io_bind (Unmarshal_Plate conn_Read) (\<lambda>p. io_return (Some (PPlate p))))"
    by (rule tcp.returns_bind [OF tcp.returns_Unmarshal(3) tcp.returns_return])
  show ?thesis
    unfolding read_body_def
    by (simp only: if_split simp_thms plate w [OF tcp.returns_Unmarshal(1)]
        w [OF tcp.returns_Unmarshal(2)] w [OF tcp.returns_Unmarshal(4)] tcp.returns_return)
qed

lemma client_loop_returns:
  assumes "conn_ok s"
  shows "\<exists>ms ws err. client_loop wr k s = Some (ms, ws, err)
    \<and> set ms \<subseteq> insert NilPacket (range Packet) \<and> set ws \<subseteq> {invalid_opcode}"
  using assms
proof (induction "length (conn_content s)" arbitrary: s k rule: less_induct)
  case less
  show ?case
  proof (cases "conn_content s = []")
    case True
    then show ?thesis
      using tcp.ReadByte_end [OF less.prems True] by (simp add: client_loop.simps [of wr k s])
  next
    case False
    with tcp.ReadByte_enough [OF less.prems] obtain s1
      where 1: "ReadByte conn_Read s = Some (Inr (hd (conn_content s)), s1)" "conn_ok s1"
        "conn_content s1 = tl (conn_content s)" by blast
    obtain r s2 where 2: "read_body (hd (conn_content s)) s1 = Some (r, s2)" "conn_ok s2"
      "length (conn_content s2) \<le> length (conn_content s1)"
      using returns_read_body 1(2) unfolding tcp.returns_def by blast
    have "length (conn_content s2) < length (conn_content s)" using 1(3) 2(3) False by (cases "conn_content s") auto
    note IH = less.hyps [OF this 2(2)]
    have b: "io_bind (ReadByte conn_Read) read_body s = Some (r, s2)" using 1(1) 2(1) by simp
    show ?thesis
    proof (cases r)
      case (Inl err)
      with b show ?thesis by (simp add: client_loop.simps [of wr k s])
    next
      case (Inr q)
      show ?thesis
      proof (cases q)
        case (Some p)
        from IH [of k] obtain ms ws err where "client_loop wr k s2 = Some (ms, ws, err)"
          "set ms \<subseteq> insert NilPacket (range Packet)" "set ws \<subseteq> {invalid_opcode}" by blast
        with b Inr Some show ?thesis by (simp add: client_loop.simps [of wr k s])
      next
        case None
        from IH [of "Suc k"] obtain ms ws err where "client_loop wr (Suc k) s2 = Some (ms, ws, err)"
          "set ms \<subseteq> insert NilPacket (range Packet)" "set ws \<subseteq> {invalid_opcode}" by blast
        with b Inr None show ?thesis
          by (cases "wr k") (simp_all add: client_loop.simps [of wr k s])
      qed
    qed
  qed
qed

text \<open>The packets a client sends, and their bytes.\<close>

fun encode :: "packet \<Rightarrow> bytes" where
  "encode (PWantHeartbeat p) = Marshal_WantHeartbeat p"
| "encode (PCamera p) = Marshal_IAmCamera p"
| "encode (PDispatcher p) = Marshal_IAmDispatcher p"
| "encode (PPlate p) = Marshal_Plate p"

fun packet_fits :: "packet \<Rightarrow> bool" where
  "packet_fits (PDispatcher p) = (length (disp_Roads p) \<le> 255)"
| "packet_fits (PPlate p) = (length (plate_Plate p) \<le> 255)"
| "packet_fits _ = True"

lemma encode_not_Nil [simp]: "encode p \<noteq> []"
  by (cases p) (simp_all add: marshal_defs)

lemma read_encoded:
  assumes "packet_fits p"
  shows "io_bind (ReadByte conn_Read) read_body (conn_of (encode p @ r) ss e)
    = Some (Inr (Some p), conn_of r ss e)"
proof (cases p)
  case (PWantHeartbeat x)
  with want_heartbeat.unmarshal_body [of x r ss e] show ?thesis
    by (simp add: Marshal_WantHeartbeat_def read_body_def opcode_defs always_def)
next
  case (PCamera x)
  with camera.unmarshal_body [of x r ss e] show ?thesis
    by (simp add: Marshal_IAmCamera_def read_body_def opcode_defs always_def)
next
  case (PDispatcher x)
  with assms dispatcher.unmarshal_body [of x r ss e] show ?thesis
    by (simp add: Marshal_IAmDispatcher_def read_body_def opcode_defs roads_fit_def)
next
  case (PPlate x)
  with assms plate.unmarshal_body [of x r ss e] show ?thesis
    by (simp add: Marshal_Plate_def read_body_def opcode_defs plate_fits_def)
qed

lemma client_loop_packet:
  assumes "packet_fits p"
  shows "client_loop wr k (conn_of (encode p @ r) ss e)
    = Option.bind (client_loop wr k (conn_of r ss e)) (\<lambda>(ms, ws, err). Some (Packet p # ms, ws, err))"
  by (subst client_loop.simps) (simp add: read_encoded [OF assms])

lemma client_loop_packets:
  "\<forall>p \<in> set ps. packet_fits p \<Longrightarrow>
     client_loop wr k (conn_of (concat (map encode ps) @ r) ss e)
     = Option.bind (client_loop wr k (conn_of r ss e)) (\<lambda>(ms, ws, err). Some (map Packet ps @ ms, ws, err))"
proof (induction ps)
  case Nil
  then show ?case by (cases "client_loop wr k (conn_of r ss e)") auto
next
  case (Cons p ps)
  then show ?case
    by (cases "client_loop wr k (conn_of r ss e)") (auto simp: client_loop_packet)
qed

lemma client_loop_segments:
  assumes "\<forall>ps \<in> set pss. ps \<noteq> [] \<and> (\<forall>p \<in> set ps. packet_fits p)"
  shows "client_loop wr k \<lparr>segs = map (\<lambda>ps. concat (map encode ps)) pss, conn_end = e\<rparr>
    = Some (map Packet (concat pss), [], e)"
  using assms
proof (induction pss)
  case Nil
  then show ?case
    by (subst client_loop.simps) (simp add: ReadByte_def ReadN_def conn_Read_def io_bind_def)
next
  case (Cons ps pss)
  let ?rest = "map (\<lambda>ps. concat (map encode ps)) pss"
  have ne: "concat (map encode ps) \<noteq> []" using Cons.prems by (cases ps) auto
  then have "\<lparr>segs = map (\<lambda>ps. concat (map encode ps)) (ps # pss), conn_end = e\<rparr>
      = conn_of (concat (map encode ps) @ []) ?rest e" by (simp add: conn_of_def)
  moreover have "conn_of [] ?rest e = \<lparr>segs = ?rest, conn_end = e\<rparr>" by (simp add: conn_of_def)
  ultimately show ?case
    using Cons client_loop_packets [of ps wr k "[]" ?rest e] by simp
qed

section \<open>\<open>handleHeartbeath\<close>\<close>

text \<open>\<open>time.Duration(float64(interval) / 10.0 * float64(time.Second))\<close>, in nanoseconds\<close>

definition heartbeat_period :: "u32 \<Rightarrow> int" where
  "heartbeat_period interval =
     \<lfloor>float64 (float64 (of_nat (unat interval) / 10) * 1000000000)\<rfloor>"

text \<open>
  What the goroutine waits for: the cancellation of its context, or a tick, which comes with the
  outcome of the write it triggers. The result is what it writes before it returns.
\<close>

datatype hb_event = CtxDone | Tick nat "go_error option"

fun heartbeat_loop :: "hb_event list \<Rightarrow> bytes list" where
  "heartbeat_loop [] = []"
| "heartbeat_loop (CtxDone # es) = []"
| "heartbeat_loop (Tick n err # es) =
     (let data = Marshal_Heartbeat ()
      in data # (if err \<noteq> None then [] else if n \<noteq> length data then [] else heartbeat_loop es))"

lemma heartbeat_period_error:
  assumes "interval \<noteq> 0"
  shows "\<bar>heartbeat_period interval - int (unat interval) * 100000000\<bar> * 2 ^ 51
    \<le> 2 ^ 51 + int (unat interval) * 100000000"
proof -
  define i :: rat where "i = of_nat (unat interval)"
  define P where "P = fl 53 (fl 53 (i / 10) * 1000000000)"
  have "0 < unat interval" using assms by (simp add: unat_gt_0)
  then have i: "0 < i" unfolding i_def of_nat_0_less_iff .
  then have "0 < i / 10" by simp
  note a = fl_rel_bounds [OF this, of 53]
  have "0 < i / 10 - i / 10 / 2 ^ 53" using i by simp
  with a have "0 < fl 53 (i / 10) * 1000000000" by simp
  note b = fl_rel_bounds [OF this, of 53]
  have P: "P \<le> i * 100000000 + i * 100000000 / 2 ^ 51" "i * 100000000 - i * 100000000 / 2 ^ 51 \<le> P"
    using a b i unfolding P_def by (simp_all add: field_simps)
  have h: "heartbeat_period interval = \<lfloor>P\<rfloor>" by (simp add: heartbeat_period_def P_def i_def float64_def)
  have "of_int \<lfloor>P\<rfloor> \<le> P" "P < of_int \<lfloor>P\<rfloor> + 1" by linarith+
  with P have "\<bar>of_int \<lfloor>P\<rfloor> - i * 100000000\<bar> \<le> 1 + i * 100000000 / 2 ^ 51"
    by (intro abs_leI) linarith+
  then have "\<bar>of_int \<lfloor>P\<rfloor> - i * 100000000\<bar> * 2 ^ 51 \<le> (1 + i * 100000000 / 2 ^ 51) * 2 ^ 51"
    by (rule mult_right_mono) simp
  also have "\<dots> = 2 ^ 51 + i * 100000000" by (simp add: field_simps)
  finally have "\<bar>of_int \<lfloor>P\<rfloor> - i * 100000000\<bar> * 2 ^ 51 \<le> 2 ^ 51 + i * 100000000" .
  then have "(of_int (\<bar>\<lfloor>P\<rfloor> - int (unat interval) * 100000000\<bar> * 2 ^ 51) :: rat)
    \<le> of_int (2 ^ 51 + int (unat interval) * 100000000)" by (simp add: i_def)
  then show ?thesis unfolding h of_int_le_iff .
qed

end
