(* ===== verification/Traffic_Props.thy ===== *)
theory Traffic_Props
  imports Traffic_Run Traffic_Speed Traffic_Client
begin

text \<open>
  The properties of the traffic server: of its runs over messages whose peers announce themselves
  first (\<open>served\<close>), of the single handlers, and of the goroutines of its clients.
\<close>

section \<open>Facts about the runs of the server\<close>

abbreviation served :: "(peer_id \<times> tmsg) list \<Rightarrow> bool" where
  "served es \<equiv> announced {} es"

lemma served_run:
  assumes "served es"
  shows "\<exists>s os. traffic_run ovf es = Inr (s, os) \<and> traffic_inv s"
  using traffic_loop.run_ok [OF traffic_inv_init] assms by (simp add: traffic_conforming_iff)

lemma served_inv: "served es \<Longrightarrow> traffic_run ovf es = Inr (s, os) \<Longrightarrow> traffic_inv s"
  using served_run [of es ovf] by auto

lemma served_hist: "served es \<Longrightarrow> traffic_run ovf es = Inr (s, os) \<Longrightarrow> tickets_hist os s"
  using traffic_loop.run_hist [OF traffic_inv_init _ tickets_hist_init] by (simp add: traffic_conforming_iff)

text \<open>
  The contexts of heartbeats that have been made and not been cancelled, each with its peer and its
  interval; and the interval that a peer has asked for last, 0 if it has asked for none.
\<close>

fun contexts :: "effect list \<Rightarrow> (nat \<times> peer_id \<times> u32) set \<Rightarrow> (nat \<times> peer_id \<times> u32) set" where
  "contexts [] H = H"
| "contexts (StartHeartbeat n c i # os) H = contexts os (insert (n, c, i) H)"
| "contexts (CancelHeartbeat n # os) H = contexts os {x \<in> H. fst x \<noteq> n}"
| "contexts (Send c p # os) H = contexts os H"

fun wanted :: "u32 \<Rightarrow> tmsg list \<Rightarrow> u32" where
  "wanted i [] = i"
| "wanted i (Packet (PWantHeartbeat p) # ms) = wanted (wh_Interval p) ms"
| "wanted i (m # ms) = wanted i ms"

lemma contexts_append: "contexts (os @ os') H = contexts os' (contexts os H)"
  by (induction os H rule: contexts.induct) auto

lemma contexts_sends: "(\<forall>x \<in> set os. \<exists>c p. x = Send c p) \<Longrightarrow> contexts os H = H"
  by (induction os H rule: contexts.induct) auto

lemma register_roads_sends:
  "register_roads c roads s = (t, os) \<Longrightarrow> heartbeats t = heartbeats s \<and> (\<forall>x \<in> set os. \<exists>c p. x = Send c p)"
proof (induction roads arbitrary: s os)
  case Nil
  then show ?case by simp
next
  case (Cons road roads)
  then obtain s1 os1 os2 where r: "register_road c road s = (s1, os1)"
    and rs: "register_roads c roads s1 = (t, os2)" and os: "os = os1 @ os2" by (auto split: prod.splits)
  from r have "heartbeats s1 = heartbeats s \<and> (\<forall>x \<in> set os1. \<exists>c p. x = Send c p)"
    by (auto simp: register_road_def Let_def sendTicket_def split: if_splits)
  with Cons.IH [OF rs] os show ?case by auto
qed

lemma handle_Plate_sends:
  assumes "traffic_inv s" and "handle_Plate ovf s c p = Inr (t, os)"
  shows "heartbeats t = heartbeats s \<and> (\<forall>x \<in> set os. \<exists>c p. x = Send c p)"
  using handle_Plate_spec [OF assms(1), of ovf c p] assms(2)
  by (fastforce simp: plate_step_def same_but_tickets_def no_issue_def issues_def sendTicket_def
      split: if_splits)

text \<open>The contexts \<open>H\<close> of the peer \<open>c\<close>, who has asked for the interval \<open>w\<close>.\<close>

definition contexts_ok :: "peer_id \<Rightarrow> (nat \<times> peer_id \<times> u32) set \<Rightarrow> u32 \<Rightarrow> traffic \<Rightarrow> bool" where
  "contexts_ok c H w s \<longleftrightarrow>
     {(n, i). (n, c, i) \<in> H} = (case heartbeats s c of None \<Rightarrow> {} | Some n \<Rightarrow> {(n, w)})
   \<and> (heartbeats s c = None \<longleftrightarrow> w = 0)"

lemma contexts_ok_iff:
  "contexts_ok c H w s \<longleftrightarrow> (\<forall>n i. (n, c, i) \<in> H \<longleftrightarrow> heartbeats s c = Some n \<and> i = w) \<and> (heartbeats s c = None \<longleftrightarrow> w = 0)"
  by (auto simp: contexts_ok_def set_eq_iff split: option.splits)

lemma contexts_ok_sends:
  "contexts_ok c H w s \<Longrightarrow> heartbeats t c = heartbeats s c \<Longrightarrow> \<forall>x \<in> set os. \<exists>c p. x = Send c p \<Longrightarrow>
     contexts_ok c (contexts os H) w t"
  by (simp add: contexts_ok_def contexts_sends)

lemma contexts_ok_want:
  assumes "heartbeats_inv s" and "contexts_ok c H w s" and "handle_WantHeartbeat s d p = (t, os)"
  shows "contexts_ok c (contexts os H) (if d = c then wh_Interval p else w) t"
proof -
  have n: "heartbeats s c \<noteq> Some (hb_next s)" using assms(1) by (auto simp: heartbeats_inv_def)
  have u: "heartbeats s d = Some m \<Longrightarrow> heartbeats s c = Some m \<Longrightarrow> d = c" for m
    using assms(1) by (auto simp: heartbeats_inv_def)
  show ?thesis
    using assms(2,3) n u
    by (cases "d = c"; cases "heartbeats s d"; cases "wh_Interval p = 0")
      (auto simp: handle_WantHeartbeat_def Let_def contexts_ok_iff)
qed

lemma step_contexts:
  assumes "traffic_inv s" and "contexts_ok c H w s" and "traffic_step ovf s (d, m) = Inr (t, os)"
    and "d = c \<Longrightarrow> m \<noteq> Disconnected"
  shows "contexts_ok c (contexts os H) (if d = c then wanted w [m] else w) t"
proof -
  note same = contexts_ok_sends [OF assms(2)]
  show ?thesis
  proof (cases m)
    case (Packet p)
    show ?thesis
    proof (cases p)
      case (PWantHeartbeat x)
      with Packet assms(3) have "handle_WantHeartbeat s d x = (t, os)" by simp
      from contexts_ok_want [OF _ assms(2) this] assms(1)
      have "contexts_ok c (contexts os H) (if d = c then wh_Interval x else w) t" by (simp add: traffic_inv_def)
      then show ?thesis unfolding Packet PWantHeartbeat wanted.simps .
    next
      case (PCamera x)
      with Packet assms(3) show ?thesis
        by (simp, intro same) (auto simp: handle_IAmCamera_def write_error_def split: if_splits)
    next
      case (PPlate x)
      with Packet assms(3) have "handle_Plate ovf s d x = Inr (t, os)" by simp
      from handle_Plate_sends [OF assms(1) this] Packet PPlate show ?thesis by (simp, intro same) auto
    next
      case (PDispatcher x)
      with Packet assms(3) have "handle_IAmDispatcher s d x = (t, os)" by simp
      then show ?thesis
        by (simp add: Packet PDispatcher, intro same)
          (auto simp: handle_IAmDispatcher_def write_error_def split: if_splits dest!: register_roads_sends)
    qed
  next
    case Disconnected
    have "heartbeats (handle_disconnected s d) = (heartbeats s)(d := None)"
      by (simp add: handle_disconnected_def Let_def)
    with Disconnected assms(2-4) show ?thesis by (auto simp: contexts_ok_def)
  qed (use assms in \<open>auto simp: contexts_ok_def\<close>)
qed

lemma wanted_Cons: "wanted i (m # ms) = wanted (wanted i [m]) ms"
  by (cases "(i, [m])" rule: wanted.cases) simp_all

lemma run_contexts:
  "traffic_inv s \<Longrightarrow> contexts_ok c H w s \<Longrightarrow> conforming (traffic_step ovf) traffic_enabled s es \<Longrightarrow>
   Disconnected \<notin> set (messages_of c es) \<Longrightarrow> run (traffic_step ovf) s es = Inr (t, os) \<Longrightarrow>
   contexts_ok c (contexts os H) (wanted w (messages_of c es)) t"
proof (induction es arbitrary: s H w os)
  case (Cons e es)
  obtain d m where e: "e = (d, m)" by (cases e)
  with Cons.prems(3) have "traffic_enabled s (d, m)" by simp
  from traffic_step_ok [OF Cons.prems(1) this, of ovf] obtain s1 o1
    where 1: "traffic_step ovf s (d, m) = Inr (s1, o1)" "traffic_inv s1" by blast
  with Cons.prems(5) e obtain o2 where 2: "run (traffic_step ovf) s1 es = Inr (t, o2)" "os = o1 @ o2"
    by (auto split: sum.splits)
  have "conforming (traffic_step ovf) traffic_enabled s1 es" using Cons.prems(3) e 1(1) by simp
  moreover have "d = c \<Longrightarrow> m \<noteq> Disconnected" "Disconnected \<notin> set (messages_of c es)"
    using Cons.prems(4) e by (auto split: if_splits)
  ultimately have "contexts_ok c (contexts os H) (wanted (if d = c then wanted w [m] else w) (messages_of c es)) t"
    using Cons.IH [OF 1(2) step_contexts [OF Cons.prems(1,2) 1(1)] _ _ 2(1)] 2(2)
    by (simp add: contexts_append)
  moreover have "wanted w (messages_of c ((d, m) # es)) = wanted (if d = c then wanted w [m] else w) (messages_of c es)"
    by (simp del: wanted.simps) (rule impI, rule wanted_Cons)
  ultimately show ?case unfolding e by (simp only:)
qed simp


section \<open>An example run\<close>

text \<open>
  Two cameras on road 123 with a limit of 60, at miles 8 and 9, and a dispatcher for the road; a
  car passes them within 45 seconds, which is 80 miles per hour.
\<close>

definition ex_camera :: "u16 \<Rightarrow> IAmCameraPacket" where
  "ex_camera mile = \<lparr>cam_Road = 123, cam_Mile = mile, cam_Limit = 60\<rparr>"

definition ex_plate :: "u32 \<Rightarrow> PlatePacket" where
  "ex_plate ts = \<lparr>plate_Plate = ''UN1X'', plate_Timestamp = ts\<rparr>"

definition ex_messages :: "(peer_id \<times> tmsg) list" where
  "ex_messages = [(1, Connected), (1, Packet (PCamera (ex_camera 8))), (2, Connected),
     (2, Packet (PCamera (ex_camera 9))), (1, Packet (PPlate (ex_plate 0)))]"

lemmas ex_defs = ex_camera_def ex_plate_def ex_messages_def

definition ex_state :: traffic where
  "ex_state = traffic_init\<lparr>clients := {1, 2}, cameras := [1 \<mapsto> ex_camera 8, 2 \<mapsto> ex_camera 9],
     plateReadings := [''UN1X'' \<mapsto> [sighting (ex_camera 8) (ex_plate 0)]]\<rparr>"

lemma ex_simps [simp]:
  "plate_Plate (ex_plate n) = ''UN1X''" "plate_Timestamp (ex_plate n) = n"
  "cam_Road (ex_camera m) = 123" "cam_Mile (ex_camera m) = m" "cam_Limit (ex_camera m) = 60"
  "cameras ex_state = [1 \<mapsto> ex_camera 8, 2 \<mapsto> ex_camera 9]" "dayPlates ex_state = Map.empty"
  "lookup_list (plateReadings ex_state) ''UN1X'' = [sighting (ex_camera 8) (ex_plate 0)]"
  "road_dispatchers ex_state = Map.empty" "tickets ex_state = Map.empty" "dispatchers ex_state = Map.empty"
  by (simp_all add: ex_defs ex_state_def traffic_init_def lookup_list_def)

lemma ex_served: "served ex_messages"
  by (simp add: ex_messages_def)

lemma ex_run: "traffic_run ovf ex_messages = Inr (ex_state, [])"
  by (simp add: ex_defs ex_state_def handle_IAmCamera_def handle_Plate_camera ticketed_def
      traffic_init_def add_reading_def sighting_def insert_commute)

lemma ex_speed: "speed_of 1 45 = 80"
proof -
  have "float32 (of_nat (unat ((1 :: u32) * 3600))) = 3600" "float32 (of_nat (unat (45 :: u32))) = 45"
    using fl_of_nat [of 3600 24] fl_of_nat [of 45 24] by (simp_all add: float32_def)
  moreover have "float32 (3600 / 45) = 80" using fl_of_nat [of 80 24] by (simp add: float32_def)
  ultimately show ?thesis by (simp add: speed_of_def)
qed

definition ex_ticket :: "u32 \<Rightarrow> TicketPacket" where
  "ex_ticket ts = \<lparr>t_Plate = ''UN1X'', t_Road = 123, t_Mile1 = 8, t_Timestamp1 = ts, t_Mile2 = 9,
     t_Timestamp2 = ts + 45, t_Speed = 8000\<rparr>"

lemma ex_check:
  assumes "ts < ts + 45" and "day_of (ts + 45) = day_of ts"
  shows "check_pair ovf dp (ex_camera 9) (sighting (ex_camera 9) (ex_plate (ts + 45)))
     (sighting (ex_camera 8) (ex_plate ts))
    = (if ticketed dp (day_of ts) ''UN1X'' then None else Some (ex_ticket ts, day_of ts, day_of ts, 123))"
proof -
  have o: "in_order (sighting (ex_camera 9) (ex_plate (ts + 45))) (sighting (ex_camera 8) (ex_plate ts))
      = (sighting (ex_camera 8) (ex_plate ts), sighting (ex_camera 9) (ex_plate (ts + 45)))"
    using assms(1) by (simp add: in_order_def)
  have d: "distance_of (sighting (ex_camera 8) (ex_plate ts)) (sighting (ex_camera 9) (ex_plate (ts + 45))) = 1"
    by (simp add: distance_of_def)
  have l: "float32 60 = 60" "float32 8000 = 8000"
    using fl_of_nat [of 60 24] fl_of_nat [of 8000 24] by (simp_all add: float32_def)
  have e: "(\<forall>x. a \<le> x \<longrightarrow> x \<le> a \<longrightarrow> P x) \<longleftrightarrow> P a" for a :: int and P by (auto dest: order_antisym)
  from l assms show ?thesis
    by (subst check_pair_cases [OF o], unfold over_limit_def ticket_for_def d)
      (simp add: ex_speed ex_ticket_def uint16_of_float_def e)
qed

text \<open>The states after each of the next reports, and the end of the run, when a dispatcher comes.\<close>

abbreviation ex_after :: "PlateInfo list \<Rightarrow> TicketPacket list \<Rightarrow> (int \<rightharpoonup> string set) \<Rightarrow> traffic" where
  "ex_after rs ts dp \<equiv> ex_state\<lparr>plateReadings := [''UN1X'' \<mapsto> rs], tickets := [123 \<mapsto> ts], dayPlates := dp\<rparr>"

lemma ex_step1: "handle_Plate ovf ex_state 2 (ex_plate 45)
    = Inr (ex_after [sighting (ex_camera 9) (ex_plate 45)] [ex_ticket 0] [0 \<mapsto> {''UN1X''}], [])"
  by (subst handle_Plate_camera [of _ _ "ex_camera 9"])
    (use ex_check [of 0 ovf Map.empty] in
      \<open>simp_all add: ticketed_def day_of_div issue_ticket_def dispatch_ticket_def Let_def clean_plate_def
        add_reading_def clean_readings.simps remove_at_def ex_ticket_def ex_state_def traffic_init_def\<close>)

lemmas ex_eval = ticketed_def day_of_div issue_ticket_def dispatch_ticket_def Let_def clean_plate_def
  add_reading_def clean_readings.simps remove_at_def ex_state_def traffic_init_def

lemma ex_step2: "handle_Plate ovf (ex_after [sighting (ex_camera 9) (ex_plate 45)] [ex_ticket 0] [0 \<mapsto> {''UN1X''}])
      1 (ex_plate 86400)
    = Inr (ex_after [sighting (ex_camera 8) (ex_plate 86400)] [ex_ticket 0] [0 \<mapsto> {''UN1X''}], [])"
proof -
  have o: "in_order (sighting (ex_camera 8) (ex_plate 86400)) (sighting (ex_camera 9) (ex_plate 45))
      = (sighting (ex_camera 9) (ex_plate 45), sighting (ex_camera 8) (ex_plate 86400))"
    by (simp add: in_order_def)
  have c: "check_pair ovf [0 \<mapsto> {''UN1X''}] (ex_camera 8) (sighting (ex_camera 8) (ex_plate 86400))
      (sighting (ex_camera 9) (ex_plate 45)) = None"
    by (subst check_pair_cases [OF o]) (auto simp: ticketed_def day_of_div)
  show ?thesis
    by (subst handle_Plate_camera [of _ _ "ex_camera 8"]) (simp_all add: c ex_eval)
qed

lemma ex_step3: "handle_Plate ovf (ex_after [sighting (ex_camera 8) (ex_plate 86400)] [ex_ticket 0] [0 \<mapsto> {''UN1X''}])
      2 (ex_plate 86445)
    = Inr (ex_after [sighting (ex_camera 9) (ex_plate 86445)] [ex_ticket 0, ex_ticket 86400]
        [0 \<mapsto> {''UN1X''}, 1 \<mapsto> {''UN1X''}], [])"
  by (subst handle_Plate_camera [of _ _ "ex_camera 9"])
    (use ex_check [of 86400 ovf "[0 \<mapsto> {''UN1X''}]"] in \<open>simp_all add: ex_eval ex_ticket_def\<close>)

definition ex_messages2 :: "(peer_id \<times> tmsg) list" where
  "ex_messages2 = [(2, Packet (PPlate (ex_plate 45))), (1, Packet (PPlate (ex_plate 86400))),
     (2, Packet (PPlate (ex_plate 86445))), (3, Connected), (3, Packet (PDispatcher \<lparr>disp_Roads = [123]\<rparr>))]"

lemma ex_served2: "served (ex_messages @ ex_messages2)"
  by (simp add: ex_messages_def ex_messages2_def)

lemma ex_run2: "\<exists>s. traffic_run ovf (ex_messages @ ex_messages2)
    = Inr (s, [sendTicket 3 (ex_ticket 0), sendTicket 3 (ex_ticket 86400)])"
  by (simp add: run_append ex_run, simp add: ex_messages2_def ex_step1 ex_step2 ex_step3)
    (simp add: handle_IAmDispatcher_def register_road_def Let_def ex_state_def traffic_init_def)

lemma ex_queue: "\<exists>s. traffic_run ovf (ex_messages @ take 1 ex_messages2) = Inr (s, []) \<and> queue s 123 = [ex_ticket 0]"
  by (simp add: run_append ex_run, simp add: ex_messages2_def ex_step1)

section \<open>Properties of the runs\<close>

text \<open>
  C26: No message sequence makes the server panic: whatever packets its clients send, in whatever
  order they arrive, every message is handled, as long as the first message of each peer is the
  one that announces its connection. In the state reached no peer is a camera and a dispatcher.
\<close>

theorem traffic_never_panics:
  assumes "served es"
  shows "\<exists>s os. traffic_run ovf es = Inr (s, os) \<and> dom (cameras s) \<inter> dom (dispatchers s) = {}"
  using served_run [OF assms, of ovf] by (auto simp: traffic_inv_def roles_inv_def)

theorem traffic_never_panics_witness:
  "\<exists>s os. traffic_run (\<lambda>x. 0) ex_messages = Inr (s, os) \<and> dom (cameras s) \<inter> dom (dispatchers s) = {}"
  by (rule traffic_never_panics [OF ex_served])

text \<open>
  C1: Nobody is ticketed twice for a day: of two tickets the server has sent, at whatever time and
  to whatever dispatchers, no day is covered by both if they are for the same plate.
\<close>

theorem no_double_tickets:
  assumes "served es" and "traffic_run ovf es = Inr (s, os)"
    and "i < j" and "j < length (sent_tickets os)"
    and "t_Plate (sent_tickets os ! i) = t_Plate (sent_tickets os ! j)"
  shows "\<not> (covers (sent_tickets os ! i) d \<and> covers (sent_tickets os ! j) d)"
proof -
  have "apart (sent_tickets os)" using served_hist [OF assms(1,2)] by (simp add: tickets_hist_def)
  from sorted_wrt_nth_less [OF this assms(3,4)]
  have "\<not> clash (sent_tickets os ! i) (sent_tickets os ! j)" .
  with assms(5) show ?thesis by (auto simp: clash_def)
qed

theorem no_double_tickets_witness:
  "\<exists>os. sent_tickets os = [ex_ticket 0, ex_ticket 86400]
    \<and> \<not> (covers (sent_tickets os ! 0) 0 \<and> covers (sent_tickets os ! 1) 0)"
proof -
  obtain s where r: "traffic_run (\<lambda>x. 0) (ex_messages @ ex_messages2)
      = Inr (s, [sendTicket 3 (ex_ticket 0), sendTicket 3 (ex_ticket 86400)])" (is "_ = Inr (s, ?os)")
    using ex_run2 by blast
  have t: "sent_tickets ?os = [ex_ticket 0, ex_ticket 86400]" by (simp add: sendTicket_def)
  have "\<not> (covers (sent_tickets ?os ! 0) 0 \<and> covers (sent_tickets ?os ! 1) 0)"
    by (rule no_double_tickets [OF ex_served2 r]) (simp_all only: t, simp_all add: ex_ticket_def)
  with t show ?thesis by blast
qed

text \<open>
  C16: A ticket waits in the queue of its road only while no dispatcher is responsible for that
  road.
\<close>

theorem queued_tickets_wait:
  assumes "served es" and "traffic_run ovf es = Inr (s, os)" and "tk \<in> set (queue s r)"
    and "dispatchers s c = Some p"
  shows "t_Road tk = r \<and> r \<notin> set (disp_Roads p)"
proof -
  have inv: "roads_inv s" using served_inv [OF assms(1,2)] by (simp add: traffic_inv_def)
  have "queue s r \<noteq> []" using assms(3) by auto
  with inv have "members_on s r = {}" by (auto simp: roads_inv_def)
  then have "c \<notin> roads_of (dispatchers s) r" using inv by (auto simp: roads_inv_def)
  moreover have "t_Road tk = r" using inv assms(3) by (auto simp: roads_inv_def)
  ultimately show ?thesis using assms(4) by (auto simp: roads_of_def)
qed

theorem queued_tickets_wait_witness:
  "\<exists>s. queue s 123 = [ex_ticket 0] \<and> t_Road (ex_ticket 0) = 123 \<and> (123 :: u16) \<notin> set [7]"
proof -
  have "served (ex_messages @ take 1 ex_messages2 @ [(3, Connected), (3, Packet (PDispatcher \<lparr>disp_Roads = [7]\<rparr>))])"
    (is "served ?es") by (simp add: ex_messages_def ex_messages2_def)
  moreover obtain s where "traffic_run (\<lambda>x. 0) ?es = Inr (s, [])" "queue s 123 = [ex_ticket 0]"
      "dispatchers s 3 = Some \<lparr>disp_Roads = [7]\<rparr>"
    by (simp add: run_append ex_run, simp add: ex_messages2_def ex_step1)
      (simp add: handle_IAmDispatcher_def register_road_def Let_def ex_state_def traffic_init_def)
  ultimately show ?thesis using queued_tickets_wait [of ?es "\<lambda>x. 0" s "[]" "ex_ticket 0" 123 3]
    by force
qed

text \<open>
  C7: Every ticket is deserved: when a plate report makes the server send or queue a ticket, the
  reporting peer is a camera, the ticket states this report and an earlier sighting of the same
  plate on the road, the earlier observation first, and the average speed between them is above
  the limit of the camera, up to a part in \<open>2 ^ 23\<close>, in exact arithmetic.
\<close>

theorem tickets_are_deserved:
  assumes "served es" and "traffic_run ovf es = Inr (s, os)"
    and "handle_Plate ovf s c p = Inr (t, os')"
    and "tk \<in> set (sent_tickets os') \<or> (tk \<in> set (queue t r) \<and> tk \<notin> set (queue s r))"
  shows "\<exists>camera old. cameras s c = Some camera \<and> old \<in> set (sightings_of s (plate_Plate p))
    \<and> {obs1 tk, obs2 tk} = {sighting camera p, old} \<and> t_Timestamp1 tk < t_Timestamp2 tk
    \<and> unat (cam_Limit camera) * unat (t_Timestamp2 tk - t_Timestamp1 tk) * (2 ^ 24 - 1)
      < 3600 * unat (distance_of (obs1 tk) (obs2 tk)) * (2 ^ 24 + 1)"
proof -
  have inv: "traffic_inv s" by (rule served_inv [OF assms(1,2)])
  from handle_Plate_spec [OF inv, of ovf c p] assms(3)
  consider "no_issue s t os'" | tk' camera old where "issues s tk' t os'" "cameras s c = Some camera"
    "old \<in> set (sightings_of s (plate_Plate p))" "{obs1 tk', obs2 tk'} = {sighting camera p, old}"
    "t_Timestamp1 tk' < t_Timestamp2 tk'" "over_limit (cam_Limit camera) (obs1 tk') (obs2 tk')"
    by auto
  then show ?thesis
  proof cases
    case 1
    then have "sent_tickets os' = []" "queue t r = queue s r" by (simp_all add: no_issue_def sent_tickets_none)
    with assms(4) show ?thesis by simp
  next
    case 2
    have "tk = tk'"
      using assms(4) 2(1) by (auto simp: issues_def split: if_splits)
    have "t_Timestamp2 tk' - t_Timestamp1 tk' \<noteq> 0" using 2(5) by auto
    moreover have lim: "unat (cam_Limit camera) < 65536"
      using unsigned_less [of "cam_Limit camera"] by simp
    ultimately have "unat (cam_Limit camera) * unat (t_Timestamp2 tk' - t_Timestamp1 tk') * (2 ^ 24 - 1)
      < 3600 * unat (distance_of (obs1 tk') (obs2 tk')) * (2 ^ 24 + 1)"
      using 2(6) lim by (intro speed_over_limit) (simp_all add: over_limit_def obs1_def obs2_def float32_limit del: of_nat_unat)
    with 2 \<open>tk = tk'\<close> show ?thesis by blast
  qed
qed


theorem tickets_are_deserved_witness:
  "\<exists>camera. cameras ex_state 2 = Some camera
    \<and> unat (cam_Limit camera) * unat (45 :: u32) * (2 ^ 24 - 1)
      < 3600 * unat (distance_of (obs1 (ex_ticket 0)) (obs2 (ex_ticket 0))) * (2 ^ 24 + 1)"
  using tickets_are_deserved [OF ex_served ex_run ex_step1, where tk = "ex_ticket 0" and r = 123]
  by (force simp: ex_ticket_def)

lemma sent_tickets_Send: "Send d (OutTicket tk) \<in> set os \<Longrightarrow> tk \<in> set (sent_tickets os)"
  by (induction os rule: sent_tickets.induct) auto

text \<open>The first occurrences of the elements of a list, in order.\<close>

definition firsts :: "'a list \<Rightarrow> 'a list" where
  "firsts xs = rev (remdups (rev xs))"

lemma firsts_Nil [simp]: "firsts [] = []"
  by (simp add: firsts_def)

lemma firsts_Cons [simp]: "firsts (x # xs) = x # filter (\<lambda>y. y \<noteq> x) (firsts xs)"
proof -
  have "remdups (ys @ [x]) = filter (\<lambda>y. y \<noteq> x) (remdups ys) @ [x]" for ys
    by (induction ys) auto
  then show ?thesis by (simp add: firsts_def rev_filter [symmetric])
qed

lemma set_firsts [simp]: "set (firsts xs) = set xs"
  by (simp add: firsts_def)

lemma firsts_distinct: "distinct xs \<Longrightarrow> firsts xs = xs"
  by (simp add: firsts_def distinct_remdups_id)

lemma register_roads_sent:
  assumes "register_roads c roads s = (t, os)" and "balancers_ok (clients s) (road_dispatchers s)"
    and "c \<in> clients s"
  shows "os = map (sendTicket c) (concat (map (queue s) (firsts roads)))"
  using assms
proof (induction roads arbitrary: s os)
  case Nil
  then show ?case by simp
next
  case (Cons road roads)
  from Cons.prems(1) obtain s1 os1 os2 where r: "register_road c road s = (s1, os1)"
    and rs: "register_roads c roads s1 = (t, os2)" and os: "os = os1 @ os2" by (auto split: prod.splits)
  note one = register_road_spec [OF r Cons.prems(2,3)]
  have c1: "c \<in> clients s1" using one(1) Cons.prems(3) by (simp add: same_but_roads_def)
  have q: "concat (map (queue s1) rs) = concat (map (queue s) (filter (\<lambda>y. y \<noteq> road) rs))" for rs
    by (induction rs) (simp_all add: one(4))
  show ?case
    using Cons.IH [OF rs one(2) c1] one(5) by (simp add: os q)
qed

lemma register_dispatcher:
  assumes "traffic_inv s" and "c \<in> clients s" and "cameras s c = None" and "dispatchers s c = None"
    and "handle_IAmDispatcher s c p = (t, os)"
  shows "os = map (sendTicket c) (concat (map (queue s) (firsts (disp_Roads p))))"
    and "dispatchers t = (dispatchers s)(c \<mapsto> p)"
    and "queue t r = (if r \<in> set (disp_Roads p) then [] else queue s r)"
proof -
  let ?s = "s\<lparr>dispatchers := (dispatchers s)(c \<mapsto> p)\<rparr>"
  have h: "register_roads c (disp_Roads p) ?s = (t, os)"
    using assms(3-5) by (simp add: handle_IAmDispatcher_def)
  have b: "balancers_ok (clients ?s) (road_dispatchers ?s)" "c \<in> clients ?s"
    using assms(1,2) by (simp_all add: traffic_inv_def roads_inv_def)
  show "os = map (sendTicket c) (concat (map (queue s) (firsts (disp_Roads p))))"
    using register_roads_sent [OF h b] by simp
  show "dispatchers t = (dispatchers s)(c \<mapsto> p)" "queue t r = (if r \<in> set (disp_Roads p) then [] else queue s r)"
    using register_roads_spec [OF h b] by (simp_all add: same_but_roads_def)
qed

text \<open>
  C6: A speeding car is ticketed: when a camera reports a plate that was sighted before on its
  road, the average speed between the two observations is at least 1/64 mile per hour above the
  limit of the camera, and no day from the first to the second observation has a ticket for the
  plate, then the server sends a ticket for this plate that covers the day of the report to a
  dispatcher responsible for the road or, when there is none, queues it for the road.
\<close>

theorem speeding_is_ticketed:
  assumes "served es" and "traffic_run ovf es = Inr (s, os)" and "cameras s c = Some camera"
    and "old \<in> set (sightings_of s (plate_Plate p))" and "pi_Road old = cam_Road camera"
    and "in_order (sighting camera p) old = (a, b)" and "pi_Timestamp a \<noteq> pi_Timestamp b"
    and "(64 * unat (cam_Limit camera) + 1) * unat (pi_Timestamp b - pi_Timestamp a)
      \<le> 64 * (3600 * unat (distance_of a b))"
    and "\<forall>d. day_of (pi_Timestamp a) \<le> d \<and> d \<le> day_of (pi_Timestamp b) \<longrightarrow>
      \<not> ticketed (dayPlates s) d (plate_Plate p)"
  shows "\<exists>tk t os'. handle_Plate ovf s c p = Inr (t, os') \<and> t_Plate tk = plate_Plate p
    \<and> t_Road tk = cam_Road camera \<and> covers tk (day_of (plate_Timestamp p))
    \<and> ((\<exists>d q. os' = [sendTicket d tk] \<and> dispatchers s d = Some q \<and> cam_Road camera \<in> set (disp_Roads q))
       \<or> (os' = [] \<and> queue t (cam_Road camera) = queue s (cam_Road camera) @ [tk]))"
proof -
  have inv: "traffic_inv s" by (rule served_inv [OF assms(1,2)])
  note ab = in_order_cases [OF assms(6)] in_order_le [OF assms(6)]
  have pl: "pi_Plate a = plate_Plate p" "pi_Plate b = plate_Plate p" "pi_Road a = pi_Road b"
    using ab inv assms(4,5) by (auto simp: traffic_inv_def readings_inv_def)
  have day: "\<not> ticketed (dayPlates s) (day_of (plate_Timestamp p)) (plate_Plate p)"
    using assms(9) ab day_of_mono [OF ab(2)] by auto
  have "pi_Timestamp b - pi_Timestamp a \<noteq> 0" using assms(7) by auto
  moreover have lim: "unat (cam_Limit camera) < 65536" using unsigned_less [of "cam_Limit camera"] by simp
  ultimately have "of_nat (unat (cam_Limit camera)) < speed_of (distance_of a b) (pi_Timestamp b - pi_Timestamp a)"
    by (rule speed_enough [OF _ _ assms(8)])
  moreover have "distance_of a b \<noteq> 0"
  proof
    assume "distance_of a b = 0"
    with assms(8) have "unat (pi_Timestamp b - pi_Timestamp a) = 0" by simp
    with \<open>pi_Timestamp b - pi_Timestamp a \<noteq> 0\<close> show False by (simp add: unat_eq_0)
  qed
  ultimately have "over_limit (cam_Limit camera) a b" by (simp add: over_limit_def float32_limit del: of_nat_unat)
  then have "check_pair ovf (dayPlates s) camera (sighting camera p) old \<noteq> None"
    using assms(7,9) pl by (simp add: check_pair_cases [OF assms(6)])
  then obtain q where q: "scan_sightings ovf (dayPlates s) camera (sighting camera p)
      (sightings_of s (plate_Plate p)) = Some q"
    using assms(4) scan_sightings_None by (metis option.exhaust)
  from handle_Plate_issues [OF inv assms(3) day q] obtain t os' tk o2 where t: "handle_Plate ovf s c p = Inr (t, os')"
    "issues s tk t os'" "t_Road tk = cam_Road camera" "t_Plate tk = plate_Plate p"
    "{obs1 tk, obs2 tk} = {sighting camera p, o2}" "t_Timestamp1 tk < t_Timestamp2 tk" by blast
  from t(5) have "t_Timestamp1 tk = plate_Timestamp p \<or> t_Timestamp2 tk = plate_Timestamp p"
    by (auto simp: doubleton_eq_iff obs1_def obs2_def sighting_def)
  with t(6) have "covers tk (day_of (plate_Timestamp p))"
    using day_of_mono [of "t_Timestamp1 tk" "t_Timestamp2 tk"] by (auto simp: covers_def)
  moreover have "members_on s r = roads_of (dispatchers s) r" for r
    using inv by (simp add: traffic_inv_def roads_inv_def)
  with t(2,3) have "(\<exists>d q. os' = [sendTicket d tk] \<and> dispatchers s d = Some q \<and> cam_Road camera \<in> set (disp_Roads q))
       \<or> (os' = [] \<and> queue t (cam_Road camera) = queue s (cam_Road camera) @ [tk])"
    by (auto simp: issues_def roads_of_def split: if_splits)
  ultimately show ?thesis using t by blast
qed


theorem speeding_is_ticketed_witness:
  "\<exists>tk t os'. handle_Plate (\<lambda>x. 0) ex_state 2 (ex_plate 45) = Inr (t, os') \<and> t_Plate tk = plate_Plate (ex_plate 45)
    \<and> t_Road tk = cam_Road (ex_camera 9) \<and> covers tk (day_of (plate_Timestamp (ex_plate 45)))
    \<and> ((\<exists>d q. os' = [sendTicket d tk] \<and> dispatchers ex_state d = Some q \<and> cam_Road (ex_camera 9) \<in> set (disp_Roads q))
       \<or> (os' = [] \<and> queue t (cam_Road (ex_camera 9)) = queue ex_state (cam_Road (ex_camera 9)) @ [tk]))"
  by (rule speeding_is_ticketed [OF ex_served ex_run, where old = "sighting (ex_camera 8) (ex_plate 0)"
        and a = "sighting (ex_camera 8) (ex_plate 0)" and b = "sighting (ex_camera 9) (ex_plate 45)"])
    (simp_all add: in_order_def distance_of_def ticketed_def)

text \<open>
  C14: Whatever message makes the server send a ticket, the ticket goes to a peer that has
  registered, as a dispatcher, the road of the ticket.
\<close>

theorem tickets_reach_the_road:
  assumes "served es" and "traffic_run ovf es = Inr (s, os)" and "traffic_enabled s e"
    and "traffic_step ovf s e = Inr (t, os')" and "Send d (OutTicket tk) \<in> set os'"
  shows "\<exists>q. dispatchers t d = Some q \<and> t_Road tk \<in> set (disp_Roads q)"
proof -
  have inv: "traffic_inv s" by (rule served_inv [OF assms(1,2)])
  obtain c m where e: "e = (c, m)" by (cases e)
  show ?thesis
  proof (cases m)
    case (Packet p)
    show ?thesis
    proof (cases p)
      case (PWantHeartbeat x)
      with e Packet assms(4,5) show ?thesis
        by (auto simp: handle_WantHeartbeat_def Let_def split: option.splits if_splits)
    next
      case (PCamera x)
      with e Packet assms(4,5) show ?thesis
        by (auto simp: handle_IAmCamera_def write_error_def split: if_splits)
    next
      case (PPlate x)
      with e Packet assms(4) handle_Plate_spec [OF inv, of ovf c x]
      have st: "plate_step s t" and "no_issue s t os' \<or> (\<exists>tk. issues s tk t os')" by auto
      with assms(5) have "d \<in> members_on s (t_Road tk)"
        by (fastforce simp: no_issue_def issues_def sendTicket_def split: if_splits)
      moreover have "members_on s (t_Road tk) = roads_of (dispatchers t) (t_Road tk)"
        using inv st by (simp add: traffic_inv_def roads_inv_def plate_step_def same_but_tickets_def)
      ultimately show ?thesis by (auto simp: roads_of_def)
    next
      case (PDispatcher x)
      with e Packet assms(3,4) have h: "handle_IAmDispatcher s c x = (t, os')" and c: "c \<in> clients s" by simp_all
      show ?thesis
      proof (cases "dispatchers s c \<noteq> None \<or> cameras s c \<noteq> None")
        case True
        with h assms(5) show ?thesis by (auto simp: handle_IAmDispatcher_def write_error_def split: if_splits)
      next
        case False
        then have none: "cameras s c = None" "dispatchers s c = None" by simp_all
        note reg = register_dispatcher [OF inv c none h]
        from reg(1) assms(5) obtain r where "r \<in> set (disp_Roads x)" "tk \<in> set (queue s r)" "d = c"
          by (auto simp: sendTicket_def)
        moreover have "t_Road tk = r"
          using inv \<open>tk \<in> set (queue s r)\<close> by (auto simp: traffic_inv_def roads_inv_def)
        ultimately show ?thesis by (simp add: reg(2))
      qed
    qed
  qed (use e assms(4,5) in auto)
qed


definition ex_dispatcher :: IAmDispatcherPacket where
  "ex_dispatcher = \<lparr>disp_Roads = [7, 123, 7]\<rparr>"

definition ex_state3 :: traffic where
  "ex_state3 = (ex_after [sighting (ex_camera 9) (ex_plate 86445)] [ex_ticket 0, ex_ticket 86400]
        [0 \<mapsto> {''UN1X''}, 1 \<mapsto> {''UN1X''}])\<lparr>clients := {1, 2, 3}\<rparr>"

definition ex_messages3 :: "(peer_id \<times> tmsg) list" where
  "ex_messages3 = ex_messages @ take 4 ex_messages2"

lemma ex_served3: "served ex_messages3"
  by (simp add: ex_messages3_def ex_messages_def ex_messages2_def)

lemma ex_run3: "traffic_run ovf ex_messages3 = Inr (ex_state3, [])"
  by (simp add: ex_messages3_def run_append ex_run, simp add: ex_messages2_def ex_step1 ex_step2 ex_step3)
    (simp add: ex_state_def traffic_init_def ex_state3_def insert_commute)

lemma ex_state3_simps [simp]:
  "cameras ex_state3 3 = None" "dispatchers ex_state3 = Map.empty" "clients ex_state3 = {1, 2, 3}"
  "queue ex_state3 7 = []" "queue ex_state3 123 = [ex_ticket 0, ex_ticket 86400]"
  by (simp_all add: ex_state3_def lookup_list_def)

theorem tickets_reach_the_road_witness:
  "\<exists>(t :: traffic) q. dispatchers t 3 = Some q \<and> t_Road (ex_ticket 86400) \<in> set (disp_Roads q)"
proof -
  obtain t os where h: "handle_IAmDispatcher ex_state3 3 ex_dispatcher = (t, os)" by fastforce
  have inv: "traffic_inv ex_state3" by (rule served_inv [OF ex_served3 ex_run3])
  have "os = [sendTicket 3 (ex_ticket 0), sendTicket 3 (ex_ticket 86400)]"
    using register_dispatcher(1) [OF inv _ _ _ h] by (simp add: ex_dispatcher_def)
  then have "\<exists>q. dispatchers t 3 = Some q \<and> t_Road (ex_ticket 86400) \<in> set (disp_Roads q)"
    using h
    by (intro tickets_reach_the_road [OF ex_served3 ex_run3, where e = "(3, Packet (PDispatcher ex_dispatcher))" and os' = os and ovf = "\<lambda>x. 0"])
      (simp_all add: sendTicket_def)
  then show ?thesis by blast
qed

text \<open>
  C15: A new dispatcher is sent exactly the tickets that wait for its roads, road by road in the
  order of its list, each queue once and in its order, also when the list repeats a road; these
  queues are empty afterwards and the others unchanged.
\<close>

theorem dispatcher_gets_the_queues:
  assumes "served es" and "traffic_run ovf es = Inr (s, os)" and "c \<in> clients s"
    and "cameras s c = None" and "dispatchers s c = None"
  shows "\<exists>t. handle_IAmDispatcher s c p
      = (t, map (sendTicket c) (concat (map (queue s) (firsts (disp_Roads p)))))
    \<and> (\<forall>r. queue t r = (if r \<in> set (disp_Roads p) then [] else queue s r))"
proof -
  obtain t os where h: "handle_IAmDispatcher s c p = (t, os)" by fastforce
  from register_dispatcher [OF served_inv [OF assms(1,2)] assms(3-5) this] h show ?thesis by simp
qed

theorem dispatcher_gets_the_queues_witness:
  "\<exists>t. handle_IAmDispatcher ex_state3 3 ex_dispatcher
      = (t, [sendTicket 3 (ex_ticket 0), sendTicket 3 (ex_ticket 86400)]) \<and> queue t 123 = []"
  using dispatcher_gets_the_queues [OF ex_served3 ex_run3, of 3 ex_dispatcher]
  by (auto simp: ex_dispatcher_def)

text \<open>
  C27: Of the contexts that the server has made for the heartbeats of a peer, which has not disconnected,
  exactly one has not been cancelled, which is the one in the table \<open>heartbeats\<close> and has the interval
  that the peer has asked for last; there is none if this interval is 0 or the peer has asked for none. So at
  most one goroutine of the peer goes on; one whose context has been cancelled returns when it is
  through with the write it may be in, and any may have returned before, after a write that failed.
\<close>

theorem one_heartbeat_per_peer:
  assumes "served es" and "Disconnected \<notin> set (messages_of c es)" and "traffic_run ovf es = Inr (s, os)"
  shows "{(n, i). (n, c, i) \<in> contexts os {}}
      = (case heartbeats s c of None \<Rightarrow> {} | Some n \<Rightarrow> {(n, wanted 0 (messages_of c es))})
    \<and> (heartbeats s c = None \<longleftrightarrow> wanted 0 (messages_of c es) = 0)"
proof -
  have "contexts_ok c {} 0 traffic_init" by (simp add: contexts_ok_def traffic_init_def)
  from run_contexts [OF traffic_inv_init this _ assms(2,3)] assms(1) show ?thesis
    by (simp add: traffic_conforming_iff contexts_ok_def)
qed

theorem one_heartbeat_per_peer_witness:
  "{(n, i). (n, 5, i) \<in> contexts [StartHeartbeat 0 5 10, CancelHeartbeat 0, StartHeartbeat 1 5 20] {}} = {(1, 20)}"
proof -
  let ?hb = "\<lambda>n. (5, Packet (PWantHeartbeat \<lparr>wh_Interval = n\<rparr>))"
  have "traffic_run (\<lambda>x. 0) [(5, Connected), ?hb 10, ?hb 20]
      = Inr (traffic_init\<lparr>clients := {5}, heartbeats := [5 \<mapsto> 1], hb_next := 2\<rparr>,
          [StartHeartbeat 0 5 10, CancelHeartbeat 0, StartHeartbeat 1 5 20])"
    by (simp add: handle_WantHeartbeat_def traffic_init_def)
  from one_heartbeat_per_peer [OF _ _ this, of 5] show ?thesis by simp
qed

section \<open>Properties of the client goroutines\<close>

text \<open>
  C25: \<open>HandleClient\<close> returns on every input, once the connection has ended, and sends the server
  \<open>connected\<close> first, then packets, then \<open>disconnected\<close>; all it writes to the client are error
  packets for invalid opcodes.
\<close>

theorem HandleClient_returns:
  assumes "conn_ok s"
  shows "\<exists>ms ws err. HandleClient wr s = Some (Connected # ms @ [Disconnected], ws, err)
    \<and> (\<forall>m \<in> set ms. m = NilPacket \<or> (\<exists>p. m = Packet p)) \<and> (\<forall>w \<in> set ws. w = invalid_opcode)"
  using client_loop_returns [OF assms, of wr 0] by (fastforce simp: HandleClient_def)

theorem HandleClient_returns_witness:
  "\<exists>ms ws err. HandleClient (\<lambda>k. None) \<lparr>segs = [[9, 0x41], [0x20, 3]], conn_end = EOF\<rparr>
      = Some (Connected # ms @ [Disconnected], ws, err)
    \<and> (\<forall>m \<in> set ms. m = NilPacket \<or> (\<exists>p. m = Packet p)) \<and> (\<forall>w \<in> set ws. w = invalid_opcode)"
  by (rule HandleClient_returns) (simp add: conn_ok_def)

text \<open>
  C17: A client that sends well-formed packets, any number of whole packets in each segment, has
  exactly these packets sent to the server, in order, between \<open>connected\<close> and \<open>disconnected\<close>,
  and gets no error written.
\<close>

theorem HandleClient_packets:
  assumes "\<forall>ps \<in> set pss. ps \<noteq> [] \<and> (\<forall>p \<in> set ps. packet_fits p)"
  shows "HandleClient wr \<lparr>segs = map (\<lambda>ps. concat (map encode ps)) pss, conn_end = e\<rparr>
    = Some (Connected # map Packet (concat pss) @ [Disconnected], [], e)"
  by (simp add: HandleClient_def client_loop_segments [OF assms])

theorem HandleClient_packets_witness:
  "HandleClient (\<lambda>k. None) \<lparr>segs = map (\<lambda>ps. concat (map encode ps))
       [[PCamera (ex_camera 8), PPlate (ex_plate 0)], [PWantHeartbeat \<lparr>wh_Interval = 10\<rparr>]], conn_end = EOF\<rparr>
    = Some (Connected # map Packet (concat
       [[PCamera (ex_camera 8), PPlate (ex_plate 0)], [PWantHeartbeat \<lparr>wh_Interval = 10\<rparr>]]) @ [Disconnected], [], EOF)"
  by (rule HandleClient_packets) simp

text \<open>
  C2: The whole server: if the messages of every peer are, as far as they have arrived, those its
  \<open>HandleClient\<close> sends for the bytes of its connection, then the server handles all of them
  without a panic, whatever the bytes are and however the peers' messages interleave.
\<close>

theorem clients_never_panic_the_server:
  assumes "\<forall>c. \<exists>wr conn ms ws err n. conn_ok conn \<and> HandleClient wr conn = Some (ms, ws, err)
      \<and> messages_of c es = take n ms"
  shows "\<exists>s os. traffic_run ovf es = Inr (s, os)"
proof -
  have "served es"
  proof (rule announced_peers)
    fix c
    from assms obtain wr conn ms ws err n where "conn_ok conn" "HandleClient wr conn = Some (ms, ws, err)"
      "messages_of c es = take n ms" by metis
    moreover from HandleClient_returns [OF this(1), of wr] this(2) have "hd ms = Connected" "ms \<noteq> []" by auto
    ultimately show "messages_of c es = [] \<or> hd (messages_of c es) = Connected \<or> c \<in> {}"
      by (cases n; cases ms) auto
  qed
  from served_run [OF this, of ovf] show ?thesis by blast
qed

theorem clients_never_panic_the_server_witness:
  "\<exists>s os. traffic_run (\<lambda>x. 0) [(1, Connected), (1, Packet (PPlate (ex_plate 0))), (1, Disconnected)] = Inr (s, os)"
proof (rule clients_never_panic_the_server, intro allI)
  fix c :: peer_id
  let ?conn = "\<lparr>segs = map (\<lambda>ps. concat (map encode ps)) [[PPlate (ex_plate 0)]], conn_end = EOF\<rparr>"
  have h: "HandleClient (\<lambda>k. None) ?conn = Some (Connected # map Packet (concat [[PPlate (ex_plate 0)]]) @ [Disconnected], [], EOF)"
    using client_loop_segments [of "[[PPlate (ex_plate 0)]]" "\<lambda>k. None" 0 EOF] by (simp add: HandleClient_def)
  have "conn_ok ?conn" by (simp add: conn_ok_def marshal_defs)
  moreover have "messages_of c [(1, Connected), (1, Packet (PPlate (ex_plate 0))), (1, Disconnected)]
      = take (if c = 1 then 3 else 0) (Connected # map Packet (concat [[PPlate (ex_plate 0)]]) @ [Disconnected])"
    by (simp add: messages_of_def)
  ultimately show "\<exists>wr conn ms ws err n. conn_ok conn \<and> HandleClient wr conn = Some (ms, ws, err)
      \<and> messages_of c [(1, Connected), (1, Packet (PPlate (ex_plate 0))), (1, Disconnected)] = take n ms"
    using h by blast
qed

text \<open>
  C29: The heartbeat period of an interval that is not zero is a positive number of nanoseconds
  that fits a \<open>time.Duration\<close> (so \<open>time.NewTicker\<close> accepts it), and differs from the exact
  \<open>interval / 10\<close> seconds by at most one nanosecond and a part in \<open>2 ^ 51\<close>.
\<close>

theorem heartbeat_period_ok:
  assumes "interval \<noteq> 0"
  shows "0 < heartbeat_period interval \<and> heartbeat_period interval < 2 ^ 63
    \<and> \<bar>heartbeat_period interval - int (unat interval) * 100000000\<bar> * 2 ^ 51
        \<le> 2 ^ 51 + int (unat interval) * 100000000"
proof -
  have "0 < int n \<and> int n < 4294967296" if "0 < n" "n < 2 ^ 32" for n using that by simp
  note * = this
  have "0 < unat interval" "unat interval < 2 ^ 32"
    using assms unsigned_less [of interval] by (simp_all add: unat_gt_0)
  note i = * [OF this]
  have "0 < H \<and> H < 2 ^ 63"
    if "\<bar>H - m * 100000000\<bar> * 2 ^ 51 \<le> 2 ^ 51 + m * 100000000" "0 < m" "m < 4294967296" for H m :: int
    using that abs_ge_self [of "H - m * 100000000"] abs_ge_minus_self [of "H - m * 100000000"] by simp
  with heartbeat_period_error [OF assms] i show ?thesis by blast
qed

theorem heartbeat_period_ok_witness:
  "0 < heartbeat_period 25 \<and> heartbeat_period 25 < 2 ^ 63
    \<and> \<bar>heartbeat_period 25 - int (unat (25 :: u32)) * 100000000\<bar> * 2 ^ 51
        \<le> 2 ^ 51 + int (unat (25 :: u32)) * 100000000"
  by (rule heartbeat_period_ok) simp

section \<open>Properties of single handlers\<close>

text \<open>
  C30: The day of a timestamp, which the code computes with a division of \<open>float64\<close> and
  \<open>math.Floor\<close>, is the integer quotient by 86400 for every timestamp.
\<close>

theorem day_of_is_division: "day_of timestamp = int (unat timestamp div 86400)"
  by (rule day_of_div)

text \<open>
  A packet that does not fit the role of its sender is answered with one error packet, to the
  sender, and changes nothing: a second introduction, as camera or as dispatcher, and a plate
  report of a peer that is not a camera.
\<close>

theorem wrong_role_is_rejected:
  assumes "case p of PCamera x \<Rightarrow> cameras s c \<noteq> None \<or> dispatchers s c \<noteq> None
    | PDispatcher x \<Rightarrow> cameras s c \<noteq> None \<or> dispatchers s c \<noteq> None
    | PPlate x \<Rightarrow> cameras s c = None
    | PWantHeartbeat x \<Rightarrow> False"
  shows "\<exists>msg. traffic_step ovf s (c, Packet p) = Inr (s, [Send c (OutError \<lparr>err_Message = msg\<rparr>)])
    \<and> length msg \<le> 255"
  using assms
  by (cases p) (auto simp: handle_IAmCamera_def handle_IAmDispatcher_def handle_Plate_def write_error_def
      split: option.splits)

theorem wrong_role_is_rejected_witness:
  "\<exists>msg. traffic_step (\<lambda>x. 0) ex_state (3, Packet (PPlate (ex_plate 0)))
      = Inr (ex_state, [Send 3 (OutError \<lparr>err_Message = msg\<rparr>)]) \<and> length msg \<le> 255"
  by (rule wrong_role_is_rejected) simp

text \<open>
  The clean-up of the sightings of a plate removes sightings of ticketed days only: all the
  others stay, in their order.
\<close>

theorem cleaning_keeps_unticketed:
  "filter (\<lambda>x. \<not> ticketed dp (day_of (pi_Timestamp x)) (pi_Plate x)) (clean_readings dp i readings)
    = filter (\<lambda>x. \<not> ticketed dp (day_of (pi_Timestamp x)) (pi_Plate x)) readings"
proof (induction dp i readings rule: clean_readings.induct)
  case (1 dp i readings)
  let ?P = "\<lambda>x. \<not> ticketed dp (day_of (pi_Timestamp x)) (pi_Plate x)"
  show ?case
  proof (cases "i < length readings \<and> \<not> ?P (readings ! i)")
    case True
    then obtain ys zs where "readings = ys @ readings ! i # zs" "remove_at i readings = ys @ zs"
      using remove_at_split by blast
    then have "filter ?P (remove_at i readings) = filter ?P readings"
      using True by (metis (no_types, lifting) filter.simps(2) filter_append)
    with 1(1) True show ?thesis by (subst clean_readings.simps) simp
  next
    case False
    with 1(2) show ?thesis by (subst clean_readings.simps) auto
  qed
qed

text \<open>
  The clean-up is not complete, although the comment above it says that all readings on days
  that received a ticket are removed: after a removal the next reading is skipped, so of two
  sightings of a ticketed day one stays.
\<close>

theorem cleaning_misses_readings:
  "clean_readings [0 \<mapsto> {''UN1X''}] 0 [sighting (ex_camera 8) (ex_plate 0), sighting (ex_camera 9) (ex_plate 45)]
      = [sighting (ex_camera 9) (ex_plate 45)]
    \<and> ticketed [0 \<mapsto> {''UN1X''}] (day_of 45) ''UN1X''"
  by (simp add: clean_readings.simps remove_at_def ticketed_def day_of_div)

end
