(* ===== verification/Udp.thy ===== *)
theory Udp
  imports Go_Machine
begin

text \<open>
  \<^verbatim>\<open>server/udp_server.go\<close>: the goroutine that reads the datagrams of the socket, keeps a client for
  every address that has sent something lately, and hands each datagram to the goroutine of its
  client. A loop over the map of the clients visits them in an order that Go does not fix; the
  order is part of the event of an iteration.
\<close>

section \<open>The client\<close>

definition MAX_DATAGRAM_SIZE :: nat where
  "MAX_DATAGRAM_SIZE = 65507"

text \<open>
  \<open>UDPClient.Write\<close>: \<open>WriteTo\<close> is the result of the socket for the datagram: how many bytes were
  sent, or an error.
\<close>

definition UDP_Write :: "(string \<Rightarrow> go_error + nat) \<Rightarrow> string \<Rightarrow> go_error option" where
  "UDP_Write WriteTo p =
     (if length p > MAX_DATAGRAM_SIZE then Some (ErrText ''UDP message too large'')
      else (case WriteTo p of
              Inl err \<Rightarrow> Some err
            | Inr n \<Rightarrow> (if n \<noteq> length p then Some (ErrText ''UDP message only partially sent'') else None)))"

section \<open>The server loop\<close>

type_synonym addr = string
type_synonym time = int

text \<open>
  \<open>lastActivity\<close> leads from the address of a client to the time of its last datagram. An iteration
  of the loop ends with one of the results of \<open>ReadFrom\<close>.
\<close>

record udp =
  lastActivity :: "addr \<rightharpoonup> time"
  running :: bool

datatype udp_event =
    Datagram addr string time
  | DeadlineExceeded
  | SocketClosed
  | SocketError

datatype udp_effect =
    StartHandler addr
  | Deliver addr string
  | CloseMsgs addr
  | Fatal

definition udp_init :: udp where
  "udp_init = \<lparr>lastActivity = Map.empty, running = True\<rparr>"

text \<open>The loop that looks for the client that times out first; its two variables.\<close>

fun deadline_loop :: "time \<Rightarrow> (addr \<rightharpoonup> time) \<Rightarrow> addr list \<Rightarrow> time \<times> addr \<Rightarrow> time \<times> addr" where
  "deadline_loop timeout la [] acc = acc"
| "deadline_loop timeout la (a # as) (deadline, deadline_addr) =
     (let t = (case la a of None \<Rightarrow> 0 | Some x \<Rightarrow> x) + timeout
      in deadline_loop timeout la as
           (if deadline_addr = [] \<or> t < deadline then (t, a) else (deadline, deadline_addr)))"

fun udp_step :: "time \<Rightarrow> (udp, addr list \<times> udp_event, udp_effect) handler" where
  "udp_step timeout s (order, ev) =
     (let (deadline, deadline_addr) = deadline_loop timeout (lastActivity s) order (0, [])
      in case ev of
           SocketClosed \<Rightarrow> Inr (s\<lparr>running := False\<rparr>, [])
         | DeadlineExceeded \<Rightarrow>
             (case lastActivity s deadline_addr of
                None \<Rightarrow> Inl NilDereference
              | Some x \<Rightarrow> Inr (s\<lparr>lastActivity := (lastActivity s)(deadline_addr := None)\<rparr>,
                              [CloseMsgs deadline_addr]))
         | SocketError \<Rightarrow> Inr (s\<lparr>running := False\<rparr>, [Fatal])
         | Datagram a p now \<Rightarrow>
             Inr (s\<lparr>lastActivity := (lastActivity s)(a \<mapsto> now)\<rparr>,
                  (if lastActivity s a = None then [StartHandler a] else []) @ [Deliver a p]))"

text \<open>
  What the socket can return: no error of a deadline while none is set (the zero time means no
  deadline), and datagrams from addresses, which are not empty.
\<close>

fun udp_enabled :: "udp \<Rightarrow> addr list \<times> udp_event \<Rightarrow> bool" where
  "udp_enabled s (order, ev) =
     (running s \<and> distinct order \<and> set order = dom (lastActivity s) \<and>
      (case ev of DeadlineExceeded \<Rightarrow> order \<noteq> [] | Datagram a p now \<Rightarrow> a \<noteq> [] | _ \<Rightarrow> True))"

section \<open>The deadline\<close>

lemma deadline_loop_result:
  assumes "\<forall>a \<in> set as. a \<noteq> []" and "d \<noteq> [] \<Longrightarrow> la d = Some x \<and> t = x + timeout"
    and "set as \<subseteq> dom la"
  shows "case deadline_loop timeout la as (t, d) of (t', d') \<Rightarrow>
    (d' = [] \<longleftrightarrow> d = [] \<and> as = []) \<and>
    (d' \<noteq> [] \<longrightarrow> (\<exists>x'. la d' = Some x' \<and> t' = x' + timeout) \<and> (d' = d \<or> d' \<in> set as) \<and> (d \<noteq> [] \<longrightarrow> t' \<le> t) \<and>
       (\<forall>a \<in> set as. \<forall>y. la a = Some y \<longrightarrow> t' \<le> y + timeout))"
  using assms
proof (induction as arbitrary: t d x)
  case Nil
  then show ?case by auto
next
  case (Cons a as)
  from Cons.prems obtain y where y: "la a = Some y" "a \<noteq> []" by auto
  show ?case
  proof (cases "d = [] \<or> y + timeout < t")
    case True
    with y Cons.prems show ?thesis
      using Cons.IH [of a y "y + timeout"] by (auto split: prod.splits)
  next
    case False
    obtain t' d' where r: "deadline_loop timeout la as (t, d) = (t', d')" by fastforce
    with Cons.IH [of d x t] Cons.prems False
    have "d' \<noteq> []" "\<exists>x'. la d' = Some x' \<and> t' = x' + timeout" "d' = d \<or> d' \<in> set as" "t' \<le> t"
      "\<forall>a \<in> set as. \<forall>y. la a = Some y \<longrightarrow> t' \<le> y + timeout"
      by simp_all
    with y False r show ?thesis by auto
  qed
qed

lemma deadline_is_first:
  assumes "set order = dom la" and "[] \<notin> dom la" and "order \<noteq> []"
    and "deadline_loop timeout la order (0, []) = (t, d)"
  shows "d \<in> dom la" and "\<exists>x. la d = Some x \<and> t = x + timeout" and "\<forall>a y. la a = Some y \<longrightarrow> t \<le> y + timeout"
proof -
  have "case deadline_loop timeout la order (0, []) of (t', d') \<Rightarrow>
    (d' = [] \<longleftrightarrow> [] = ([] :: addr) \<and> order = []) \<and>
    (d' \<noteq> [] \<longrightarrow> (\<exists>x'. la d' = Some x' \<and> t' = x' + timeout) \<and> (d' = [] \<or> d' \<in> set order) \<and> ([] \<noteq> ([] :: addr) \<longrightarrow> t' \<le> 0) \<and>
       (\<forall>a \<in> set order. \<forall>y. la a = Some y \<longrightarrow> t' \<le> y + timeout))"
    using assms(1,2) by (intro deadline_loop_result) auto
  with assms show "d \<in> dom la" "\<exists>x. la d = Some x \<and> t = x + timeout" "\<forall>a y. la a = Some y \<longrightarrow> t \<le> y + timeout"
    by auto
qed

section \<open>The invariant\<close>

definition udp_inv :: "udp \<Rightarrow> bool" where
  "udp_inv s \<longleftrightarrow> [] \<notin> dom (lastActivity s)"

text \<open>The clients whose handler has been started and whose channel is open, from the effects.\<close>

fun open_clients :: "udp_effect list \<Rightarrow> addr set \<Rightarrow> addr set" where
  "open_clients [] A = A"
| "open_clients (StartHandler a # os) A = open_clients os (insert a A)"
| "open_clients (CloseMsgs a # os) A = open_clients os (A - {a})"
| "open_clients (_ # os) A = open_clients os A"

text \<open>
  Every handler is started once until it is closed, datagrams go only to open channels, and only an
  open channel is closed (Go panics on a send to, or a second close of, a closed channel).
\<close>

fun channels_ok :: "udp_effect list \<Rightarrow> addr set \<Rightarrow> bool" where
  "channels_ok [] A = True"
| "channels_ok (StartHandler a # os) A = (a \<notin> A \<and> channels_ok os (insert a A))"
| "channels_ok (Deliver a p # os) A = (a \<in> A \<and> channels_ok os A)"
| "channels_ok (CloseMsgs a # os) A = (a \<in> A \<and> channels_ok os (A - {a}))"
| "channels_ok (Fatal # os) A = channels_ok os A"

lemma open_clients_append: "open_clients (os @ os') A = open_clients os' (open_clients os A)"
  by (induction os A rule: open_clients.induct) auto

lemma channels_ok_append:
  "channels_ok (os @ os') A \<longleftrightarrow> channels_ok os A \<and> channels_ok os' (open_clients os A)"
  by (induction os A rule: channels_ok.induct) auto

definition udp_hist :: "udp_effect list \<Rightarrow> udp \<Rightarrow> bool" where
  "udp_hist h s \<longleftrightarrow> channels_ok h {} \<and> open_clients h {} = dom (lastActivity s)"

lemma udp_step_ok:
  assumes "udp_inv s" and "udp_enabled s e"
  shows "\<exists>t os. udp_step timeout s e = Inr (t, os) \<and> udp_inv t"
proof -
  obtain order ev where e: "e = (order, ev)" by fastforce
  obtain dl d where l: "deadline_loop timeout (lastActivity s) order (0, []) = (dl, d)" by fastforce
  show ?thesis
  proof (cases ev)
    case DeadlineExceeded
    with assms e have "d \<in> dom (lastActivity s)"
      by (intro deadline_is_first(1) [OF _ _ _ l]) (auto simp: udp_inv_def)
    with assms e l DeadlineExceeded show ?thesis by (auto simp: udp_inv_def)
  qed (use assms e l in \<open>auto simp: udp_inv_def\<close>)
qed

lemma udp_step_hist:
  assumes "udp_inv s" and "udp_enabled s e" and "udp_hist h s" and "udp_step timeout s e = Inr (t, os)"
  shows "udp_hist (h @ os) t"
proof -
  obtain order ev where e: "e = (order, ev)" by fastforce
  obtain dl d where l: "deadline_loop timeout (lastActivity s) order (0, []) = (dl, d)" by fastforce
  show ?thesis
    using assms e l
    by (cases ev) (auto simp: udp_hist_def channels_ok_append open_clients_append split: option.splits if_splits)
qed

interpretation udp_loop: traced_loop "udp_step timeout" udp_enabled udp_inv udp_hist
  by unfold_locales (rule udp_step_ok, assumption+, rule udp_step_hist, assumption+)

section \<open>Properties\<close>

lemma udp_inv_init: "udp_inv udp_init"
  by (simp add: udp_inv_def udp_init_def)

text \<open>
  C33: Whatever arrives at the socket, the server loop does not panic, starts the handler of an address
  once until its channel is closed, and sends datagrams only to open channels of started handlers;
  the handlers with an open channel are those of the addresses in its map.
\<close>

theorem udp_uses_open_channels:
  assumes "conforming (udp_step timeout) udp_enabled udp_init es"
  shows "\<exists>s os. run (udp_step timeout) udp_init es = Inr (s, os)
    \<and> channels_ok os {} \<and> open_clients os {} = dom (lastActivity s)"
proof -
  obtain s os where r: "run (udp_step timeout) udp_init es = Inr (s, os)"
    using udp_loop.run_ok [OF udp_inv_init assms] by blast
  have "udp_hist [] udp_init" by (simp add: udp_hist_def udp_init_def)
  from udp_loop.run_hist [OF udp_inv_init assms this r] have "udp_hist os s" by simp
  with r show ?thesis by (simp add: udp_hist_def)
qed

definition ex_udp :: "(addr list \<times> udp_event) list" where
  "ex_udp = [([], Datagram ''a'' ''k=v'' 5), ([''a''], Datagram ''b'' ''k'' 6), ([''b'', ''a''], Datagram ''a'' ''x'' 9),
     ([''a'', ''b''], DeadlineExceeded), ([''a''], Datagram ''b'' ''k'' 20), ([''b'', ''a''], SocketClosed)]"

theorem udp_uses_open_channels_witness:
  "\<exists>s os. run (udp_step 10) udp_init ex_udp = Inr (s, os)
    \<and> channels_ok os {} \<and> open_clients os {} = dom (lastActivity s)"
proof (rule udp_uses_open_channels)
  show "conforming (udp_step 10) udp_enabled udp_init ex_udp"
    by (simp add: ex_udp_def udp_init_def insert_commute)
qed

text \<open>
  When a read times out, the client that is removed, and its channel closed, is one whose last
  datagram is the oldest; all others stay.
\<close>

theorem the_oldest_client_times_out:
  assumes "udp_inv s" and "set order = dom (lastActivity s)" and "order \<noteq> []"
  shows "\<exists>d x. udp_step timeout s (order, DeadlineExceeded)
      = Inr (s\<lparr>lastActivity := (lastActivity s)(d := None)\<rparr>, [CloseMsgs d])
    \<and> lastActivity s d = Some x \<and> (\<forall>a y. lastActivity s a = Some y \<longrightarrow> x \<le> y)"
proof -
  obtain t d where l: "deadline_loop timeout (lastActivity s) order (0, []) = (t, d)" by fastforce
  note first = deadline_is_first [OF assms(2) _ assms(3) l]
  from assms(1) first obtain x where "lastActivity s d = Some x" "t = x + timeout"
    "\<forall>a y. lastActivity s a = Some y \<longrightarrow> t \<le> y + timeout"
    by (auto simp: udp_inv_def)
  with l show ?thesis by (intro exI [of _ d] exI [of _ x]) auto
qed

theorem the_oldest_client_times_out_witness:
  "\<exists>d x. udp_step 10 \<lparr>lastActivity = [''a'' \<mapsto> 9, ''b'' \<mapsto> 6], running = True\<rparr> ([''a'', ''b''], DeadlineExceeded)
      = Inr (\<lparr>lastActivity = [''a'' \<mapsto> 9, ''b'' \<mapsto> 6], running = True\<rparr>
          \<lparr>lastActivity := (lastActivity \<lparr>lastActivity = [''a'' \<mapsto> 9, ''b'' \<mapsto> 6], running = True\<rparr>)(d := None)\<rparr>, [CloseMsgs d])
    \<and> lastActivity \<lparr>lastActivity = [''a'' \<mapsto> 9, ''b'' \<mapsto> 6], running = True\<rparr> d = Some x
    \<and> (\<forall>a y. lastActivity \<lparr>lastActivity = [''a'' \<mapsto> 9, ''b'' \<mapsto> 6], running = True\<rparr> a = Some y \<longrightarrow> x \<le> y)"
  by (rule the_oldest_client_times_out) (auto simp: udp_inv_def split: if_splits)

end
