(* ===== verification/Go_Text.thy ===== *)
theory Go_Text
  imports Go_Prelude
begin

text \<open>
  What the text protocols use of Go's packages \<open>strings\<close>, \<open>unicode\<close> and \<open>utf8\<close>: line ends, joins,
  the decoding of a string to runes as \<open>for range\<close> sees them, white space, and the cutting of a
  string into its fields.
\<close>

section \<open>Characters and joins\<close>

definition LF :: char where "LF = CHR 0x0A"
definition CR :: char where "CR = CHR 0x0D"

text \<open>The character class \<open>[a-zA-Z0-9]\<close>.\<close>

definition alnum :: "char \<Rightarrow> bool" where
  "alnum c \<longleftrightarrow> (let n = of_char c :: nat
     in (97 \<le> n \<and> n \<le> 122) \<or> (65 \<le> n \<and> n \<le> 90) \<or> (48 \<le> n \<and> n \<le> 57))"

text \<open>\<open>strings.Join\<close>, with the separator first.\<close>

fun join_strings :: "string \<Rightarrow> string list \<Rightarrow> string" where
  "join_strings sep [] = []"
| "join_strings sep [x] = x"
| "join_strings sep (x # y # xs) = x @ sep @ join_strings sep (y # xs)"

text \<open>\<open>strings.TrimRight(text, "\r\n")\<close>\<close>

definition TrimRight :: "string \<Rightarrow> string" where
  "TrimRight s = rev (dropWhile (\<lambda>c. c = CR \<or> c = LF) (rev s))"

section \<open>Runes\<close>

text \<open>
  \<open>utf8.DecodeRuneInString\<close>: the first rune of a string and its width. A byte that does not start a
  valid encoding is the rune \<open>RuneError\<close> of width 1.
\<close>

definition code :: "char \<Rightarrow> nat" where
  "code c = of_char c"

definition cont :: "nat \<Rightarrow> nat \<Rightarrow> char \<Rightarrow> bool" where
  "cont lo hi c \<longleftrightarrow> lo \<le> code c \<and> code c \<le> hi"

definition RuneError :: nat where
  "RuneError = 0xFFFD"

fun DecodeRune :: "string \<Rightarrow> nat \<times> nat" where
  "DecodeRune [] = (RuneError, 0)"
| "DecodeRune (c0 # s) =
     (let b0 = code c0 in
      if b0 < 0x80 then (b0, 1)
      else if 0xC2 \<le> b0 \<and> b0 \<le> 0xDF then
        (case s of
           c1 # _ \<Rightarrow> (if cont 0x80 0xBF c1 then ((b0 - 0xC0) * 64 + (code c1 - 0x80), 2) else (RuneError, 1))
         | _ \<Rightarrow> (RuneError, 1))
      else if 0xE0 \<le> b0 \<and> b0 \<le> 0xEF then
        (case s of
           c1 # c2 # _ \<Rightarrow>
             (if cont (if b0 = 0xE0 then 0xA0 else 0x80) (if b0 = 0xED then 0x9F else 0xBF) c1 \<and> cont 0x80 0xBF c2
              then ((b0 - 0xE0) * 4096 + (code c1 - 0x80) * 64 + (code c2 - 0x80), 3) else (RuneError, 1))
         | _ \<Rightarrow> (RuneError, 1))
      else if 0xF0 \<le> b0 \<and> b0 \<le> 0xF4 then
        (case s of
           c1 # c2 # c3 # _ \<Rightarrow>
             (if cont (if b0 = 0xF0 then 0x90 else 0x80) (if b0 = 0xF4 then 0x8F else 0xBF) c1
                 \<and> cont 0x80 0xBF c2 \<and> cont 0x80 0xBF c3
              then ((b0 - 0xF0) * 262144 + (code c1 - 0x80) * 4096 + (code c2 - 0x80) * 64 + (code c3 - 0x80), 4)
              else (RuneError, 1))
         | _ \<Rightarrow> (RuneError, 1))
      else (RuneError, 1))"

lemma DecodeRune_width: "s \<noteq> [] \<Longrightarrow> 0 < snd (DecodeRune s) \<and> snd (DecodeRune s) \<le> length s"
  by (cases s) (auto simp: Let_def split: list.splits)

text \<open>The runes of a string, each with its bytes.\<close>

function runes :: "string \<Rightarrow> (nat \<times> string) list" where
  "runes s =
     (if s = [] then []
      else (fst (DecodeRune s), take (snd (DecodeRune s)) s) # runes (drop (snd (DecodeRune s)) s))"
  by pat_completeness auto
termination
  by (relation "measure length") (auto dest: DecodeRune_width)

declare runes.simps [simp del]

text \<open>\<open>unicode.IsSpace\<close>\<close>

definition IsSpace :: "nat \<Rightarrow> bool" where
  "IsSpace r \<longleftrightarrow> (9 \<le> r \<and> r \<le> 13) \<or> r = 0x20 \<or> r = 0x85 \<or> r = 0xA0 \<or> r = 0x1680
     \<or> (0x2000 \<le> r \<and> r \<le> 0x200A) \<or> r = 0x2028 \<or> r = 0x2029 \<or> r = 0x202F \<or> r = 0x205F \<or> r = 0x3000"

definition TrimSpace :: "string \<Rightarrow> string" where
  "TrimSpace s =
     (let sp = (\<lambda>x. IsSpace (fst x))
      in concat (map snd (rev (dropWhile sp (rev (dropWhile sp (runes s)))))))"

text \<open>\<open>strings.FieldsFunc(s, unicode.IsSpace)\<close>: \<open>cur\<close> is the field that has begun.\<close>

fun fields :: "(nat \<times> string) list \<Rightarrow> string \<Rightarrow> string list" where
  "fields [] cur = (if cur = [] then [] else [cur])"
| "fields ((r, b) # ts) cur =
     (if IsSpace r then (if cur = [] then fields ts [] else cur # fields ts [])
      else fields ts (cur @ b))"

definition FieldsFunc :: "string \<Rightarrow> string list" where
  "FieldsFunc s = fields (runes s) []"




section \<open>Cutting and joining\<close>

lemma runes_Nil [simp]: "runes [] = []"
  by (simp add: runes.simps)

lemma runes_step: "s \<noteq> [] \<Longrightarrow>
    runes s = (fst (DecodeRune s), take (snd (DecodeRune s)) s) # runes (drop (snd (DecodeRune s)) s)"
  by (simp add: runes.simps [of s])

lemma runes_eq_Nil [simp]: "runes s = [] \<longleftrightarrow> s = []"
  by (cases "s = []") (simp_all add: runes_step)

lemma concat_runes [simp]: "concat (map snd (runes s)) = s"
proof (induction s rule: runes.induct)
  case (1 s)
  then show ?case by (cases "s = []") (simp_all add: runes_step)
qed

lemma runes_nonempty: "x \<in> set (runes s) \<Longrightarrow> snd x \<noteq> []"
proof (induction s rule: runes.induct)
  case (1 s)
  show ?case
  proof (cases "s = []")
    case True
    with 1 show ?thesis by simp
  next
    case False
    with DecodeRune_width [OF False] 1 show ?thesis by (auto simp: runes_step)
  qed
qed

lemma runes_suffix: "runes s = us @ vs \<Longrightarrow> runes (concat (map snd vs)) = vs"
proof (induction us arbitrary: s)
  case Nil
  then show ?case by (metis append_Nil concat_runes)
next
  case (Cons u us)
  then have "s \<noteq> []" by auto
  with Cons.prems have "runes (drop (snd (DecodeRune s)) s) = us @ vs" by (simp add: runes_step)
  then show ?case by (rule Cons.IH)
qed

text \<open>A byte that continues an encoding, and strings that do not start with one.\<close>

definition boundary :: "string \<Rightarrow> bool" where
  "boundary s \<longleftrightarrow> s = [] \<or> \<not> cont 0x80 0xBF (hd s)"

lemma DecodeRune_append:
  assumes "w \<noteq> []" and "boundary x"
  shows "DecodeRune (w @ x) = DecodeRune w"
proof -
  obtain c0 s where w: "w = c0 # s" using assms(1) by (cases w) auto
  show ?thesis
  proof (cases x)
    case Nil
    then show ?thesis by simp
  next
    case (Cons d y)
    have "cont lo hi d = False" if "0x80 \<le> lo" "hi \<le> 0xBF" for lo hi
      using assms(2) that by (auto simp: boundary_def cont_def Cons)
    then have nc: "cont 0x80 0xBF d = False"
      "\<And>p q. cont (if p then 0xA0 else 0x80) (if q then 0x9F else 0xBF) d = False"
      "\<And>p q. cont (if p then 0x90 else 0x80) (if q then 0x8F else 0xBF) d = False" by simp_all
    consider "s = []" | c1 where "s = [c1]" | c1 c2 where "s = [c1, c2]" | c1 c2 c3 r where "s = c1 # c2 # c3 # r"
      by (cases s rule: remdups_adj.cases) (auto, metis list.exhaust)
    then show ?thesis
    proof cases
      case 1
      then show ?thesis by (cases y; cases "tl y") (simp_all add: w Cons Let_def nc)
    next
      case 2
      then show ?thesis by (cases y) (simp_all add: w Cons Let_def nc)
    qed (simp_all add: w Cons Let_def nc)
  qed
qed

lemma runes_append:
  assumes "boundary x"
  shows "runes (w @ x) = runes w @ runes x"
proof (induction w rule: runes.induct)
  case (1 w)
  show ?case
  proof (cases "w = []")
    case True
    then show ?thesis by simp
  next
    case False
    let ?n = "snd (DecodeRune w)"
    have d: "DecodeRune (w @ x) = DecodeRune w" by (rule DecodeRune_append [OF False assms])
    have n: "?n \<le> length w" using DecodeRune_width [OF False] by simp
    have "runes (w @ x) = (fst (DecodeRune w), take ?n w) # runes (drop ?n w @ x)"
      using False n by (simp add: runes_step d)
    also have "\<dots> = runes w @ runes x" using 1 False by (simp add: runes_step)
    finally show ?thesis .
  qed
qed

lemma same_prefix:
  assumes "us @ vs = us' @ vs'" and "\<forall>x \<in> set (us @ vs). snd x \<noteq> []"
    and "concat (map snd us) = concat (map snd us')"
  shows "us = us'"
  using assms
proof (induction us arbitrary: us')
  case Nil
  then show ?case by (cases us') auto
next
  case (Cons u us)
  show ?case
  proof (cases us')
    case Nil
    with Cons.prems show ?thesis by auto
  next
    case (Cons u' us'')
    with Cons.prems Cons.IH [of us''] show ?thesis by auto
  qed
qed

lemma runes_prefix:
  assumes "runes s = us @ vs" and "boundary (concat (map snd vs))"
  shows "runes (concat (map snd us)) = us"
proof -
  have "s = concat (map snd us) @ concat (map snd vs)"
    using assms(1) concat_runes [of s] by simp
  then have "us @ vs = runes (concat (map snd us)) @ runes (concat (map snd vs))"
    using runes_append [OF assms(2)] assms(1) by metis
  moreover have "\<forall>x \<in> set (us @ vs). snd x \<noteq> []" using runes_nonempty assms(1) by metis
  ultimately show ?thesis by (metis concat_runes same_prefix)
qed

lemma space_boundary:
  assumes "(r, b) \<in> set (runes s)" and "IsSpace r"
  shows "boundary (b @ x) \<and> b \<noteq> []"
  using assms(1)
proof (induction s rule: runes.induct)
  case (1 s)
  then have ne: "s \<noteq> []" by auto
  show ?case
  proof (cases "(r, b) = (fst (DecodeRune s), take (snd (DecodeRune s)) s)")
    case True
    obtain c0 t where s: "s = c0 # t" using ne by (cases s) auto
    have "b \<noteq> [] \<and> hd b = c0" using True DecodeRune_width [OF ne] s by (auto simp: take_Cons')
    moreover have "\<not> cont 0x80 0xBF c0"
    proof
      assume "cont 0x80 0xBF c0"
      then have "fst (DecodeRune s) = RuneError" by (simp add: s cont_def Let_def)
      with True assms(2) show False by (simp add: IsSpace_def RuneError_def)
    qed
    ultimately show ?thesis by (simp add: boundary_def)
  next
    case False
    with 1 ne show ?thesis by (auto simp: runes_step)
  qed
qed

text \<open>A field: not empty, and without white space.\<close>

definition field :: "string \<Rightarrow> bool" where
  "field w \<longleftrightarrow> w \<noteq> [] \<and> (\<forall>x \<in> set (runes w). \<not> IsSpace (fst x))"

lemma fields_are_fields:
  "runes s = us @ ts \<Longrightarrow> \<forall>x \<in> set us. \<not> IsSpace (fst x) \<Longrightarrow>
     \<forall>w \<in> set (fields ts (concat (map snd us))). field w"
proof (induction ts arbitrary: s us)
  case Nil
  then have "concat (map snd us) = s" using concat_runes [of s] by simp
  with Nil show ?case by (auto simp: field_def)
next
  case (Cons t ts)
  obtain r b where t: "t = (r, b)" by (cases t)
  show ?case
  proof (cases "IsSpace r")
    case False
    with Cons.IH [of s "us @ [t]"] Cons.prems show ?thesis by (auto simp: t)
  next
    case True
    have "boundary (concat (map snd (t # ts)))"
      using space_boundary [of r b s "concat (map snd ts)"] True Cons.prems(1) by (auto simp: t)
    then have u: "runes (concat (map snd us)) = us" by (rule runes_prefix [OF Cons.prems(1)])
    have "runes s = (us @ [t]) @ ts" using Cons.prems(1) by simp
    then have v: "runes (concat (map snd ts)) = ts" by (rule runes_suffix)
    have "\<forall>w \<in> set (fields ts []). field w" using Cons.IH [of "concat (map snd ts)" "[]"] v by simp
    moreover have "concat (map snd us) \<noteq> [] \<Longrightarrow> field (concat (map snd us))"
      using u Cons.prems(2) by (simp add: field_def)
    ultimately show ?thesis using True by (simp add: t)
  qed
qed

lemma FieldsFunc_fields: "w \<in> set (FieldsFunc s) \<Longrightarrow> field w"
  using fields_are_fields [of s "[]" "runes s"] by (simp add: FieldsFunc_def)

lemma fields_run:
  "\<forall>x \<in> set us. \<not> IsSpace (fst x) \<Longrightarrow> fields (us @ ts) cur = fields ts (cur @ concat (map snd us))"
  by (induction us arbitrary: cur) auto

lemma FieldsFunc_word:
  assumes "field w"
  shows "FieldsFunc w = [w]" and "FieldsFunc (w @ CHR '' '' # x) = w # FieldsFunc x"
proof -
  have w: "w \<noteq> []" "\<forall>x \<in> set (runes w). \<not> IsSpace (fst x)" using assms by (simp_all add: field_def)
  show "FieldsFunc w = [w]"
    using fields_run [OF w(2), of "[]" "[]"] w(1) by (simp add: FieldsFunc_def)
  have "boundary (CHR '' '' # x)" by (simp add: boundary_def cont_def code_def)
  then have "runes (w @ CHR '' '' # x) = runes w @ runes (CHR '' '' # x)" by (rule runes_append)
  also have "runes (CHR '' '' # x) = (32, '' '') # runes x"
    by (subst runes_step) (simp_all add: Let_def code_def)
  finally show "FieldsFunc (w @ CHR '' '' # x) = w # FieldsFunc x"
    using fields_run [OF w(2)] w(1) by (simp add: FieldsFunc_def IsSpace_def)
qed

lemma FieldsFunc_join: "\<forall>w \<in> set ws. field w \<Longrightarrow> FieldsFunc (join_strings '' '' ws) = ws"
proof (induction ws rule: induct_list012)
  case 1
  then show ?case by (simp add: FieldsFunc_def)
next
  case (2 w)
  then show ?case by (simp add: FieldsFunc_word)
next
  case (3 w v ws)
  then show ?case by (simp add: FieldsFunc_word)
qed

end
