(* ===== verification/Db.thy ===== *)
theory Db
  imports Udp Go_Text
begin

text \<open>
  \<^verbatim>\<open>db/db.go\<close>: the key-value store over UDP. Three kinds of goroutines work together: the UDP server,
  which hands the datagrams of an address to the goroutine of this address; one goroutine
  \<open>handleClient\<close> for each address, which turns a datagram into an event for the store or answers it;
  and \<open>startServer\<close>, which owns the map and serves the events of a channel in order. They are the
  rules of the relation \<open>db_step\<close>, which interleave in any order. The atomic store \<open>kv_step\<close>, in
  which a datagram is one step, is what they implement.
\<close>

section \<open>The pieces\<close>

definition VERSION :: string where
  "VERSION = ''alpha''"

definition endsWithCRLF :: "string \<Rightarrow> bool" where
  "endsWithCRLF s \<longleftrightarrow> length s \<ge> 2 \<and> drop (length s - 2) s = [CR, LF]"

definition sanitize :: "string \<Rightarrow> string" where
  "sanitize s =
     (let s1 = concat (map (\<lambda>c. if c = LF then [CHR 0x5C, CHR ''n''] else [c]) s)
      in if length s1 > 100 then take 100 s1 @ ''...(truncated)'' else s1)"

text \<open>
  An event of the channel \<open>ch\<close>; the channel \<open>out\<close> of a \<open>ReadEvent\<close> is named by the goroutine that
  made it and waits for it.
\<close>

datatype db_event = WriteEvent string string | ReadEvent string nat | DeleteEvent

text \<open>What \<open>handleClient\<close> does with a datagram: nothing, send an event, or answer at once.\<close>

datatype db_action = Skip | SendEvent db_event | Answer string

definition client_action :: "nat \<Rightarrow> string \<Rightarrow> db_action" where
  "client_action g message =
     (case slices_Index message (CHR ''='') of
        Some i \<Rightarrow>
          (let key = take i message; value = drop (i + 1) message
           in if key = ''version'' then Skip else SendEvent (WriteEvent key value))
      | None \<Rightarrow>
          (let key = message
           in if key = ''delete'' then SendEvent DeleteEvent
              else if key = ''version'' then Answer VERSION
              else SendEvent (ReadEvent key g)))"

definition db_reply :: "string \<Rightarrow> string \<Rightarrow> string" where
  "db_reply message value =
     message @ ''='' @ value @ (if endsWithCRLF message then [CR, LF] else [])"

text \<open>An event at the store: the new map, and the value for the reader.\<close>

definition lookup_string :: "(string \<rightharpoonup> string) \<Rightarrow> string \<Rightarrow> string" where
  "lookup_string m k = (case m k of None \<Rightarrow> [] | Some v \<Rightarrow> v)"

fun serve_event :: "(string \<rightharpoonup> string) \<Rightarrow> db_event \<Rightarrow> (string \<rightharpoonup> string)" where
  "serve_event data (WriteEvent key value) = data(key \<mapsto> value)"
| "serve_event data (ReadEvent key g) = data"
| "serve_event data DeleteEvent = Map.empty"

section \<open>The goroutines\<close>

text \<open>
  A goroutine \<open>handleClient\<close> waits for a datagram, or to put an event into the channel, or for the
  value of a read, or writes the reply, or has returned.
\<close>

datatype hstate = Idle | Sending string db_event | Waiting string | Writing string string | Returned

text \<open>
  \<open>db_data\<close> and \<open>db_ch\<close> are the map and the channel (of capacity 128) of the store; \<open>db_clients\<close> is
  the map of the UDP server, from addresses to goroutines, and \<open>db_next\<close> the next goroutine;
  \<open>db_hand\<close> is the datagram that the UDP server is about to hand over, and to which goroutine;
  \<open>db_closed\<close> are the goroutines whose channel \<open>Msgs\<close> is closed; \<open>db_got\<close> and \<open>db_sent\<close> are the
  datagrams a goroutine has received and the replies it has sent so far.
\<close>

record dbsys =
  db_data :: "string \<rightharpoonup> string"
  db_ch :: "db_event list"
  db_clients :: "addr \<rightharpoonup> nat"
  db_next :: nat
  db_hand :: "(nat \<times> string) option"
  db_state :: "nat \<Rightarrow> hstate"
  db_closed :: "nat set"
  db_got :: "nat \<Rightarrow> string list"
  db_sent :: "nat \<Rightarrow> string list"

definition db_start :: dbsys where
  "db_start = \<lparr>db_data = Map.empty, db_ch = [], db_clients = Map.empty, db_next = 0, db_hand = None,
     db_state = (\<lambda>g. Returned), db_closed = {}, db_got = (\<lambda>g. []), db_sent = (\<lambda>g. [])\<rparr>"

definition after_send :: "string \<Rightarrow> db_event \<Rightarrow> hstate" where
  "after_send m e = (case e of ReadEvent k g \<Rightarrow> Waiting m | _ \<Rightarrow> Idle)"

definition after_take :: "nat \<Rightarrow> string \<Rightarrow> hstate" where
  "after_take g m = (case client_action g m of Skip \<Rightarrow> Idle | SendEvent e \<Rightarrow> Sending m e | Answer v \<Rightarrow> Writing m v)"

definition after_serve :: "dbsys \<Rightarrow> db_event \<Rightarrow> nat \<Rightarrow> hstate" where
  "after_serve s e =
     (case e of
        ReadEvent k g \<Rightarrow>
          (case db_state s g of
             Waiting m \<Rightarrow> (db_state s)(g := Writing m (lookup_string (db_data s) k))
           | _ \<Rightarrow> db_state s)
      | _ \<Rightarrow> db_state s)"

inductive db_step :: "dbsys \<Rightarrow> dbsys \<Rightarrow> bool" where
  udp_receive:
    "\<lbrakk>db_hand s = None; db_clients s a = Some g\<rbrakk> \<Longrightarrow> db_step s (s\<lparr>db_hand := Some (g, m)\<rparr>)"
| udp_receive_new:
    "\<lbrakk>db_hand s = None; db_clients s a = None\<rbrakk> \<Longrightarrow>
     db_step s (s\<lparr>db_clients := (db_clients s)(a \<mapsto> db_next s), db_state := (db_state s)(db_next s := Idle),
       db_next := db_next s + 1, db_hand := Some (db_next s, m)\<rparr>)"
| udp_timeout:
    "\<lbrakk>db_hand s = None; db_clients s a = Some g\<rbrakk> \<Longrightarrow>
     db_step s (s\<lparr>db_clients := (db_clients s)(a := None), db_closed := insert g (db_closed s)\<rparr>)"
| take_datagram:
    "\<lbrakk>db_hand s = Some (g, m); db_state s g = Idle\<rbrakk> \<Longrightarrow>
     db_step s (s\<lparr>db_hand := None, db_got := (db_got s)(g := db_got s g @ [m]),
       db_state := (db_state s)(g := after_take g m)\<rparr>)"
| send_event:
    "\<lbrakk>db_state s g = Sending m e; length (db_ch s) < 128\<rbrakk> \<Longrightarrow>
     db_step s (s\<lparr>db_ch := db_ch s @ [e], db_state := (db_state s)(g := after_send m e)\<rparr>)"
| serve:
    "\<lbrakk>db_ch s = e # es\<rbrakk> \<Longrightarrow>
     db_step s (s\<lparr>db_ch := es, db_data := serve_event (db_data s) e, db_state := after_serve s e\<rparr>)"
| write_reply:
    "\<lbrakk>db_state s g = Writing m v; UDP_Write WriteTo (db_reply m v) = None\<rbrakk> \<Longrightarrow>
     db_step s (s\<lparr>db_sent := (db_sent s)(g := db_sent s g @ [db_reply m v]), db_state := (db_state s)(g := Idle)\<rparr>)"
| write_error:
    "\<lbrakk>db_state s g = Writing m v; UDP_Write WriteTo (db_reply m v) = Some err\<rbrakk> \<Longrightarrow>
     db_step s (s\<lparr>db_state := (db_state s)(g := Returned)\<rparr>)"
| msgs_closed:
    "\<lbrakk>db_state s g = Idle; g \<in> db_closed s\<rbrakk> \<Longrightarrow> db_step s (s\<lparr>db_state := (db_state s)(g := Returned)\<rparr>)"

section \<open>The atomic store\<close>

record kv =
  store :: "string \<rightharpoonup> string"
  reqs :: "nat \<Rightarrow> string list"
  outs :: "nat \<Rightarrow> string list"

definition kv_start :: kv where
  "kv_start = \<lparr>store = Map.empty, reqs = (\<lambda>g. []), outs = (\<lambda>g. [])\<rparr>"

definition kv_request :: "(string \<rightharpoonup> string) \<Rightarrow> string \<Rightarrow> (string \<rightharpoonup> string) \<times> string list" where
  "kv_request st m =
     (if CHR ''='' \<in> set m
      then (let key = takeWhile (\<lambda>c. c \<noteq> CHR ''='') m
            in (if key = ''version'' then st else st(key \<mapsto> drop (length key + 1) m), []))
      else if m = ''delete'' then (Map.empty, [])
      else (st, [db_reply m (if m = ''version'' then VERSION else lookup_string st m)]))"

definition kv_handle :: "nat \<Rightarrow> string \<Rightarrow> kv \<Rightarrow> kv" where
  "kv_handle g m a =
     a\<lparr>store := fst (kv_request (store a) m), reqs := (reqs a)(g := reqs a g @ [m]),
       outs := (outs a)(g := outs a g @ snd (kv_request (store a) m))\<rparr>"

inductive kv_step :: "kv \<Rightarrow> kv \<Rightarrow> bool" where
  kv_one: "kv_step a (kv_handle g m a)"

end
