(* ===== verification/Db_Refine.thy ===== *)
theory Db_Refine
  imports Db
begin

text \<open>
  The key-value store: the goroutines implement the atomic store. A datagram takes effect when its
  event enters the channel (or when it is taken, if it needs no event), because the channel is served
  in order: the store of the specification is the map with all events of the channel applied.
\<close>

section \<open>One datagram\<close>

lemma slices_Index_takeWhile:
  "slices_Index m x = Some i \<Longrightarrow> takeWhile (\<lambda>c. c \<noteq> x) m = take i m \<and> length (takeWhile (\<lambda>c. c \<noteq> x) m) = i"
proof (induction m arbitrary: i)
  case Nil
  then show ?case by simp
next
  case (Cons y m)
  then show ?case by (cases "y = x") auto
qed

fun event_replies :: "(string \<rightharpoonup> string) \<Rightarrow> string \<Rightarrow> db_event \<Rightarrow> string list" where
  "event_replies st m (ReadEvent k g) = [db_reply m (lookup_string st k)]"
| "event_replies st m e = []"

lemma client_action_request:
  "case client_action g m of
     Skip \<Rightarrow> kv_request st m = (st, [])
   | SendEvent e \<Rightarrow> kv_request st m = (serve_event st e, event_replies st m e) \<and> (\<forall>k h. e = ReadEvent k h \<longrightarrow> h = g)
   | Answer v \<Rightarrow> kv_request st m = (st, [db_reply m v])"
proof (cases "slices_Index m (CHR ''='')")
  case None
  moreover from None have "CHR ''='' \<notin> set m" by simp
  ultimately show ?thesis
    by (simp del: slices_Index_None add: client_action_def kv_request_def Let_def VERSION_def)
next
  case (Some i)
  then have "CHR ''='' \<in> set m" by (metis option.simps(3) slices_Index_None)
  moreover have "takeWhile (\<lambda>c. c \<noteq> CHR ''='') m = take i m" "min (length m) i = i"
    using slices_Index_takeWhile [OF Some] slices_Index_Some [OF Some] by (simp_all add: min_def)
  ultimately show ?thesis
    by (simp add: client_action_def kv_request_def Let_def Some)
qed

section \<open>The relation\<close>

fun readers :: "db_event list \<Rightarrow> nat list" where
  "readers [] = []"
| "readers (ReadEvent k g # es) = g # readers es"
| "readers (_ # es) = readers es"

lemma readers_append [simp]: "readers (es @ fs) = readers es @ readers fs"
  by (induction es rule: readers.induct) auto

lemma in_readers: "g \<in> set (readers es) \<Longrightarrow> \<exists>pre k post. es = pre @ ReadEvent k g # post"
  by (induction es rule: readers.induct) (auto, (metis append_Cons append_Nil)+)

definition answers_ok :: "dbsys \<Rightarrow> kv \<Rightarrow> bool" where
  "answers_ok s a \<longleftrightarrow>
     (\<forall>pre k g post. db_ch s = pre @ ReadEvent k g # post \<longrightarrow>
        (\<exists>m. db_state s g = Waiting m
           \<and> outs a g = db_sent s g @ [db_reply m (lookup_string (foldl serve_event (db_data s) pre) k)]))"

fun goroutine_ok :: "nat \<Rightarrow> hstate \<Rightarrow> bool \<Rightarrow> string list \<Rightarrow> string list \<Rightarrow> string list \<Rightarrow> string list \<Rightarrow> bool" where
  "goroutine_ok g Idle reader got rq sent ou = (\<not> reader \<and> got = rq \<and> ou = sent)"
| "goroutine_ok g (Sending m e) reader got rq sent ou =
     (\<not> reader \<and> got = rq @ [m] \<and> ou = sent \<and> client_action g m = SendEvent e)"
| "goroutine_ok g (Waiting m) reader got rq sent ou = (reader \<and> got = rq)"
| "goroutine_ok g (Writing m v) reader got rq sent ou = (\<not> reader \<and> got = rq \<and> ou = sent @ [db_reply m v])"
| "goroutine_ok g Returned reader got rq sent ou = (\<not> reader \<and> got = rq \<and> (\<exists>l. ou = sent @ l))"

definition goroutines_ok :: "dbsys \<Rightarrow> kv \<Rightarrow> bool" where
  "goroutines_ok s a \<longleftrightarrow>
     (\<forall>g. goroutine_ok g (db_state s g) (g \<in> set (readers (db_ch s))) (db_got s g) (reqs a g) (db_sent s g) (outs a g))"

definition fresh_ok :: "dbsys \<Rightarrow> kv \<Rightarrow> bool" where
  "fresh_ok s a \<longleftrightarrow> (\<forall>g \<ge> db_next s. db_state s g = Returned \<and> outs a g = db_sent s g)"

definition db_rel :: "dbsys \<Rightarrow> kv \<Rightarrow> bool" where
  "db_rel s a \<longleftrightarrow> store a = foldl serve_event (db_data s) (db_ch s) \<and> distinct (readers (db_ch s))
     \<and> answers_ok s a \<and> goroutines_ok s a \<and> fresh_ok s a"

lemmas db_rel_defs = db_rel_def answers_ok_def goroutines_ok_def fresh_ok_def

lemma db_rel_start: "db_rel db_start kv_start"
  by (simp add: db_rel_defs db_start_def kv_start_def)

section \<open>Steps that the specification does not see\<close>

lemma stutter: "db_rel t a \<Longrightarrow> \<exists>b. kv_step\<^sup>*\<^sup>* a b \<and> db_rel t b"
  by blast

lemma not_fresh: "db_rel s a \<Longrightarrow> db_state s g \<noteq> Returned \<Longrightarrow> g < db_next s"
  by (meson db_rel_def fresh_ok_def not_le)

lemma goroutineD:
  "db_rel s a \<Longrightarrow>
   goroutine_ok g (db_state s g) (g \<in> set (readers (db_ch s))) (db_got s g) (reqs a g) (db_sent s g) (outs a g)"
  by (simp add: db_rel_def goroutines_ok_def)

lemma not_reader: "db_rel s a \<Longrightarrow> (\<And>m. db_state s g \<noteq> Waiting m) \<Longrightarrow> g \<notin> set (readers (db_ch s))"
  using goroutineD [of s a g] by (cases "db_state s g") auto

lemma answersD:
  "db_rel s a \<Longrightarrow> db_ch s = pre @ ReadEvent k g # post \<Longrightarrow>
   \<exists>m. db_state s g = Waiting m \<and> outs a g = db_sent s g @ [db_reply m (lookup_string (foldl serve_event (db_data s) pre) k)]"
  by (simp add: db_rel_def answers_ok_def)

section \<open>A goroutine makes a step\<close>

text \<open>
  A goroutine \<open>g\<close> that is not waiting moves to the state \<open>h\<close>, with the events \<open>es\<close> (none or one)
  added to the channel; the other goroutines and the map stay as they are.
\<close>

lemma db_rel_move:
  assumes rel: "db_rel s a" and "\<And>m. db_state s g \<noteq> Waiting m"
    and ch: "db_ch t = db_ch s @ es" "length es \<le> 1" and "db_data t = db_data s"
    and fresh: "db_next s \<le> db_next t" "g < db_next t"
    and others: "\<And>i. i \<noteq> g \<Longrightarrow> db_state t i = db_state s i \<and> db_got t i = db_got s i \<and> db_sent t i = db_sent s i
        \<and> reqs b i = reqs a i \<and> outs b i = outs a i"
    and st: "store b = foldl serve_event (store a) es"
    and g: "goroutine_ok g (db_state t g) (g \<in> set (readers es)) (db_got t g) (reqs b g) (db_sent t g) (outs b g)"
    and read: "\<And>k i. es = [ReadEvent k i] \<Longrightarrow>
        i = g \<and> (\<exists>m. db_state t g = Waiting m \<and> outs b g = db_sent t g @ [db_reply m (lookup_string (store a) k)])"
  shows "db_rel t b"
proof -
  have gr: "g \<notin> set (readers (db_ch s))" using rel assms(2) by (rule not_reader)
  have es: "readers es = [] \<or> readers es = [g] \<and> (\<exists>k. es = [ReadEvent k g])"
    using ch(2) read by (cases es rule: readers.cases) auto
  have a: "store a = foldl serve_event (db_data s) (db_ch s)" "distinct (readers (db_ch s))"
    using rel by (simp_all add: db_rel_def)
  have "goroutines_ok t b"
    unfolding goroutines_ok_def
  proof
    fix i
    show "goroutine_ok i (db_state t i) (i \<in> set (readers (db_ch t))) (db_got t i) (reqs b i) (db_sent t i) (outs b i)"
    proof (cases "i = g")
      case True
      with g gr ch show ?thesis by simp
    next
      case False
      with es ch have "i \<in> set (readers (db_ch t)) \<longleftrightarrow> i \<in> set (readers (db_ch s))" by auto
      with others [OF False] goroutineD [OF rel, of i] show ?thesis by simp
    qed
  qed
  moreover have "answers_ok t b"
    unfolding answers_ok_def
  proof (intro allI impI)
    fix pre k i post
    assume c: "db_ch t = pre @ ReadEvent k i # post"
    show "\<exists>m. db_state t i = Waiting m
        \<and> outs b i = db_sent t i @ [db_reply m (lookup_string (foldl serve_event (db_data t) pre) k)]"
    proof (cases "i = g")
      case True
      with c gr ch es have "es = [ReadEvent k g]" "pre = db_ch s"
        by (auto simp: append_eq_append_conv2 append_eq_Cons_conv Cons_eq_append_conv)
      with read [of k g] True a assms(5) show ?thesis by simp
    next
      case False
      with c es ch obtain post' where p: "db_ch s = pre @ ReadEvent k i # post'"
        by (cases es) (auto simp: append_eq_append_conv2 append_eq_Cons_conv Cons_eq_append_conv)
      from answersD [OF rel this] others [OF False] assms(5) show ?thesis by simp
    qed
  qed
  moreover have "fresh_ok t b"
    using rel fresh others unfolding db_rel_def fresh_ok_def by (metis leD le_trans)
  moreover have "distinct (readers (db_ch t))" using ch es a(2) gr by auto
  ultimately show ?thesis using a st ch assms(5) by (simp add: db_rel_def)
qed

lemma db_rel_env:
  "db_rel s a \<Longrightarrow> db_rel (s\<lparr>db_hand := h\<rparr>) a"
  "db_rel s a \<Longrightarrow> db_rel (s\<lparr>db_clients := cl, db_closed := d\<rparr>) a"
  by (simp_all add: db_rel_defs)

lemma db_rel_new:
  assumes "db_rel s a"
  shows "db_rel (s\<lparr>db_clients := cl, db_state := (db_state s)(db_next s := Idle),
       db_next := db_next s + 1, db_hand := h\<rparr>) a"
proof -
  have n: "db_state s (db_next s) = Returned" "outs a (db_next s) = db_sent s (db_next s)"
    using assms by (auto simp: db_rel_def fresh_ok_def)
  show ?thesis
    by (rule db_rel_move [OF assms, where g = "db_next s" and es = "[]"])
      (use n goroutineD [OF assms, of "db_next s"] assms in \<open>auto simp: db_rel_def\<close>)
qed

lemma db_rel_idle:
  assumes "db_rel s a" and "db_state s g = Idle"
  shows "db_rel (s\<lparr>db_state := (db_state s)(g := Returned)\<rparr>) a"
  by (rule db_rel_move [OF assms(1), where g = g and es = "[]"])
    (use assms goroutineD [OF assms(1), of g] not_fresh [OF assms(1), of g] in \<open>auto simp: db_rel_def\<close>)

lemma db_rel_written:
  assumes "db_rel s a" and "db_state s g = Writing m v"
  shows "db_rel (s\<lparr>db_sent := (db_sent s)(g := db_sent s g @ [db_reply m v]), db_state := (db_state s)(g := Idle)\<rparr>) a"
  by (rule db_rel_move [OF assms(1), where g = g and es = "[]"])
    (use assms goroutineD [OF assms(1), of g] not_fresh [OF assms(1), of g] in \<open>auto simp: db_rel_def\<close>)

lemma db_rel_failed:
  assumes "db_rel s a" and "db_state s g = Writing m v"
  shows "db_rel (s\<lparr>db_state := (db_state s)(g := Returned)\<rparr>) a"
  by (rule db_rel_move [OF assms(1), where g = g and es = "[]"])
    (use assms goroutineD [OF assms(1), of g] not_fresh [OF assms(1), of g] in \<open>auto simp: db_rel_def\<close>)

lemma db_rel_take:
  fixes m :: string
  assumes "db_rel s a" and "db_state s g = Idle"
  defines "t \<equiv> s\<lparr>db_hand := None, db_got := (db_got s)(g := db_got s g @ [m]),
       db_state := (db_state s)(g := after_take g m)\<rparr>"
  shows "\<exists>b. kv_step\<^sup>*\<^sup>* a b \<and> db_rel t b"
proof -
  note g = goroutineD [OF assms(1), of g] not_fresh [OF assms(1), of g]
  note act = client_action_request [where g = g and m = m and st = "store a"]
  show ?thesis
  proof (cases "client_action g m")
    case Skip
    have "db_rel t (kv_handle g m a)"
      by (rule db_rel_move [OF assms(1), where g = g and es = "[]"])
        (use assms g act Skip in \<open>auto simp: db_rel_def kv_handle_def after_take_def\<close>)
    then show ?thesis by (meson kv_one r_into_rtranclp)
  next
    case (Answer v)
    have "db_rel t (kv_handle g m a)"
      by (rule db_rel_move [OF assms(1), where g = g and es = "[]"])
        (use assms g act Answer in \<open>auto simp: db_rel_def kv_handle_def after_take_def\<close>)
    then show ?thesis by (meson kv_one r_into_rtranclp)
  next
    case (SendEvent e)
    have "db_rel t a"
      by (rule db_rel_move [OF assms(1), where g = g and es = "[]"])
        (use assms g SendEvent in \<open>auto simp: db_rel_def after_take_def\<close>)
    then show ?thesis by blast
  qed
qed

lemma db_rel_send:
  assumes "db_rel s a" and "db_state s g = Sending m e"
  defines "t \<equiv> s\<lparr>db_ch := db_ch s @ [e], db_state := (db_state s)(g := after_send m e)\<rparr>"
  shows "\<exists>b. kv_step\<^sup>*\<^sup>* a b \<and> db_rel t b"
proof -
  note g = goroutineD [OF assms(1), of g] not_fresh [OF assms(1), of g]
  have "client_action g m = SendEvent e" using g(1) assms(2) by simp
  with client_action_request [where g = g and m = m and st = "store a"]
  have act: "kv_request (store a) m = (serve_event (store a) e, event_replies (store a) m e)"
      "\<forall>k h. e = ReadEvent k h \<longrightarrow> h = g"
    by simp_all
  have "db_rel t (kv_handle g m a)"
    by (rule db_rel_move [OF assms(1), where g = g and es = "[e]"])
      (use assms g act in \<open>auto simp: db_rel_def kv_handle_def after_send_def split: db_event.splits\<close>)
  then show ?thesis by (meson kv_one r_into_rtranclp)
qed

lemma db_rel_serve:
  assumes rel: "db_rel s a" and ch: "db_ch s = e # es"
  shows "db_rel (s\<lparr>db_ch := es, db_data := serve_event (db_data s) e, db_state := after_serve s e\<rparr>) a" (is "db_rel ?t a")
proof (cases "\<exists>k g. e = ReadEvent k g")
  case False
  then have "after_serve s e = db_state s" "readers (e # es) = readers es"
    by (cases e; simp add: after_serve_def)+
  note e = this
  have "answers_ok ?t a"
    unfolding answers_ok_def
  proof (intro allI impI)
    fix pre k i post
    assume "db_ch ?t = pre @ ReadEvent k i # post"
    with answersD [OF rel, of "e # pre" k i post] ch e(1)
    show "\<exists>m. db_state ?t i = Waiting m
        \<and> outs a i = db_sent ?t i @ [db_reply m (lookup_string (foldl serve_event (db_data ?t) pre) k)]"
      by simp
  qed
  with e rel ch show ?thesis by (simp add: db_rel_def goroutines_ok_def fresh_ok_def)
next
  case True
  then obtain k g where e: "e = ReadEvent k g" by blast
  from answersD [OF rel, of "[]" k g es] ch e obtain m where m: "db_state s g = Waiting m"
    "outs a g = db_sent s g @ [db_reply m (lookup_string (db_data s) k)]" by auto
  have r: "g \<notin> set (readers es)" "distinct (readers es)" using rel ch e by (auto simp: db_rel_def)
  have "goroutines_ok ?t a"
    unfolding goroutines_ok_def
  proof
    fix i
    show "goroutine_ok i (db_state ?t i) (i \<in> set (readers (db_ch ?t))) (db_got ?t i) (reqs a i) (db_sent ?t i) (outs a i)"
      using goroutineD [OF rel, of i] m r e ch by (cases "i = g") (auto simp: after_serve_def)
  qed
  moreover have "answers_ok ?t a"
    unfolding answers_ok_def
  proof (intro allI impI)
    fix pre k' i post
    assume c: "db_ch ?t = pre @ ReadEvent k' i # post"
    then have "i \<noteq> g" using r by auto
    with answersD [OF rel, of "e # pre" k' i post] c ch m e
    show "\<exists>m. db_state ?t i = Waiting m
        \<and> outs a i = db_sent ?t i @ [db_reply m (lookup_string (foldl serve_event (db_data ?t) pre) k')]"
      by (simp add: after_serve_def)
  qed
  moreover have "fresh_ok ?t a"
    using rel m e not_fresh [OF rel, of g] by (auto simp: db_rel_def fresh_ok_def after_serve_def)
  ultimately show ?thesis using rel ch e r by (simp add: db_rel_def)
qed

section \<open>The refinement\<close>

lemma db_step_sim: "db_step s t \<Longrightarrow> db_rel s a \<Longrightarrow> \<exists>b. kv_step\<^sup>*\<^sup>* a b \<and> db_rel t b"
proof (induction rule: db_step.induct)
  case (take_datagram s g m)
  then show ?case by (intro db_rel_take)
next
  case (send_event s g m e)
  then show ?case by (intro db_rel_send)
qed (blast intro: db_rel_env db_rel_new db_rel_idle db_rel_written db_rel_failed db_rel_serve rtranclp.rtrancl_refl)+

interpretation db_refines: simulation db_step kv_step db_rel
  by unfold_locales (rule db_step_sim)

end
