(* ===== verification/Db_Props.thy ===== *)
theory Db_Props
  imports Db_Refine "HOL-Library.Sublist"
begin

text \<open>
  The properties of the key-value store over UDP: it refines the atomic store, a read is
  answered with the last write, and a reply that is too large stops the server.
\<close>

section \<open>Refinement\<close>

lemma atomic_run:
  assumes "db_step\<^sup>*\<^sup>* db_start s"
  shows "\<exists>a. kv_step\<^sup>*\<^sup>* kv_start a
    \<and> (\<forall>g. \<exists>l. outs a g = db_sent s g @ l \<and> (db_state s g = Idle \<longrightarrow> l = []))
    \<and> (\<forall>g. \<exists>r. db_got s g = reqs a g @ r \<and> length r \<le> 1 \<and> (db_state s g = Idle \<longrightarrow> r = []))
    \<and> (db_ch s = [] \<longrightarrow> store a = db_data s)"
proof -
  obtain a where k: "kv_step\<^sup>*\<^sup>* kv_start a" and r: "db_rel s a"
    using db_refines.run_sim [OF assms db_rel_start] by blast
  have "\<exists>l. outs a g = db_sent s g @ l \<and> (db_state s g = Idle \<longrightarrow> l = [])" for g
  proof (cases "\<exists>m. db_state s g = Waiting m")
    case True
    with goroutineD [OF r, of g] obtain m where m: "db_state s g = Waiting m" "g \<in> set (readers (db_ch s))" by auto
    from in_readers [OF m(2)] answersD [OF r] have "\<exists>l. outs a g = db_sent s g @ l" by blast
    with m show ?thesis by auto
  next
    case False
    with goroutineD [OF r, of g] show ?thesis by (cases "db_state s g") auto
  qed
  moreover have "\<exists>r. db_got s g = reqs a g @ r \<and> length r \<le> 1 \<and> (db_state s g = Idle \<longrightarrow> r = [])" for g
    using goroutineD [OF r, of g] by (cases "db_state s g") auto
  ultimately show ?thesis using k r by (auto simp: db_rel_def)
qed

text \<open>
  C3: In every interleaving of the goroutines, for all clients at once: what each client has been sent is
  what the atomic store, serving one datagram after the other, has answered to this client, up to
  answers that are still under way or lost, and the datagrams of each client were served in the order
  in which they were received, up to the last one, which may still be waiting.
\<close>

theorem the_store_is_atomic:
  assumes "db_step\<^sup>*\<^sup>* db_start s"
  shows "\<exists>a. kv_step\<^sup>*\<^sup>* kv_start a
    \<and> (\<forall>g. \<exists>l. outs a g = db_sent s g @ l \<and> (db_state s g = Idle \<longrightarrow> l = []))
    \<and> (\<forall>g. \<exists>r. db_got s g = reqs a g @ r \<and> length r \<le> 1 \<and> (db_state s g = Idle \<longrightarrow> r = []))
    \<and> (db_ch s = [] \<longrightarrow> store a = db_data s)"
  by (rule atomic_run [OF assms])

text \<open>One client with the address \<open>a\<close>, and a run of it.\<close>

definition one_client ::
  "(string \<rightharpoonup> string) \<Rightarrow> db_event list \<Rightarrow> (nat \<times> string) option \<Rightarrow> hstate \<Rightarrow> string list \<Rightarrow> string list \<Rightarrow> dbsys" where
  "one_client d ch h st gt sn =
     \<lparr>db_data = d, db_ch = ch, db_clients = [''a'' \<mapsto> 0], db_next = 1, db_hand = h,
      db_state = (\<lambda>g. Returned)(0 := st), db_closed = {}, db_got = (\<lambda>g. [])(0 := gt), db_sent = (\<lambda>g. [])(0 := sn)\<rparr>"

lemma one_client_new: "db_step db_start (one_client Map.empty [] (Some (0, m)) Idle [] [])"
  using udp_receive_new [of db_start "''a''" m] by (simp add: db_start_def one_client_def fun_upd_idem)

lemma one_client_receive: "db_step (one_client d ch None st gt sn) (one_client d ch (Some (0, m)) st gt sn)"
  using udp_receive [of "one_client d ch None st gt sn" "''a''" 0 m] by (simp add: one_client_def)

lemma one_client_take:
  "db_step (one_client d ch (Some (0, m)) Idle gt sn) (one_client d ch None (after_take 0 m) (gt @ [m]) sn)"
  using take_datagram [of "one_client d ch (Some (0, m)) Idle gt sn" 0 m] by (simp add: one_client_def)

lemma one_client_send:
  "db_step (one_client d [] h (Sending m e) gt sn) (one_client d [e] h (after_send m e) gt sn)"
  using send_event [of "one_client d [] h (Sending m e) gt sn" 0 m e] by (simp add: one_client_def)

lemma one_client_serve_write:
  "db_step (one_client d [WriteEvent k v] h st gt sn) (one_client (d(k \<mapsto> v)) [] h st gt sn)"
  using serve [of "one_client d [WriteEvent k v] h st gt sn" "WriteEvent k v" "[]"]
  by (simp add: one_client_def after_serve_def)

lemma one_client_serve_read:
  "db_step (one_client d [ReadEvent k 0] h (Waiting m) gt sn) (one_client d [] h (Writing m (lookup_string d k)) gt sn)"
  using serve [of "one_client d [ReadEvent k 0] h (Waiting m) gt sn" "ReadEvent k 0" "[]"]
  by (simp add: one_client_def after_serve_def)

lemma one_client_write:
  "length (db_reply m v) \<le> MAX_DATAGRAM_SIZE \<Longrightarrow>
   db_step (one_client d ch h (Writing m v) gt sn) (one_client d ch h Idle gt (sn @ [db_reply m v]))"
  using write_reply [of "one_client d ch h (Writing m v) gt sn" 0 m v "\<lambda>p. Inr (length p)"]
  by (simp add: one_client_def UDP_Write_def)

lemma one_client_set:
  assumes "db_step\<^sup>*\<^sup>* s (one_client d [] (Some (0, k @ ''='' @ v)) Idle gt sn)"
    and "CHR ''='' \<notin> set k" "k \<noteq> ''version''"
  shows "db_step\<^sup>*\<^sup>* s (one_client (d(k \<mapsto> v)) [] None Idle (gt @ [k @ ''='' @ v]) sn)"
proof -
  have "slices_Index (k @ ''='' @ v) (CHR ''='') = Some (length k)"
    using assms(2) by (induction k) auto
  with assms(3) have "after_take 0 (k @ ''='' @ v) = Sending (k @ ''='' @ v) (WriteEvent k v)"
    by (simp add: after_take_def client_action_def)
  with assms(1) one_client_take [of d "[]" "k @ ''='' @ v" gt sn]
  have "db_step\<^sup>*\<^sup>* s (one_client d [] None (Sending (k @ ''='' @ v) (WriteEvent k v)) (gt @ [k @ ''='' @ v]) sn)"
    by (simp add: rtranclp.rtrancl_into_rtrancl)
  from this one_client_send
  have "db_step\<^sup>*\<^sup>* s (one_client d [WriteEvent k v] None (after_send (k @ ''='' @ v) (WriteEvent k v)) (gt @ [k @ ''='' @ v]) sn)"
    by (rule rtranclp.rtrancl_into_rtrancl)
  then have "db_step\<^sup>*\<^sup>* s (one_client d [WriteEvent k v] None Idle (gt @ [k @ ''='' @ v]) sn)"
    by (simp add: after_send_def)
  from this one_client_serve_write show ?thesis by (rule rtranclp.rtrancl_into_rtrancl)
qed

lemma one_client_get:
  assumes "db_step\<^sup>*\<^sup>* s (one_client d [] (Some (0, k)) Idle gt sn)"
    and "CHR ''='' \<notin> set k" "k \<noteq> ''version''" "k \<noteq> ''delete''"
  shows "db_step\<^sup>*\<^sup>* s (one_client d [] None (Writing k (lookup_string d k)) (gt @ [k]) sn)"
proof -
  have "slices_Index k (CHR ''='') = None" using assms(2) by simp
  with assms(3,4) have t: "after_take 0 k = Sending k (ReadEvent k 0)"
    by (simp del: slices_Index_None add: after_take_def client_action_def Let_def)
  from assms(1) one_client_take [of d "[]" k gt sn]
  have "db_step\<^sup>*\<^sup>* s (one_client d [] None (Sending k (ReadEvent k 0)) (gt @ [k]) sn)"
    unfolding t by (rule rtranclp.rtrancl_into_rtrancl)
  from this one_client_send
  have "db_step\<^sup>*\<^sup>* s (one_client d [ReadEvent k 0] None (after_send k (ReadEvent k 0)) (gt @ [k]) sn)"
    by (rule rtranclp.rtrancl_into_rtrancl)
  then have "db_step\<^sup>*\<^sup>* s (one_client d [ReadEvent k 0] None (Waiting k) (gt @ [k]) sn)"
    by (simp add: after_send_def)
  from this one_client_serve_read show ?thesis by (rule rtranclp.rtrancl_into_rtrancl)
qed

lemma one_client_more:
  "db_step\<^sup>*\<^sup>* s (one_client d ch None st gt sn) \<Longrightarrow> db_step\<^sup>*\<^sup>* s (one_client d ch (Some (0, m)) st gt sn)"
  by (erule rtranclp.rtrancl_into_rtrancl) (rule one_client_receive)

lemma one_client_first: "db_step\<^sup>*\<^sup>* db_start (one_client Map.empty [] (Some (0, m)) Idle [] [])"
  by (rule r_into_rtranclp) (rule one_client_new)

definition after_get :: dbsys where
  "after_get = one_client [''foo'' \<mapsto> ''123''] [] None Idle [''foo=123'', ''foo''] [''foo=123'']"

lemma after_get_reachable: "db_step\<^sup>*\<^sup>* db_start after_get"
proof -
  have "db_step\<^sup>*\<^sup>* db_start (one_client [''foo'' \<mapsto> ''123''] [] None Idle [''foo=123''] [])"
    using one_client_set [of db_start Map.empty "''foo''" "''123''" "[]" "[]"] one_client_first by simp
  from one_client_get [OF one_client_more [OF this, of "''foo''"]]
  have "db_step\<^sup>*\<^sup>* db_start (one_client [''foo'' \<mapsto> ''123''] [] None (Writing ''foo'' ''123'') [''foo=123'', ''foo''] [])"
    by (simp add: lookup_string_def)
  from rtranclp.rtrancl_into_rtrancl [OF this one_client_write] show ?thesis
    by (simp add: after_get_def db_reply_def endsWithCRLF_def CR_def LF_def MAX_DATAGRAM_SIZE_def)
qed

theorem the_store_is_atomic_witness:
  "\<exists>a. kv_step\<^sup>*\<^sup>* kv_start a \<and> outs a 0 = [''foo=123''] \<and> reqs a 0 = [''foo=123'', ''foo'']
    \<and> store a = [''foo'' \<mapsto> ''123'']"
proof -
  have s: "db_state after_get 0 = Idle" "db_sent after_get 0 = [''foo=123'']" "db_got after_get 0 = [''foo=123'', ''foo'']"
    "db_ch after_get = []" "db_data after_get = [''foo'' \<mapsto> ''123'']"
    by (simp_all add: after_get_def one_client_def)
  from the_store_is_atomic [OF after_get_reachable] obtain a where "kv_step\<^sup>*\<^sup>* kv_start a"
    and o: "\<forall>g. \<exists>l. outs a g = db_sent after_get g @ l \<and> (db_state after_get g = Idle \<longrightarrow> l = [])"
    and r: "\<forall>g. \<exists>r. db_got after_get g = reqs a g @ r \<and> length r \<le> 1 \<and> (db_state after_get g = Idle \<longrightarrow> r = [])"
    and "db_ch after_get = [] \<longrightarrow> store a = db_data after_get" by blast
  moreover from spec [OF o, of 0] s have "outs a 0 = [''foo=123'']" by auto
  moreover from spec [OF r, of 0] s have "reqs a 0 = [''foo=123'', ''foo'']" by auto
  ultimately show ?thesis using s by auto
qed

section \<open>Reads and writes\<close>

text \<open>
  What was last written to a key, in a list of datagrams with the latest first; the replies to a
  datagram after the datagrams \<open>past\<close>; and what the address \<open>g\<close> is answered when the datagrams \<open>rs\<close>, each
  with its address, are handled one after the other.
\<close>

fun last_write :: "string \<Rightarrow> string list \<Rightarrow> string" where
  "last_write k [] = []"
| "last_write k (m # ms) =
     (if take (length k + 1) m = k @ ''='' then drop (length k + 1) m
      else if m = ''delete'' then []
      else last_write k ms)"

definition answer :: "string list \<Rightarrow> string \<Rightarrow> string list" where
  "answer past m =
     (if CHR ''='' \<in> set m \<or> m = ''delete'' then []
      else [m @ ''='' @ (if m = ''version'' then ''alpha'' else last_write m past)
              @ (if suffix [CR, LF] m then [CR, LF] else [])])"

fun answers :: "nat \<Rightarrow> string list \<Rightarrow> (nat \<times> string) list \<Rightarrow> string list" where
  "answers g past [] = []"
| "answers g past ((h, m) # rs) = (if h = g then answer past m else []) @ answers g (m # past) rs"

lemma answers_append:
  "answers g past (rs @ rs') = answers g past rs @ answers g (rev (map snd rs) @ past) rs'"
  by (induction g past rs rule: answers.induct) auto

lemma endsWithCRLF_suffix: "endsWithCRLF m \<longleftrightarrow> suffix [CR, LF] m"
proof
  assume "endsWithCRLF m"
  then have "m = take (length m - 2) m @ [CR, LF]" by (metis append_take_drop_id endsWithCRLF_def)
  then show "suffix [CR, LF] m" by (metis suffixI)
qed (auto simp: suffix_def endsWithCRLF_def)

lemma takeWhile_key: "CHR ''='' \<notin> set k \<Longrightarrow> takeWhile (\<lambda>c. c \<noteq> CHR ''='') (k @ CHR ''='' # r) = k"
  by (induction k) auto

lemma key_value:
  assumes "CHR ''='' \<notin> set k" and "CHR ''='' \<in> set m"
  shows "takeWhile (\<lambda>c. c \<noteq> CHR ''='') m = k \<longleftrightarrow> take (length k + 1) m = k @ ''=''"
proof -
  from split_list_first [OF assms(2)] obtain j r where m: "m = j @ CHR ''='' # r" "CHR ''='' \<notin> set j" by blast
  have "j = k" if "take (length k + 1) m = k @ ''=''"
  proof -
    have "m = (k @ ''='') @ drop (length k + 1) m"
      using append_take_drop_id [of "length k + 1" m] unfolding that by (rule sym)
    then have "m = k @ CHR ''='' # drop (length k + 1) m" by simp
    then have "takeWhile (\<lambda>c. c \<noteq> CHR ''='') m = k" using takeWhile_key [OF assms(1)] by metis
    then show ?thesis using takeWhile_key [OF m(2)] m(1) by simp
  qed
  then show ?thesis using takeWhile_key [OF m(2)] m(1) by auto
qed

lemma write_has_eq: "take (length k + 1) m = k @ ''='' \<Longrightarrow> CHR ''='' \<in> set m"
  by (metis in_set_conv_decomp in_set_takeD append_Cons)

definition says_last_write :: "kv \<Rightarrow> (nat \<times> string) list \<Rightarrow> bool" where
  "says_last_write a rs \<longleftrightarrow> (\<forall>g. reqs a g = map snd (filter (\<lambda>x. fst x = g) rs) \<and> outs a g = answers g [] rs)
     \<and> (\<forall>k. CHR ''='' \<notin> set k \<longrightarrow> k \<noteq> ''version'' \<longrightarrow> lookup_string (store a) k = last_write k (rev (map snd rs)))"

lemma request_store:
  assumes "CHR ''='' \<notin> set k" and "k \<noteq> ''version''"
  shows "lookup_string (fst (kv_request st m)) k
    = (if take (length k + 1) m = k @ ''='' then drop (length k + 1) m
       else if m = ''delete'' then [] else lookup_string st k)"
proof (cases "CHR ''='' \<in> set m")
  case True
  then have "m \<noteq> ''delete''" by auto
  with True key_value [OF assms(1) True] assms show ?thesis
    by (auto simp: kv_request_def Let_def lookup_string_def)
next
  case False
  with write_has_eq [of k m] show ?thesis by (auto simp: kv_request_def lookup_string_def)
qed

lemma kv_says_last_write: "kv_step\<^sup>*\<^sup>* kv_start a \<Longrightarrow> \<exists>rs. says_last_write a rs"
proof (induction rule: rtranclp_induct)
  case base
  have "says_last_write kv_start []" by (simp add: says_last_write_def kv_start_def lookup_string_def)
  then show ?case by blast
next
  case (step a b)
  from step.hyps(2) obtain g m where b: "b = kv_handle g m a" by (auto elim: kv_step.cases)
  from step.IH obtain rs where rs: "says_last_write a rs" by blast
  then have read: "CHR ''='' \<notin> set m \<Longrightarrow> m \<noteq> ''version'' \<Longrightarrow> lookup_string (store a) m = last_write m (rev (map snd rs))"
    by (simp add: says_last_write_def)
  have "snd (kv_request (store a) m) = answer (rev (map snd rs)) m"
    using read by (simp add: kv_request_def answer_def db_reply_def endsWithCRLF_suffix VERSION_def Let_def)
  then have "says_last_write b (rs @ [(g, m)])"
    using rs by (simp add: says_last_write_def b kv_handle_def answers_append request_store)
  then show ?case by blast
qed

text \<open>
  C35: In every interleaving of the goroutines there is one order of the datagrams of all clients, in
  which those of each client come as they were received, up to the last one, which may still wait, such
  that what each client has been sent is, up to answers that are still under way or lost, the following.
  A read of a key is answered with the key, an equals sign and the value that was last written to
  it in this order, by anyone, or nothing if the store has been emptied since or nothing was written. A key
  has no equals sign, a value is everything behind the first one. The key \<open>version\<close> always has the
  value \<open>alpha\<close>, and \<open>delete\<close> is not a key that can be read: it empties the store. A line end that the
  request has is repeated. Writes and \<open>delete\<close> are not answered.
\<close>

theorem reads_see_the_last_write:
  assumes "db_step\<^sup>*\<^sup>* db_start s"
  shows "\<exists>rs. (\<forall>g. \<exists>r. db_got s g = map snd (filter (\<lambda>x. fst x = g) rs) @ r
          \<and> length r \<le> 1 \<and> (db_state s g = Idle \<longrightarrow> r = []))
      \<and> (\<forall>g. \<exists>l. answers g [] rs = db_sent s g @ l \<and> (db_state s g = Idle \<longrightarrow> l = []))"
proof -
  obtain a where a: "kv_step\<^sup>*\<^sup>* kv_start a"
    and o: "\<forall>g. \<exists>l. outs a g = db_sent s g @ l \<and> (db_state s g = Idle \<longrightarrow> l = [])"
    and r: "\<forall>g. \<exists>r. db_got s g = reqs a g @ r \<and> length r \<le> 1 \<and> (db_state s g = Idle \<longrightarrow> r = [])"
    using atomic_run [OF assms] by blast
  from kv_says_last_write [OF a] obtain rs where "says_last_write a rs" by blast
  with o r show ?thesis by (intro exI [of _ rs]) (simp add: says_last_write_def)
qed

theorem reads_see_the_last_write_witness:
  "\<exists>rs. map snd (filter (\<lambda>x. fst x = 0) rs) = [''foo=123'', ''foo''] \<and> answers 0 [] rs = [''foo=123'']"
proof -
  have s: "db_state after_get 0 = Idle" "db_sent after_get 0 = [''foo=123'']" "db_got after_get 0 = [''foo=123'', ''foo'']"
    by (simp_all add: after_get_def one_client_def)
  from reads_see_the_last_write [OF after_get_reachable] obtain rs where
    r: "\<forall>g. \<exists>r. db_got after_get g = map snd (filter (\<lambda>x. fst x = g) rs) @ r
          \<and> length r \<le> 1 \<and> (db_state after_get g = Idle \<longrightarrow> r = [])"
    and o: "\<forall>g. \<exists>l. answers g [] rs = db_sent after_get g @ l \<and> (db_state after_get g = Idle \<longrightarrow> l = [])" by blast
  from spec [OF r, of 0] spec [OF o, of 0] s show ?thesis by (intro exI [of _ rs]) auto
qed

lemma reads_in_turn:
  "answers 0 [] [(0, ''foo=1''), (1, ''foo=2=3''), (0, ''foo''), (1, ''delete''), (0, ''foo''), (0, ''version'')]
    = [''foo=2=3'', ''foo='', ''version=alpha'']"
  by (simp add: answer_def suffix_def CR_def LF_def)

section \<open>A reply that is too large\<close>

text \<open>
  The UDP server is blocked for ever in handing a datagram over: it serves no client any more.
\<close>

definition hangs :: "dbsys \<Rightarrow> bool" where
  "hangs s \<longleftrightarrow> db_hand s \<noteq> None \<and> (\<forall>t. db_step\<^sup>*\<^sup>* s t \<longrightarrow> db_hand t = db_hand s)"

text \<open>A goroutine that has a reply to write which is too large never reads a datagram again.\<close>

definition gone :: "nat \<Rightarrow> dbsys \<Rightarrow> bool" where
  "gone g s \<longleftrightarrow> g < db_next s
     \<and> (db_state s g = Returned
        \<or> (\<exists>m v. db_state s g = Writing m v \<and> MAX_DATAGRAM_SIZE < length (db_reply m v)))"

lemma after_serve_same: "(\<And>m. db_state s g \<noteq> Waiting m) \<Longrightarrow> after_serve s e g = db_state s g"
  by (auto simp: after_serve_def split: db_event.split hstate.split)

lemma UDP_Write_fits: "UDP_Write WriteTo p = None \<Longrightarrow> length p \<le> MAX_DATAGRAM_SIZE"
  by (auto simp: UDP_Write_def split: if_splits)

lemma gone_step: "db_step s t \<Longrightarrow> gone g s \<Longrightarrow>
  gone g t \<and> db_sent t g = db_sent s g \<and> (\<forall>m. db_hand s = Some (g, m) \<longrightarrow> db_hand t = Some (g, m))"
proof (induction rule: db_step.induct)
  case (serve s e es)
  then have "after_serve s e g = db_state s g" by (intro after_serve_same) (auto simp: gone_def)
  with serve show ?case by (simp add: gone_def)
next
  case (write_reply s h m v WriteTo)
  with UDP_Write_fits [OF write_reply.hyps(2)] have "h \<noteq> g" by (auto simp: gone_def)
  with write_reply show ?case by (simp add: gone_def)
next
  case (take_datagram s h m)
  then have "h \<noteq> g" by (auto simp: gone_def)
  with take_datagram show ?case by (simp add: gone_def)
qed (auto simp: gone_def)

lemma gone_run: "db_step\<^sup>*\<^sup>* s t \<Longrightarrow> gone g s \<Longrightarrow>
  gone g t \<and> db_sent t g = db_sent s g \<and> (\<forall>m. db_hand s = Some (g, m) \<longrightarrow> db_hand t = Some (g, m))"
proof (induction rule: rtranclp_induct)
  case (step t u)
  with gone_step [OF step.hyps(2)] show ?case by simp
qed simp

text \<open>
  C39: What becomes of a reply depends on its size, which is that of the request, the equals sign, the
  value and the line end, if the request has one. Up to 65507 bytes it can be sent, and the goroutine of
  the address waits for the next datagram. A larger one is never sent, and from then on the goroutine
  reads no more: the next datagram that the UDP server has for it before the timeout stops the whole
  server, which waits for ever to hand this datagram over.
\<close>

theorem a_large_reply_stops_the_server:
  assumes "db_step\<^sup>*\<^sup>* db_start s" and "db_state s g = Writing m v"
  shows "if length m + 1 + length v + (if suffix [CR, LF] m then 2 else 0) \<le> 65507
    then \<exists>t. db_step s t \<and> db_state t g = Idle
      \<and> db_sent t g = db_sent s g @ [m @ ''='' @ v @ (if suffix [CR, LF] m then [CR, LF] else [])]
    else \<forall>t. db_step\<^sup>*\<^sup>* s t \<longrightarrow> db_sent t g = db_sent s g \<and> (\<forall>m'. db_hand t = Some (g, m') \<longrightarrow> hangs t)"
proof -
  let ?n = "length m + 1 + length v + (if suffix [CR, LF] m then 2 else 0)"
  have reply: "db_reply m v = m @ ''='' @ v @ (if suffix [CR, LF] m then [CR, LF] else [])"
    by (simp add: db_reply_def endsWithCRLF_suffix)
  then have n: "length (db_reply m v) = ?n" by simp
  show ?thesis
  proof (cases "?n \<le> 65507")
    case True
    with n have "UDP_Write (\<lambda>p. Inr (length p)) (db_reply m v) = None"
      by (simp add: UDP_Write_def MAX_DATAGRAM_SIZE_def)
    from write_reply [OF assms(2) this]
    have "\<exists>t. db_step s t \<and> db_state t g = Idle \<and> db_sent t g = db_sent s g @ [db_reply m v]"
      by (intro exI conjI) (assumption, simp_all)
    with True show ?thesis unfolding reply by (simp only: if_True)
  next
    case False
    obtain a where "db_rel s a" using db_refines.run_sim [OF assms(1) db_rel_start] by blast
    with assms(2) have "g < db_next s" by (auto intro: not_fresh)
    with assms(2) False n have gone: "gone g s" by (simp add: gone_def MAX_DATAGRAM_SIZE_def)
    have "db_sent t g = db_sent s g \<and> (\<forall>m'. db_hand t = Some (g, m') \<longrightarrow> hangs t)" if "db_step\<^sup>*\<^sup>* s t" for t
    proof -
      from gone_run [OF that gone] have "gone g t" "db_sent t g = db_sent s g" by simp_all
      moreover have "hangs t" if "db_hand t = Some (g, m')" for m'
        unfolding hangs_def using gone_run [OF _ \<open>gone g t\<close>] that by fastforce
      ultimately show ?thesis by blast
    qed
    then have "\<forall>t. db_step\<^sup>*\<^sup>* s t \<longrightarrow> db_sent t g = db_sent s g \<and> (\<forall>m'. db_hand t = Some (g, m') \<longrightarrow> hangs t)"
      by blast
    then show ?thesis using False by argo
  qed
qed

text \<open>A value of 65502 bytes, written under a key that ends with a line end, is one byte too long to be read.\<close>

theorem a_large_reply_stops_the_server_witness:
  "\<exists>s. db_step\<^sup>*\<^sup>* db_start s
    \<and> db_got s 0 = [''k'' @ [CR, LF] @ ''='' @ replicate 65502 CHR ''v'', ''k'' @ [CR, LF]]
    \<and> (\<exists>t. db_step s t \<and> hangs t)"
proof -
  define k where "k = ''k'' @ [CR, LF]"
  define v where "v = replicate 65502 (CHR ''v'')"
  let ?s = "one_client [k \<mapsto> v] [] None (Writing k v) [k @ ''='' @ v, k] []"
  let ?t = "one_client [k \<mapsto> v] [] (Some (0, [])) (Writing k v) [k @ ''='' @ v, k] []"
  have k: "CHR ''='' \<notin> set k" "k \<noteq> ''version''" "k \<noteq> ''delete''" by (simp_all add: k_def CR_def LF_def)
  have l: "length k = 3" "suffix [CR, LF] k" by (simp_all add: k_def suffix_def)
  have "db_step\<^sup>*\<^sup>* db_start (one_client [k \<mapsto> v] [] None Idle [k @ ''='' @ v] [])"
    using one_client_set [OF one_client_first k(1,2)] by simp
  from one_client_get [OF one_client_more [OF this, of k] k]
  have run: "db_step\<^sup>*\<^sup>* db_start ?s" by (simp add: lookup_string_def)
  have w: "db_state ?s 0 = Writing k v" by (simp add: one_client_def)
  have "\<not> length k + 1 + length v + (if suffix [CR, LF] k then 2 else 0) \<le> 65507"
    using l by (simp add: v_def)
  with a_large_reply_stops_the_server [OF run w]
  have "\<forall>t. db_step\<^sup>*\<^sup>* ?s t \<longrightarrow> (\<forall>m'. db_hand t = Some (0, m') \<longrightarrow> hangs t)" by presburger
  moreover have "db_step ?s ?t" by (rule one_client_receive)
  moreover have "db_hand ?t = Some (0, [])" by (simp add: one_client_def)
  ultimately have "\<exists>t. db_step ?s t \<and> hangs t" by blast
  moreover have "db_got ?s 0 = [k @ ''='' @ v, k]" by (simp add: one_client_def)
  ultimately show ?thesis using run unfolding k_def v_def by (metis append_assoc)
qed

end
