(* ===== verification/Means.thy ===== *)
theory Means
  imports Reader_Returns "HOL-Library.Signed_Division"
begin

text \<open>
  \<^verbatim>\<open>means/server.go\<close>: the server that is told prices with their times, and asked for the mean price
  of a range of times. Every client has data of its own. An \<open>int32\<close> is a word of 32 bits that is
  read as signed, an \<open>int64\<close> one of 64 bits.
\<close>

section \<open>The handler\<close>

record StepTwoData =
  timestamp :: "32 word"
  price :: "32 word"

text \<open>\<open>int32(sum / int64(count))\<close>: Go truncates the quotient towards zero.\<close>

definition avg_of :: "64 word \<Rightarrow> 32 word \<Rightarrow> 32 word" where
  "avg_of tot count = word_of_int (sint tot sdiv sint count)"

definition query_step ::
  "32 word \<Rightarrow> 32 word \<Rightarrow> 64 word \<times> 32 word \<Rightarrow> StepTwoData \<Rightarrow> 64 word \<times> 32 word" where
  "query_step minTime maxTime acc it =
     (if minTime <=s timestamp it \<and> timestamp it <=s maxTime
      then (fst acc + scast (price it), snd acc + 1) else acc)"

definition means_query :: "StepTwoData list \<Rightarrow> 32 word \<Rightarrow> 32 word \<Rightarrow> 32 word" where
  "means_query data minTime maxTime =
     (case foldl (query_step minTime maxTime) (0, 0) data of
        (tot, count) \<Rightarrow> (if 0 <s count then avg_of tot count else 0))"

text \<open>\<open>reader.ReadB(c, &x)\<close> with its error ignored: the variable keeps its zero value.\<close>

definition read_ignoring :: "conn \<Rightarrow> (u32 \<times> conn) option" where
  "read_ignoring s =
     (case ReadB_u32 conn_Read s of
        None \<Rightarrow> None
      | Some (Inr x, s') \<Rightarrow> Some (x, s')
      | Some (Inl err, s') \<Rightarrow> Some (0, s'))"

text \<open>The loop: what it writes to the client, and the error it returns.\<close>

partial_function (option) means_loop :: "StepTwoData list \<Rightarrow> conn \<Rightarrow> (bytes list \<times> go_error option) option" where
  "means_loop data s =
     (case conn_Read s 1 of
        ((buf, err), s0) \<Rightarrow>
          (if err \<noteq> None \<or> length buf \<noteq> 1
           then Some ([], case err of
                            None \<Rightarrow> None
                          | Some e \<Rightarrow> (if errors_Is e EOF then None else Some e))
           else if buf ! 0 = 0x49
           then Option.bind (read_ignoring s0) (\<lambda>(t, s1).
                Option.bind (read_ignoring s1) (\<lambda>(p, s2).
                  means_loop (data @ [\<lparr>timestamp = t, price = p\<rparr>]) s2))
           else if buf ! 0 = 0x51
           then Option.bind (read_ignoring s0) (\<lambda>(minTime, s1).
                Option.bind (read_ignoring s1) (\<lambda>(maxTime, s2).
                Option.bind (means_loop data s2) (\<lambda>(ws, r).
                  Some (be_put32 (means_query data minTime maxTime) # ws, r))))
           else means_loop data s0))"

definition means_Handler :: "conn \<Rightarrow> (bytes list \<times> go_error option) option" where
  "means_Handler s = means_loop [] s"

section \<open>The mean\<close>

definition in_range :: "32 word \<Rightarrow> 32 word \<Rightarrow> StepTwoData list \<Rightarrow> int list" where
  "in_range minTime maxTime data =
     map (\<lambda>it. sint (price it)) (filter (\<lambda>it. sint minTime \<le> sint (timestamp it) \<and> sint (timestamp it) \<le> sint maxTime) data)"

lemma query_fold:
  "foldl (query_step lo hi) (word_of_int a, of_nat n) data
     = (word_of_int (a + sum_list (in_range lo hi data)), of_nat (n + length (in_range lo hi data)))"
proof (induction data arbitrary: a n)
  case Nil
  then show ?case by (simp add: in_range_def)
next
  case (Cons it data)
  show ?case
  proof (cases "sint lo \<le> sint (timestamp it) \<and> sint (timestamp it) \<le> sint hi")
    case True
    then have "query_step lo hi (word_of_int a, of_nat n) it = (word_of_int (a + sint (price it)), of_nat (Suc n))"
      by (simp add: query_step_def word_sle_eq algebra_simps)
    with True Cons.IH [of "a + sint (price it)" "Suc n"] show ?thesis
      by (simp add: in_range_def add.assoc)
  next
    case False
    then have "query_step lo hi (word_of_int a, of_nat n) it = (word_of_int a, of_nat n)"
      by (auto simp: query_step_def word_sle_eq)
    with False Cons.IH [of a n] show ?thesis by (simp add: in_range_def)
  qed
qed

lemma sint_bounds32: "- (2 ^ 31) \<le> sint (w :: 32 word) \<and> sint w < 2 ^ 31"
  using sint_greater_eq [of w] sint_lt [of w] by simp

lemma sum_in_range:
  "- (2 ^ 31 * int (length (in_range lo hi data))) \<le> sum_list (in_range lo hi data)
   \<and> sum_list (in_range lo hi data) \<le> (2 ^ 31 - 1) * int (length (in_range lo hi data))"
proof (induction data)
  case Nil
  then show ?case by (simp add: in_range_def)
next
  case (Cons it data)
  then show ?case using sint_bounds32 [of "price it"] by (auto simp: in_range_def algebra_simps)
qed

lemma sint_in_bounds:
  "- (2 ^ 63) \<le> k \<Longrightarrow> k < 2 ^ 63 \<Longrightarrow> sint (word_of_int k :: 64 word) = k"
  "- (2 ^ 31) \<le> k \<Longrightarrow> k < 2 ^ 31 \<Longrightarrow> sint (word_of_int k :: 32 word) = k"
  by (simp_all add: sint_sbintrunc' signed_take_bit_int_eq_self)

lemma sdiv_pos: "0 < n \<Longrightarrow> (k :: int) sdiv n = (if 0 \<le> k then k div n else - ((- k) div n))"
  by (auto simp: signed_divide_int_def sgn_if)

lemma quotient_bounds:
  assumes "0 < n" and "- (2 ^ 31 * n) \<le> k" and "k \<le> (2 ^ 31 - 1) * n"
  shows "- (2 ^ 31) \<le> k sdiv n \<and> k sdiv n < (2 :: int) ^ 31"
proof (cases "0 \<le> k")
  case True
  have "k div n \<le> ((2 ^ 31 - 1) * n) div n" using assms by (intro zdiv_mono1) auto
  moreover have "0 \<le> k div n" using assms True by (simp add: pos_imp_zdiv_nonneg_iff)
  ultimately show ?thesis using assms True by (simp add: sdiv_pos)
next
  case False
  have "(- k) div n \<le> (2 ^ 31 * n) div n" using assms by (intro zdiv_mono1) auto
  moreover have "0 \<le> (- k) div n" using assms False by (simp add: pos_imp_zdiv_nonneg_iff)
  ultimately show ?thesis using assms False by (simp add: sdiv_pos)
qed

text \<open>
  C34: With fewer than 2^31 prices the arithmetic of the query does not overflow: the answer is the exact
  mean of the prices in the range of times, truncated towards zero, and 0 without any.
\<close>

theorem mean_is_exact:
  assumes "length data < 2 ^ 31"
  shows "sint (means_query data minTime maxTime) =
    (let xs = in_range minTime maxTime data
     in if xs = [] then 0 else sum_list xs sdiv int (length xs))"
proof -
  define xs where "xs = in_range minTime maxTime data"
  define n where "n = int (length xs)"
  have l: "length xs \<le> length data" by (simp add: xs_def in_range_def)
  then have n: "0 \<le> n" "n < 2 ^ 31" using assms by (simp_all add: n_def)
  have S: "- (2 ^ 31 * n) \<le> sum_list xs" "sum_list xs \<le> (2 ^ 31 - 1) * n"
    using sum_in_range [of minTime maxTime data] by (simp_all add: xs_def n_def)
  have f: "foldl (query_step minTime maxTime) (0, 0) data = (word_of_int (sum_list xs), word_of_int n)"
    using query_fold [of minTime maxTime 0 0 data] by (simp add: xs_def n_def)
  have "sint (word_of_int (sum_list xs) :: 64 word) = sum_list xs"
    using S n by (intro sint_in_bounds) simp_all
  moreover have "sint (word_of_int n :: 32 word) = n"
    using n by (intro sint_in_bounds) linarith+
  moreover have "sint (word_of_int (sum_list xs sdiv n) :: 32 word) = sum_list xs sdiv n" if "0 < n"
    using quotient_bounds [OF that S] by (intro sint_in_bounds) simp_all
  moreover have "n = 0 \<longleftrightarrow> xs = []" by (simp add: n_def)
  ultimately show ?thesis
    using n f unfolding means_query_def avg_of_def Let_def xs_def [symmetric] n_def [symmetric]
    by (auto simp: word_sless_alt)
qed

theorem mean_is_exact_witness:
  "sint (means_query [\<lparr>timestamp = 5, price = 100\<rparr>, \<lparr>timestamp = 7, price = - 203\<rparr>, \<lparr>timestamp = - 1, price = 8\<rparr>] 0 9) = - 51"
  using mean_is_exact [of "[\<lparr>timestamp = 5, price = 100\<rparr>, \<lparr>timestamp = 7, price = - 203\<rparr>, \<lparr>timestamp = - 1, price = 8\<rparr>]" 0 9]
  by (simp add: in_range_def sdiv_pos)

section \<open>Sessions\<close>

datatype means_msg = Insert "32 word" "32 word" | Query "32 word" "32 word"

fun encode_means :: "means_msg \<Rightarrow> bytes" where
  "encode_means (Insert t p) = 0x49 # be_put32 t @ be_put32 p"
| "encode_means (Query lo hi) = 0x51 # be_put32 lo @ be_put32 hi"

fun means_answers :: "StepTwoData list \<Rightarrow> means_msg list \<Rightarrow> bytes list" where
  "means_answers data [] = []"
| "means_answers data (Insert t p # ms) = means_answers (data @ [\<lparr>timestamp = t, price = p\<rparr>]) ms"
| "means_answers data (Query lo hi # ms) = be_put32 (means_query data lo hi) # means_answers data ms"

lemma be_put32_inject: "be_put32 x @ r = be_put32 y @ r' \<longleftrightarrow> x = y \<and> r = r'"
  by (metis append_eq_append_conv be_get32_put32_nil length_be_put32)

lemma be_put32_eq: "be_put32 x = be_put32 y \<longleftrightarrow> x = y"
  by (metis be_get32_put32_nil)

lemma read_ignoring_enough:
  assumes "conn_ok s" and "conn_content s = be_put32 w @ r"
  shows "\<exists>s'. read_ignoring s = Some (w, s') \<and> conn_content s' = r \<and> conn_ok s' \<and> conn_end s' = conn_end s"
  using tcp.ReadFull_enough [OF assms(1), of 4] assms(2) by (auto simp: read_ignoring_def ReadB_u32_def io_bind_def)

lemma read_ignoring_returns:
  assumes "conn_ok s"
  shows "\<exists>w s'. read_ignoring s = Some (w, s') \<and> conn_ok s' \<and> conn_end s' = conn_end s
    \<and> length (conn_content s') \<le> length (conn_content s)"
proof -
  from tcp.returns_ReadB(2) assms obtain r s' where "ReadB_u32 conn_Read s = Some (r, s')"
    "conn_ok s'" "conn_end s' = conn_end s" "length (conn_content s') \<le> length (conn_content s)"
    unfolding tcp.returns_def by blast
  then show ?thesis by (cases r) (simp_all add: read_ignoring_def)
qed

lemma read_one:
  assumes "conn_ok s" and "conn_content s = b # r"
  shows "\<exists>s'. conn_Read s 1 = (([b], None), s') \<and> conn_content s' = r \<and> conn_ok s' \<and> conn_end s' = conn_end s"
proof -
  from tcp.read_data [OF assms(1), of 1] assms(2) obtain bs s' where
    "conn_Read s 1 = ((bs, None), s')" "bs \<noteq> []" "length bs \<le> 1" "b # r = bs @ conn_content s'"
    "conn_ok s'" "conn_end s' = conn_end s" by auto
  then show ?thesis by (cases bs) auto
qed

definition means_error :: "go_error \<Rightarrow> go_error option" where
  "means_error e = (if errors_Is e EOF then None else Some e)"

lemma means_loop_end:
  assumes "conn_ok s" and "conn_content s = []"
  shows "means_loop data s = Some ([], means_error (conn_end s))"
  using tcp.read_end [OF assms, of 1] by (simp add: means_loop.simps [of data s] means_error_def)

lemma means_loop_returns:
  "conn_ok s \<Longrightarrow> \<exists>ws. means_loop data s = Some (ws, means_error (conn_end s))"
proof (induction "length (conn_content s)" arbitrary: s data rule: less_induct)
  case less
  show ?case
  proof (cases "conn_content s")
    case Nil
    with less.prems show ?thesis by (simp add: means_loop_end)
  next
    case (Cons b r)
    with read_one less.prems obtain s0 where 0: "conn_Read s 1 = (([b], None), s0)" "conn_content s0 = r"
      "conn_ok s0" "conn_end s0 = conn_end s" by blast
    from read_ignoring_returns [OF 0(3)] obtain x s1 where 1: "read_ignoring s0 = Some (x, s1)" "conn_ok s1"
      "conn_end s1 = conn_end s0" "length (conn_content s1) \<le> length (conn_content s0)" by blast
    from read_ignoring_returns [OF 1(2)] obtain y s2 where 2: "read_ignoring s1 = Some (y, s2)" "conn_ok s2"
      "conn_end s2 = conn_end s1" "length (conn_content s2) \<le> length (conn_content s1)" by blast
    have "\<forall>d. \<exists>ws. means_loop d s0 = Some (ws, means_error (conn_end s))"
      using less.hyps [of s0] 0 Cons by simp
    then obtain f0 where f0: "\<And>d. means_loop d s0 = Some (f0 d, means_error (conn_end s))" by metis
    have "\<forall>d. \<exists>ws. means_loop d s2 = Some (ws, means_error (conn_end s))"
      using less.hyps [of s2] 0 1 2 Cons by simp
    then obtain f2 where "\<And>d. means_loop d s2 = Some (f2 d, means_error (conn_end s))" by metis
    with f0 0 1 2 show ?thesis by (simp add: means_loop.simps [of data s])
  qed
qed

lemma means_loop_session:
  "conn_ok s \<Longrightarrow> conn_content s = concat (map encode_means ms) \<Longrightarrow>
   means_loop data s = Some (means_answers data ms, means_error (conn_end s))"
proof (induction ms arbitrary: s data)
  case Nil
  then show ?case by (simp add: means_loop_end)
next
  case (Cons m ms)
  obtain b x y where m: "encode_means m = b # be_put32 x @ be_put32 y" by (cases m) auto
  with Cons.prems read_one [of s b "be_put32 x @ be_put32 y @ concat (map encode_means ms)"]
  obtain s0 where 0: "conn_Read s 1 = (([b], None), s0)" "conn_ok s0" "conn_end s0 = conn_end s"
    "conn_content s0 = be_put32 x @ be_put32 y @ concat (map encode_means ms)" by auto
  from read_ignoring_enough [OF 0(2,4)] obtain s1 where 1: "read_ignoring s0 = Some (x, s1)" "conn_ok s1"
    "conn_end s1 = conn_end s0" "conn_content s1 = be_put32 y @ concat (map encode_means ms)" by blast
  from read_ignoring_enough [OF 1(2,4)] obtain s2 where 2: "read_ignoring s1 = Some (y, s2)" "conn_ok s2"
    "conn_end s2 = conn_end s1" "conn_content s2 = concat (map encode_means ms)" by blast
  note Cons.IH [OF 2(2,4)]
  with m 0 1 2 show ?case
    by (cases m) (simp_all add: means_loop.simps [of data s] be_put32_inject be_put32_eq)
qed

text \<open>
  C13: The handler returns on every input once the connection ends, with no error if it ends with an end
  of file; and if the client has sent a sequence of complete messages, it has written the answers to
  its queries, each about the prices inserted before it, however the network cut the messages.
\<close>

theorem means_answers_queries:
  assumes "conn_ok s"
  shows "\<exists>ws. means_Handler s = Some (ws, if errors_Is (conn_end s) EOF then None else Some (conn_end s))
    \<and> (\<forall>ms. conn_content s = concat (map encode_means ms) \<longrightarrow> ws = means_answers [] ms)"
proof -
  obtain ws where "means_Handler s = Some (ws, means_error (conn_end s))"
    using means_loop_returns [OF assms] by (auto simp: means_Handler_def)
  moreover from this means_loop_session [OF assms]
  have "conn_content s = concat (map encode_means ms) \<Longrightarrow> ws = means_answers [] ms" for ms
    by (simp add: means_Handler_def)
  ultimately show ?thesis by (auto simp: means_error_def)
qed

definition ex_means :: conn where
  "ex_means = \<lparr>segs = [[0x49, 0, 0], [0, 5, 0, 0, 0], [100, 0x51, 0, 0, 0, 0, 0, 0, 0, 9]], conn_end = EOF\<rparr>"

theorem means_answers_queries_witness:
  "means_Handler ex_means = Some ([[0, 0, 0, 100]], None)"
proof -
  have ok: "conn_ok ex_means" by (simp add: conn_ok_def ex_means_def)
  have c: "conn_content ex_means = concat (map encode_means [Insert 5 100, Query 0 9])"
    by (simp add: conn_content_def ex_means_def be_put32_def)
  have a: "means_answers [] [Insert 5 100, Query 0 9] = [[0, 0, 0, 100]]"
    by (simp add: be_put32_def) code_simp
  from means_answers_queries [OF ok] obtain ws where
    h: "means_Handler ex_means = Some (ws, if errors_Is (conn_end ex_means) EOF then None else Some (conn_end ex_means))"
    and w: "\<forall>ms. conn_content ex_means = concat (map encode_means ms) \<longrightarrow> ws = means_answers [] ms" by blast
  from w c have "ws = means_answers [] [Insert 5 100, Query 0 9]" by blast
  with h a show ?thesis by (simp only:) (simp add: ex_means_def)
qed

end
