(* ===== verification/Smoke.thy ===== *)
theory Smoke
  imports Reader_Returns
begin

text \<open>\<^verbatim>\<open>smoke_test/server.go\<close>: the echo server.\<close>

text \<open>
  The loop: what it writes to the client, and the error it returns; the result of a write is not
  looked at.
\<close>

partial_function (option) smoke_Handler :: "conn \<Rightarrow> (bytes list \<times> go_error option) option" where
  "smoke_Handler s =
     (case conn_Read s 1024 of
        ((buf, Some err), s') \<Rightarrow> Some ([], if err = EOF then None else Some err)
      | ((buf, None), s') \<Rightarrow>
          Option.bind (smoke_Handler s') (\<lambda>(ws, r). Some (buf # ws, r)))"

text \<open>
  The handler returns on every input once the connection ends; all bytes of the client have been
  written back, in order, in pieces of at most 1024 bytes, and the error of the connection is
  returned unless it is an end of file.
\<close>

theorem echo:
  assumes "conn_ok s"
  shows "\<exists>ws. smoke_Handler s = Some (ws, if conn_end s = EOF then None else Some (conn_end s))
    \<and> concat ws = conn_content s \<and> list_all (\<lambda>w. length w \<le> 1024) ws"
  using assms
proof (induction "length (conn_content s)" arbitrary: s rule: less_induct)
  case less
  show ?case
  proof (cases "conn_content s = []")
    case True
    with tcp.read_end [OF less.prems True, of 1024] show ?thesis by (simp add: smoke_Handler.simps [of s])
  next
    case False
    with tcp.read_data [OF less.prems False, of 1024] obtain bs s' where
      r: "conn_Read s 1024 = ((bs, None), s')" "bs \<noteq> []" "length bs \<le> 1024"
      "conn_content s = bs @ conn_content s'" "conn_ok s'" "conn_end s' = conn_end s" by auto
    with less.hyps [of s'] obtain ws where
      "smoke_Handler s' = Some (ws, if conn_end s = EOF then None else Some (conn_end s))"
      "concat ws = conn_content s'" "list_all (\<lambda>w. length w \<le> 1024) ws" by auto
    with r show ?thesis by (simp add: smoke_Handler.simps [of s])
  qed
qed

theorem echo_witness:
  "\<exists>ws. smoke_Handler \<lparr>segs = [[1, 2], [3]], conn_end = ConnReset\<rparr> = Some (ws, Some ConnReset)
    \<and> concat ws = [1, 2, 3]"
proof -
  have "conn_ok \<lparr>segs = [[1, 2], [3]], conn_end = ConnReset\<rparr>" by (simp add: conn_ok_def)
  from echo [OF this] show ?thesis by (auto simp: conn_content_def)
qed

end
