(* ===== verification/Tcp.thy ===== *)
theory Tcp
  imports Go_Machine
begin

text \<open>
  \<^verbatim>\<open>server/tcp_server.go\<close>: the loop that accepts the connections of the TCP servers and gives each a
  number, by which the other components know their peers, and what is logged when a handler returns.
\<close>

section \<open>Accepting\<close>

record tcp_server =
  nextId :: peer_id
  accepting :: bool

datatype tcp_event = Accepted | AcceptClosed | AcceptError

datatype tcp_effect = Serve peer_id | FatalAccept

definition tcp_init :: tcp_server where
  "tcp_init = \<lparr>nextId = 1, accepting = True\<rparr>"

fun tcp_step :: "(tcp_server, tcp_event, tcp_effect) handler" where
  "tcp_step s Accepted = Inr (s\<lparr>nextId := nextId s + 1\<rparr>, [Serve (nextId s)])"
| "tcp_step s AcceptClosed = Inr (s\<lparr>accepting := False\<rparr>, [])"
| "tcp_step s AcceptError = Inr (s\<lparr>accepting := False\<rparr>, [FatalAccept])"

definition tcp_enabled :: "tcp_server \<Rightarrow> tcp_event \<Rightarrow> bool" where
  "tcp_enabled s e \<longleftrightarrow> accepting s"

section \<open>The end of a connection\<close>

datatype conn_log = ClientDone | ClientClosed | NotHandledOk go_error

definition tcp_log :: "go_error option \<Rightarrow> conn_log" where
  "tcp_log err =
     (case err of
        None \<Rightarrow> ClientDone
      | Some e \<Rightarrow>
          (if \<not> errors_Is e NetClosed
           then (if errors_Is e EOF \<or> errors_Is e ConnReset then ClientClosed else NotHandledOk e)
           else ClientDone))"

section \<open>The numbers of the clients\<close>

fun served_ids :: "tcp_effect list \<Rightarrow> peer_id list" where
  "served_ids [] = []"
| "served_ids (Serve i # os) = i # served_ids os"
| "served_ids (FatalAccept # os) = served_ids os"

lemma served_ids_append [simp]: "served_ids (os @ os') = served_ids os @ served_ids os'"
  by (induction os rule: served_ids.induct) auto

definition ids_counted :: "tcp_effect list \<Rightarrow> tcp_server \<Rightarrow> bool" where
  "ids_counted h s \<longleftrightarrow>
     served_ids h = map of_nat [1..<Suc (length (served_ids h))] \<and> nextId s = of_nat (Suc (length (served_ids h)))"

lemma tcp_step_ids: "ids_counted h s \<Longrightarrow> tcp_step s e = Inr (t, os) \<Longrightarrow> ids_counted (h @ os) t"
  by (cases e) (auto simp: ids_counted_def)

interpretation tcp_loop: traced_loop tcp_step tcp_enabled "\<lambda>s. True" ids_counted
  by unfold_locales (use tcp_step.elims in blast, rule tcp_step_ids, assumption+)

lemma served_ids_length: "run tcp_step s0 es = Inr (s, os) \<Longrightarrow> length (served_ids os) \<le> length es"
proof (induction es arbitrary: os s0)
  case Nil
  then show ?case by simp
next
  case (Cons e es)
  from Cons.prems obtain s1 o1 o2 where 1: "tcp_step s0 e = Inr (s1, o1)" "run tcp_step s1 es = Inr (s, o2)" "os = o1 @ o2"
    by (auto split: sum.splits)
  moreover have "length (served_ids o1) \<le> 1" using 1(1) by (cases e) auto
  ultimately show ?case using Cons.IH [of s1 o2] by simp
qed

lemma distinct_ids:
  assumes "n < 2 ^ 64"
  shows "distinct (map (of_nat :: nat \<Rightarrow> peer_id) [1..<Suc n])" and "(0 :: peer_id) \<notin> set (map of_nat [1..<Suc n])"
proof -
  have u: "unat (of_nat i :: peer_id) = i" if "i \<le> n" for i
    using that assms by (simp add: unat_of_nat take_bit_nat_eq_self)
  have "inj_on (of_nat :: nat \<Rightarrow> peer_id) {1..<Suc n}"
    by (rule inj_onI) (metis atLeastLessThan_iff less_Suc_eq_le u)
  then show "distinct (map (of_nat :: nat \<Rightarrow> peer_id) [1..<Suc n])" by (simp add: distinct_map del: upt_Suc)
  show "(0 :: peer_id) \<notin> set (map of_nat [1..<Suc n])"
  proof
    assume "(0 :: peer_id) \<in> set (map of_nat [1..<Suc n])"
    then obtain i where i: "1 \<le> i" "i \<le> n" "(0 :: peer_id) = of_nat i" by (auto simp del: upt_Suc)
    then have "unat (0 :: peer_id) = i" using u [of i] by simp
    with i(1) show False by simp
  qed
qed

text \<open>
  The clients of a server are numbered 1, 2, 3, ... in the order in which they are accepted; as long
  as there are fewer than 2^64 of them, no number is given twice and none is 0, which the job centre
  uses for the absence of an owner.
\<close>

theorem client_ids_are_fresh:
  assumes "conforming tcp_step tcp_enabled tcp_init es" and "length es < 2 ^ 64"
  shows "\<exists>s os. run tcp_step tcp_init es = Inr (s, os)
    \<and> served_ids os = map of_nat [1..<Suc (length (served_ids os))]
    \<and> distinct (served_ids os) \<and> 0 \<notin> set (served_ids os)"
proof -
  obtain s os where r: "run tcp_step tcp_init es = Inr (s, os)"
    using tcp_loop.run_ok [OF _ assms(1)] by blast
  have "ids_counted [] tcp_init" by (simp add: ids_counted_def tcp_init_def)
  from tcp_loop.run_hist [OF _ assms(1) this r] have c: "ids_counted os s" by simp
  have "length (served_ids os) \<le> length es" using r by (rule served_ids_length)
  with assms(2) have n: "length (served_ids os) < 2 ^ 64" by simp
  with r c distinct_ids [OF n] show ?thesis by (simp add: ids_counted_def del: upt_Suc)
qed

theorem client_ids_are_fresh_witness:
  "\<exists>s os. run tcp_step tcp_init [Accepted, Accepted, AcceptClosed] = Inr (s, os)
    \<and> distinct (served_ids os) \<and> 0 \<notin> set (served_ids os)"
proof -
  have "conforming tcp_step tcp_enabled tcp_init [Accepted, Accepted, AcceptClosed]"
    by (simp add: tcp_enabled_def tcp_init_def)
  from client_ids_are_fresh [OF this] show ?thesis by auto
qed

end
