(* ===== verification/Commands.thy ===== *)
theory Commands
  imports Go_Text "HOL-Library.Char_ord" "HOL-Library.List_Lexorder"
begin

text \<open>
  \<^verbatim>\<open>main.go\<close>: the table of the servers, and which of them a command line starts.
\<close>

datatype server_kind =
  MobServer | DbServer | ChatServer | SmokeTest | PrimeTime | MeansServer | TrafficServer | JobCentreServer

definition servers :: "(string \<times> server_kind) list" where
  "servers = [(''mob'', MobServer), (''db'', DbServer), (''chat'', ChatServer), (''test'', SmokeTest),
     (''prime-time'', PrimeTime), (''means'', MeansServer), (''traffic'', TrafficServer), (''jobs'', JobCentreServer)]"

text \<open>\<open>strings.Join(slices.Sorted(maps.Keys(servers)), ", ")\<close>; strings are ordered by their bytes.\<close>

definition serversList :: string where
  "serversList = join_strings '', '' (sort (map fst servers))"

text \<open>
  What \<open>main\<close> does with its arguments: it prints a message and exits with status 1, or it logs the
  error of the constructor, or it starts the server; \<open>create\<close> is the error of the constructor.
\<close>

datatype outcome = PrintAndExit string | CreateError go_error | StartServer server_kind

definition main_command :: "(server_kind \<Rightarrow> go_error option) \<Rightarrow> string list \<Rightarrow> outcome" where
  "main_command create args =
     (let command = join_strings '' '' args
      in if command = [] then
           PrintAndExit (''No command provided. Valid commands: ['' @ serversList @ '']'' @ [LF])
         else (case map_of servers command of
                 Some k \<Rightarrow> (case create k of Some err \<Rightarrow> CreateError err | None \<Rightarrow> StartServer k)
               | None \<Rightarrow>
                   PrintAndExit (''Unknown command: '' @ command @ ''. Valid commands: ['' @ serversList @ '']'' @ [LF])))"

lemma serversList_names: "serversList = ''chat, db, jobs, means, mob, prime-time, test, traffic''"
  by code_simp

text \<open>The commands that start a server are those of the list that is printed, and no others.\<close>

lemma started_by_listed_commands:
  "main_command (\<lambda>k. None) [c] = StartServer k \<longleftrightarrow> (c, k) \<in> set servers"
proof -
  have "distinct (map fst servers)" by (simp add: servers_def)
  then have i: "(c, k) \<in> set servers \<longleftrightarrow> map_of servers c = Some k" by simp
  have "map_of servers [] = None" by (simp add: servers_def)
  then show ?thesis unfolding i
    by (cases "map_of servers c") (auto simp: main_command_def Let_def)
qed

end
