(* ===== verification/Jobcentre.thy ===== *)
theory Jobcentre
  imports Go_Machine
begin

text \<open>
  \<^verbatim>\<open>jobcentre/jobcentre.go\<close>: the goroutine \<open>internal\<close>, which owns the jobs, the queues and the
  waiting clients, and handles one message of the channel at a time. \<open>jobcentre_step\<close> is one
  iteration of its loop.

  A \<open>*Job\<close> is a job record, whose fields never change once the job is created, and whose \<open>Id\<close>
  names it; the one field that is assigned later, \<open>owner\<close>, is kept in a map from the \<open>Id\<close>. So a
  job reached through \<open>jobs\<close> and through a queue has the same owner, as through the pointer.
  The JSON objects of the jobs are a type of their own, which the server only passes on.
\<close>

section \<open>Messages, responses and state\<close>

type_synonym job_id = int
type_synonym pri = "64 word"

record 'd job =
  job_Id :: job_id
  job_data :: 'd
  job_priority :: pri
  job_Queue :: string

record waiter =
  ClientId :: peer_id
  Queues :: "string list"

datatype 'd jmsg =
    JConnected
  | JDisconnected
  | PutRequest (put_Queue: string) (put_Job: 'd) (put_Pri: pri)
  | GetRequest (get_Queues: "string list") (get_Wait: "bool option")
  | AbortRequest (abort_Id: job_id)
  | DeleteRequest (delete_Id: job_id)

datatype StatusType = STATUS_OK | STATUS_ERROR | STATUS_NO_JOB

text \<open>What is written to a client; \<open>WriteStatus\<close> with a message adds the field \<open>error\<close>.\<close>

datatype 'd response =
    GetResponse job_id 'd pri string
  | PutResponse job_id
  | StatusResponse StatusType string

record 'd jobcentre =
  jobNextId :: job_id
  jc_clients :: "peer_id set"
  waiters :: "waiter list"
  queues :: "string \<rightharpoonup> 'd job list"
  jobs :: "'d job list"
  owner :: "job_id \<Rightarrow> peer_id"

definition jobcentre_init :: "'d jobcentre" where
  "jobcentre_init = \<lparr>jobNextId = 1, jc_clients = {}, waiters = [], queues = Map.empty, jobs = [],
     owner = (\<lambda>i. 0)\<rparr>"

type_synonym 'd reply = "peer_id \<times> 'd response"

definition get_response :: "'d job \<Rightarrow> 'd response" where
  "get_response j = GetResponse (job_Id j) (job_data j) (job_priority j) (job_Queue j)"

text \<open>
  \<open>WriteResponse(clients[id], &res)\<close>: a peer that is not in the map is a nil client, and writing
  to it panics.
\<close>

definition reply_to :: "peer_id set \<Rightarrow> peer_id \<Rightarrow> 'd response \<Rightarrow> go_panic + 'd reply list" where
  "reply_to cl c res = (if c \<in> cl then Inr [(c, res)] else Inl NilDereference)"

text \<open>The first waiter that lists a queue, as \<open>for i, waiter := range waiters\<close> finds it.\<close>

fun find_waiter :: "waiter list \<Rightarrow> string \<Rightarrow> (nat \<times> waiter) option" where
  "find_waiter [] q = None"
| "find_waiter (w # ws) q =
     (if q \<in> set (Queues w) then Some (0, w)
      else map_option (\<lambda>(i, x). (Suc i, x)) (find_waiter ws q))"

definition enqueue :: "(string \<rightharpoonup> 'd job list) \<Rightarrow> 'd job \<Rightarrow> (string \<rightharpoonup> 'd job list)" where
  "enqueue qs j = qs(job_Queue j \<mapsto> lookup_list qs (job_Queue j) @ [j])"

section \<open>Put\<close>

definition new_job :: "'d jobcentre \<Rightarrow> string \<Rightarrow> 'd \<Rightarrow> pri \<Rightarrow> 'd job" where
  "new_job s q d p = \<lparr>job_Id = jobNextId s, job_data = d, job_priority = p, job_Queue = q\<rparr>"

definition add_job :: "'d jobcentre \<Rightarrow> 'd job \<Rightarrow> 'd jobcentre" where
  "add_job s job =
     s\<lparr>jobNextId := jobNextId s + 1, jobs := jobs s @ [job], queues := enqueue (queues s) job,
       owner := (owner s)(job_Id job := 0)\<rparr>"

definition handle_Put ::
  "'d jobcentre \<Rightarrow> peer_id \<Rightarrow> string \<Rightarrow> 'd \<Rightarrow> pri \<Rightarrow> go_panic + 'd jobcentre \<times> 'd reply list" where
  "handle_Put s c q d p =
     (let job = new_job s q d p;
          s1 = add_job s job;
          res = [(c, PutResponse (job_Id job))]
      in case find_waiter (waiters s1) q of
           None \<Rightarrow> Inr (s1, res)
         | Some (i, w) \<Rightarrow>
             (case reply_to (jc_clients s1) (ClientId w) (get_response job) of
                Inl e \<Rightarrow> Inl e
              | Inr os \<Rightarrow> Inr (s1\<lparr>waiters := remove_at i (waiters s1)\<rparr>, res @ os)))"

section \<open>Get\<close>

text \<open>The loops of \<open>GetRequest\<close>: over the queues named, and over the jobs of each.\<close>

fun pick_queue :: "'d job list \<Rightarrow> 'd job option \<Rightarrow> 'd job option" where
  "pick_queue [] job = job"
| "pick_queue (j # js) job =
     pick_queue js (case job of None \<Rightarrow> Some j
       | Some b \<Rightarrow> if job_priority j > job_priority b then Some j else Some b)"

fun pick_queues :: "(string \<rightharpoonup> 'd job list) \<Rightarrow> string list \<Rightarrow> 'd job option \<Rightarrow> 'd job option" where
  "pick_queues qs [] job = job"
| "pick_queues qs (q # ids) job = pick_queues qs ids (pick_queue (lookup_list qs q) job)"

definition handle_Get ::
  "'d jobcentre \<Rightarrow> peer_id \<Rightarrow> string list \<Rightarrow> bool option \<Rightarrow> 'd jobcentre \<times> 'd reply list" where
  "handle_Get s c ids wait =
     (case pick_queues (queues s) ids None of
        None \<Rightarrow>
          (if wait = Some True then (s\<lparr>waiters := waiters s @ [\<lparr>ClientId = c, Queues = ids\<rparr>]\<rparr>, [])
           else (s, [(c, StatusResponse STATUS_NO_JOB [])]))
      | Some job \<Rightarrow>
          (s\<lparr>owner := (owner s)(job_Id job := c),
             queues := (queues s)(job_Queue job \<mapsto>
               filter (\<lambda>j. job_Id j \<noteq> job_Id job) (lookup_list (queues s) (job_Queue job)))\<rparr>,
           [(c, get_response job)]))"

section \<open>Abort and delete\<close>

fun find_job :: "'d job list \<Rightarrow> job_id \<Rightarrow> (nat \<times> 'd job) option" where
  "find_job [] i = None"
| "find_job (j # js) i =
     (if job_Id j = i then Some (0, j) else map_option (\<lambda>(n, x). (Suc n, x)) (find_job js i))"

definition handle_Abort ::
  "'d jobcentre \<Rightarrow> peer_id \<Rightarrow> job_id \<Rightarrow> 'd jobcentre \<times> 'd reply list" where
  "handle_Abort s c i =
     (case find_job (jobs s) i of
        None \<Rightarrow> (s, [(c, StatusResponse STATUS_NO_JOB [])])
      | Some (n, job) \<Rightarrow>
          (if owner s (job_Id job) \<noteq> c then (s, [(c, StatusResponse STATUS_NO_JOB [])])
           else (s\<lparr>queues := enqueue (queues s) job\<rparr>, [(c, StatusResponse STATUS_OK [])])))"

definition handle_Delete ::
  "'d jobcentre \<Rightarrow> peer_id \<Rightarrow> job_id \<Rightarrow> 'd jobcentre \<times> 'd reply list" where
  "handle_Delete s c i =
     (case find_job (jobs s) i of
        None \<Rightarrow> (s, [(c, StatusResponse STATUS_NO_JOB [])])
      | Some (idx, job) \<Rightarrow>
          (let s1 = s\<lparr>jobs := remove_at idx (jobs s)\<rparr>;
               q = lookup_list (queues s1) (job_Queue job)
           in (if owner s1 (job_Id job) = 0
               then (case slices_Index (map job_Id q) (job_Id job) of
                       None \<Rightarrow> s1
                     | Some n \<Rightarrow> s1\<lparr>queues := (queues s1)(job_Queue job \<mapsto> remove_at n q)\<rparr>)
               else s1,
               [(c, StatusResponse STATUS_OK [])])))"

section \<open>Disconnection\<close>

text \<open>
  \<open>waiters := slices.DeleteFunc(waiters, ...)\<close> declares a new variable, whose slice shares the
  array of the outer \<open>waiters\<close>. The model keeps that array as the inner slice followed by the rest
  of the outer one: \<open>DeleteFunc\<close> moves the waiters it keeps to the front and clears what is behind
  them, and \<open>append(waiters[:i], waiters[i+1:]...)\<close> on the inner slice shifts its elements and
  leaves its last one where it was. The outer variable keeps its length.
\<close>

record slice_of_array =
  slice :: "waiter list"
  behind :: "waiter list"

definition zero_waiter :: waiter where
  "zero_waiter = \<lparr>ClientId = 0, Queues = []\<rparr>"

definition DeleteFunc_waiters :: "peer_id \<Rightarrow> waiter list \<Rightarrow> slice_of_array" where
  "DeleteFunc_waiters c ws =
     (let kept = filter (\<lambda>w. ClientId w \<noteq> c) ws
      in \<lparr>slice = kept, behind = replicate (length ws - length kept) zero_waiter\<rparr>)"

definition remove_in_array :: "nat \<Rightarrow> slice_of_array \<Rightarrow> slice_of_array" where
  "remove_in_array i a = \<lparr>slice = remove_at i (slice a), behind = last (slice a) # behind a\<rparr>"

text \<open>One iteration of the loop over all jobs, and the loop.\<close>

definition release_job ::
  "peer_id \<Rightarrow> 'd job \<Rightarrow> 'd jobcentre \<Rightarrow> slice_of_array \<Rightarrow>
   go_panic + 'd jobcentre \<times> slice_of_array \<times> 'd reply list" where
  "release_job c job s a =
     (if owner s (job_Id job) \<noteq> c then Inr (s, a, [])
      else (case find_waiter (slice a) (job_Queue job) of
              Some (i, w) \<Rightarrow>
                (case reply_to (jc_clients s) (ClientId w) (get_response job) of
                   Inl e \<Rightarrow> Inl e
                 | Inr os \<Rightarrow>
                     Inr (s\<lparr>owner := (owner s)(job_Id job := ClientId w)\<rparr>, remove_in_array i a, os))
            | None \<Rightarrow>
                Inr (s\<lparr>owner := (owner s)(job_Id job := 0), queues := enqueue (queues s) job\<rparr>, a, [])))"

fun release_jobs ::
  "peer_id \<Rightarrow> 'd job list \<Rightarrow> 'd jobcentre \<Rightarrow> slice_of_array \<Rightarrow>
   go_panic + 'd jobcentre \<times> slice_of_array \<times> 'd reply list" where
  "release_jobs c [] s a = Inr (s, a, [])"
| "release_jobs c (job # js) s a =
     (case release_job c job s a of
        Inl e \<Rightarrow> Inl e
      | Inr (s1, a1, os) \<Rightarrow>
          (case release_jobs c js s1 a1 of
             Inl e \<Rightarrow> Inl e
           | Inr (s2, a2, os') \<Rightarrow> Inr (s2, a2, os @ os')))"

definition jc_disconnected ::
  "'d jobcentre \<Rightarrow> peer_id \<Rightarrow> go_panic + 'd jobcentre \<times> 'd reply list" where
  "jc_disconnected s c =
     (case release_jobs c (jobs s) (s\<lparr>jc_clients := jc_clients s - {c}\<rparr>) (DeleteFunc_waiters c (waiters s)) of
        Inl e \<Rightarrow> Inl e
      | Inr (s1, a, os) \<Rightarrow> Inr (s1\<lparr>waiters := slice a @ behind a\<rparr>, os))"

section \<open>One iteration of the loop\<close>

fun jobcentre_step :: "('d jobcentre, peer_id \<times> 'd jmsg, 'd reply) handler" where
  "jobcentre_step s (c, JConnected) = Inr (s\<lparr>jc_clients := insert c (jc_clients s)\<rparr>, [])"
| "jobcentre_step s (c, JDisconnected) = jc_disconnected s c"
| "jobcentre_step s (c, PutRequest q d p) = handle_Put s c q d p"
| "jobcentre_step s (c, GetRequest ids wait) = Inr (handle_Get s c ids wait)"
| "jobcentre_step s (c, AbortRequest i) = Inr (handle_Abort s c i)"
| "jobcentre_step s (c, DeleteRequest i) = Inr (handle_Delete s c i)"

text \<open>
  A peer announces itself, sends requests, and says last that it is gone; its \<open>Id\<close> is not 0 (the
  accept loop counts from 1).
\<close>

fun jobcentre_enabled :: "'d jobcentre \<Rightarrow> peer_id \<times> 'd jmsg \<Rightarrow> bool" where
  "jobcentre_enabled s (c, JConnected) = (c \<noteq> 0)"
| "jobcentre_enabled s (c, m) = (c \<in> jc_clients s)"

end
