(* ===== verification/Jobcentre_Inv.thy ===== *)
theory Jobcentre_Inv
  imports Jobcentre
begin

text \<open>
  What one message does to the state of the job centre: the choice of a job, the invariant that
  every message keeps, and the identifiers given out, for every run of its loop.
\<close>

section \<open>Lookups\<close>

lemma find_waiter_Some:
  "find_waiter ws q = Some (i, w) \<Longrightarrow>
     i < length ws \<and> ws ! i = w \<and> q \<in> set (Queues w) \<and> (\<forall>k<i. q \<notin> set (Queues (ws ! k)))"
proof (induction ws arbitrary: i)
  case Nil
  then show ?case by simp
next
  case (Cons x ws)
  show ?case
  proof (cases "q \<in> set (Queues x)")
    case True
    with Cons.prems show ?thesis by auto
  next
    case False
    with Cons.prems obtain k where "find_waiter ws q = Some (k, w)" "i = Suc k" by auto
    with Cons.IH [of k] False show ?thesis by (auto simp: less_Suc_eq_0_disj)
  qed
qed

lemma find_waiter_None: "find_waiter ws q = None \<longleftrightarrow> (\<forall>w \<in> set ws. q \<notin> set (Queues w))"
  by (induction ws) auto

lemma find_waiter_in: "find_waiter ws q = Some (i, w) \<Longrightarrow> w \<in> set ws \<and> Queues w \<noteq> []"
  using find_waiter_Some [of ws q i w] by (auto simp: in_set_conv_nth)

lemma find_job_Some:
  "find_job js i = Some (n, j) \<Longrightarrow> n < length js \<and> js ! n = j \<and> job_Id j = i"
  by (induction js arbitrary: n) (auto split: if_splits)

lemma find_job_None: "find_job js i = None \<longleftrightarrow> i \<notin> job_Id ` set js"
  by (induction js) auto

lemma lookup_enqueue:
  "lookup_list (enqueue qs j) q = lookup_list qs q @ (if q = job_Queue j then [j] else [])"
  by (simp add: enqueue_def)

section \<open>The choice of a job\<close>

text \<open>
  \<open>best b xs\<close>: \<open>b\<close> is the first of the elements of \<open>xs\<close> with the highest priority.
\<close>

definition first_max :: "'d job list \<Rightarrow> 'd job option \<Rightarrow> bool" where
  "first_max xs r \<longleftrightarrow>
     (case r of None \<Rightarrow> xs = []
      | Some b \<Rightarrow> \<exists>ys zs. xs = ys @ b # zs \<and> (\<forall>y \<in> set ys. job_priority y < job_priority b)
          \<and> (\<forall>z \<in> set zs. job_priority z \<le> job_priority b))"

lemma first_max_snoc:
  "first_max xs r \<Longrightarrow> first_max (xs @ [j]) (case r of None \<Rightarrow> Some j
     | Some b \<Rightarrow> if job_priority j > job_priority b then Some j else Some b)"
proof (cases r)
  case None
  moreover assume "first_max xs r"
  ultimately show ?thesis by (auto simp: first_max_def intro: exI [of _ "[]"])
next
  case (Some b)
  moreover assume "first_max xs r"
  ultimately obtain ys zs where xs: "xs = ys @ b # zs" "\<forall>y \<in> set ys. job_priority y < job_priority b"
    "\<forall>z \<in> set zs. job_priority z \<le> job_priority b" by (auto simp: first_max_def)
  show ?thesis
  proof (cases "job_priority j > job_priority b")
    case True
    then have "\<forall>y \<in> set xs. job_priority y < job_priority j" using xs by auto
    with True Some show ?thesis by (auto simp: first_max_def intro: exI [of _ xs] exI [of _ "[]"])
  next
    case False
    then have "xs @ [j] = ys @ b # (zs @ [j])" "\<forall>z \<in> set (zs @ [j]). job_priority z \<le> job_priority b"
      using xs by auto
    with xs(2) have "\<exists>ys zs. xs @ [j] = ys @ b # zs \<and> (\<forall>y \<in> set ys. job_priority y < job_priority b)
        \<and> (\<forall>z \<in> set zs. job_priority z \<le> job_priority b)" by blast
    with False Some show ?thesis by (simp add: first_max_def)
  qed
qed

lemma pick_queue_first_max: "first_max xs r \<Longrightarrow> first_max (xs @ js) (pick_queue js r)"
proof (induction js arbitrary: xs r)
  case Nil
  then show ?case by simp
next
  case (Cons j js)
  from Cons.IH [OF first_max_snoc [OF Cons.prems, of j]] show ?case by simp
qed

lemma pick_queues_first_max:
  "first_max xs r \<Longrightarrow> first_max (xs @ concat (map (lookup_list qs) ids)) (pick_queues qs ids r)"
proof (induction ids arbitrary: xs r)
  case Nil
  then show ?case by simp
next
  case (Cons q ids)
  from Cons.IH [OF pick_queue_first_max [OF Cons.prems, of "lookup_list qs q"]] show ?case by simp
qed

lemma pick_queues_spec: "first_max (concat (map (lookup_list qs) ids)) (pick_queues qs ids None)"
  using pick_queues_first_max [of "[]" None qs ids] by (simp add: first_max_def)

lemma pick_queues_in:
  assumes "pick_queues qs ids None = Some j"
  shows "\<exists>q \<in> set ids. j \<in> set (lookup_list qs q)"
proof -
  obtain ys zs where e: "concat (map (lookup_list qs) ids) = ys @ j # zs"
    using pick_queues_spec [of qs ids] assms by (auto simp: first_max_def)
  have "j \<in> set (concat (map (lookup_list qs) ids))" unfolding e by simp
  then show ?thesis by auto
qed

lemma pick_queues_None: "pick_queues qs ids None = None \<longleftrightarrow> (\<forall>q \<in> set ids. lookup_list qs q = [])"
proof (cases "pick_queues qs ids None")
  case None
  with pick_queues_spec [of qs ids] show ?thesis by (simp add: first_max_def)
next
  case (Some j)
  from pick_queues_in [OF Some] obtain q where "q \<in> set ids" "j \<in> set (lookup_list qs q)" by blast
  moreover from this(2) have "lookup_list qs q \<noteq> []" by auto
  ultimately show ?thesis using Some by auto
qed

section \<open>The invariant\<close>

abbreviation jc_queue :: "'d jobcentre \<Rightarrow> string \<Rightarrow> 'd job list" where
  "jc_queue s q \<equiv> lookup_list (queues s) q"

definition known_jobs :: "'d jobcentre \<Rightarrow> 'd job set" where
  "known_jobs s = set (jobs s) \<union> (\<Union>q. set (jc_queue s q))"

definition ids_inv :: "'d jobcentre \<Rightarrow> bool" where
  "ids_inv s \<longleftrightarrow> distinct (map job_Id (jobs s)) \<and> inj_on job_Id (known_jobs s)
     \<and> (\<forall>j \<in> known_jobs s. job_Id j < jobNextId s)"

definition queues_inv :: "'d jobcentre \<Rightarrow> bool" where
  "queues_inv s \<longleftrightarrow> (\<forall>q. \<forall>j \<in> set (jc_queue s q). job_Queue j = q)
     \<and> (\<forall>j \<in> set (jobs s). owner s (job_Id j) = 0 \<longrightarrow> j \<in> set (jc_queue s (job_Queue j)))"

definition waiters_ok :: "peer_id set \<Rightarrow> waiter list \<Rightarrow> bool" where
  "waiters_ok cl ws \<longleftrightarrow> (\<forall>w \<in> set ws. Queues w \<noteq> [] \<longrightarrow> ClientId w \<in> cl)"

definition owners_ok :: "peer_id set \<Rightarrow> 'd jobcentre \<Rightarrow> bool" where
  "owners_ok cl s \<longleftrightarrow> (\<forall>j \<in> set (jobs s). owner s (job_Id j) = 0 \<or> owner s (job_Id j) \<in> cl)"

definition jc_inv :: "'d jobcentre \<Rightarrow> bool" where
  "jc_inv s \<longleftrightarrow> 0 \<notin> jc_clients s \<and> ids_inv s \<and> queues_inv s
     \<and> waiters_ok (jc_clients s) (waiters s) \<and> owners_ok (jc_clients s) s"

lemmas jc_inv_defs = jc_inv_def ids_inv_def queues_inv_def owners_ok_def

lemma jc_inv_init: "jc_inv jobcentre_init"
  by (simp add: jc_inv_defs waiters_ok_def jobcentre_init_def known_jobs_def)

lemma waiters_ok_remove: "waiters_ok cl ws \<Longrightarrow> waiters_ok cl (remove_at i ws)"
  using set_remove_at_subset [of i ws] by (auto simp: waiters_ok_def)

lemma add_job_simps [simp]:
  "jc_clients (add_job s j) = jc_clients s" "waiters (add_job s j) = waiters s"
  "jobs (add_job s j) = jobs s @ [j]" "jobNextId (add_job s j) = jobNextId s + 1"
  "owner (add_job s j) = (owner s)(job_Id j := 0)"
  "lookup_list (queues (add_job s j)) q = jc_queue s q @ (if q = job_Queue j then [j] else [])"
  by (simp_all add: add_job_def lookup_enqueue)

lemma new_job_simps [simp]:
  "job_Id (new_job s q d p) = jobNextId s" "job_Queue (new_job s q d p) = q"
  "job_data (new_job s q d p) = d" "job_priority (new_job s q d p) = p"
  by (simp_all add: new_job_def)

lemma inv_add_job:
  assumes "jc_inv s" and "job_Id job = jobNextId s"
  shows "jc_inv (add_job s job)"
proof -
  let ?s1 = "add_job s job"
  have k: "known_jobs ?s1 = insert job (known_jobs s)"
    by (auto simp: known_jobs_def split: if_splits)
  have ids: "distinct (map job_Id (jobs s))" "inj_on job_Id (known_jobs s)"
    "\<forall>x \<in> known_jobs s. job_Id x < jobNextId s" using assms(1) by (simp_all add: jc_inv_def ids_inv_def)
  then have new: "x \<in> set (jobs s) \<Longrightarrow> job_Id x \<noteq> jobNextId s" for x by (force simp: known_jobs_def)
  have "inj_on job_Id (insert job (known_jobs s))"
    using ids(2,3) assms(2) by auto
  moreover have "jobNextId s \<notin> job_Id ` set (jobs s)" using new by fastforce
  ultimately have "ids_inv ?s1" using ids assms(2) by (auto simp: ids_inv_def k)
  moreover have "queues_inv ?s1"
    using assms new by (auto simp: queues_inv_def jc_inv_def)
  moreover have "owners_ok (jc_clients ?s1) ?s1"
    using assms new by (auto simp: owners_ok_def jc_inv_def)
  ultimately show ?thesis using assms(1) by (simp add: jc_inv_def)
qed

lemma inv_waiters: "jc_inv s \<Longrightarrow> waiters_ok (jc_clients s) ws \<Longrightarrow> jc_inv (s\<lparr>waiters := ws\<rparr>)"
  by (simp add: jc_inv_defs known_jobs_def)

lemma inv_Put:
  assumes "jc_inv s"
  shows "\<exists>t os. handle_Put s c q d p = Inr (t, os) \<and> jc_inv t"
proof -
  let ?s1 = "add_job s (new_job s q d p)"
  have inv1: "jc_inv ?s1" by (rule inv_add_job [OF assms]) simp
  have w: "waiters_ok (jc_clients s) (waiters s)" using assms by (simp add: jc_inv_def)
  show ?thesis
  proof (cases "find_waiter (waiters s) q")
    case None
    with inv1 show ?thesis by (simp add: handle_Put_def Let_def)
  next
    case (Some x)
    obtain i w where x: "x = (i, w)" by (cases x)
    with Some find_waiter_in have "w \<in> set (waiters s)" "Queues w \<noteq> []" by blast+
    then have "ClientId w \<in> jc_clients s" using w by (auto simp: waiters_ok_def)
    with Some x inv_waiters [OF inv1] waiters_ok_remove [OF w] show ?thesis
      by (simp add: handle_Put_def Let_def reply_to_def)
  qed
qed


lemma ids_inv_less:
  assumes "ids_inv s" and "known_jobs t \<subseteq> known_jobs s" and "jobNextId t = jobNextId s"
    and "distinct (map job_Id (jobs t))"
  shows "ids_inv t"
  using assms inj_on_subset [OF _ assms(2), of job_Id] unfolding ids_inv_def by auto

lemma inv_Get:
  assumes "jc_inv s" and "c \<in> jc_clients s"
  shows "jc_inv (fst (handle_Get s c ids wait))"
proof (cases "pick_queues (queues s) ids None")
  case None
  have "waiters_ok (jc_clients s) (waiters s @ [\<lparr>ClientId = c, Queues = ids\<rparr>])"
    using assms by (auto simp: waiters_ok_def jc_inv_def)
  from None assms inv_waiters [OF assms(1) this] show ?thesis by (simp add: handle_Get_def)
next
  case (Some job)
  let ?q = "filter (\<lambda>j. job_Id j \<noteq> job_Id job) (jc_queue s (job_Queue job))"
  define t where "t = s\<lparr>owner := (owner s)(job_Id job := c), queues := (queues s)(job_Queue job \<mapsto> ?q)\<rparr>"
  have f: "jc_clients t = jc_clients s" "waiters t = waiters s" "jobs t = jobs s" "jobNextId t = jobNextId s"
    "owner t = (owner s)(job_Id job := c)" "\<And>q. jc_queue t q = (if q = job_Queue job then ?q else jc_queue s q)"
    by (simp_all add: t_def)
  have c: "c \<noteq> 0" using assms by (auto simp: jc_inv_def)
  have sub: "known_jobs t \<subseteq> known_jobs s" by (auto simp: known_jobs_def f split: if_splits)
  have "ids_inv s" "distinct (map job_Id (jobs s))" using assms(1) by (simp_all add: jc_inv_def ids_inv_def)
  then have "ids_inv t" using sub by (intro ids_inv_less [of s t]) (simp_all add: f)
  moreover have "queues_inv t"
    unfolding queues_inv_def
  proof (intro conjI allI ballI impI)
    fix q j assume "j \<in> set (jc_queue t q)"
    then have "j \<in> set (jc_queue s q)" by (simp add: f split: if_splits)
    with assms(1) show "job_Queue j = q" by (simp add: jc_inv_def queues_inv_def)
  next
    fix j assume j: "j \<in> set (jobs t)" and o: "owner t (job_Id j) = 0"
    with c have "job_Id j \<noteq> job_Id job" by (auto simp: f)
    moreover from this have "j \<in> set (jc_queue s (job_Queue j))"
      using assms(1) j o by (simp add: jc_inv_def queues_inv_def f)
    ultimately show "j \<in> set (jc_queue t (job_Queue j))" by (auto simp: f)
  qed
  moreover have "owners_ok (jc_clients t) t"
    using assms by (auto simp: owners_ok_def jc_inv_def f)
  ultimately have "jc_inv t" using assms(1) by (simp add: jc_inv_def f)
  with Some show ?thesis by (simp add: handle_Get_def t_def)
qed

lemma inv_Abort:
  assumes "jc_inv s"
  shows "jc_inv (fst (handle_Abort s c i))"
proof (cases "find_job (jobs s) i")
  case None
  with assms show ?thesis by (simp add: handle_Abort_def)
next
  case (Some x)
  obtain n job where x: "x = (n, job)" by (cases x)
  with Some find_job_Some have job: "job \<in> set (jobs s)" by (metis nth_mem)
  define t where "t = s\<lparr>queues := enqueue (queues s) job\<rparr>"
  have f: "jc_clients t = jc_clients s" "waiters t = waiters s" "jobs t = jobs s" "jobNextId t = jobNextId s"
    "owner t = owner s" "\<And>q. jc_queue t q = jc_queue s q @ (if q = job_Queue job then [job] else [])"
    by (simp_all add: t_def lookup_enqueue)
  have "known_jobs t = known_jobs s" using job by (auto simp: known_jobs_def f split: if_splits)
  then have "jc_inv t"
    using assms by (auto simp: jc_inv_defs f)
  with Some x assms show ?thesis by (simp add: handle_Abort_def t_def)
qed

lemma inv_Delete:
  assumes "jc_inv s"
  shows "jc_inv (fst (handle_Delete s c i))"
proof (cases "find_job (jobs s) i")
  case None
  with assms show ?thesis by (simp add: handle_Delete_def)
next
  case (Some x)
  obtain idx job where x: "x = (idx, job)" by (cases x)
  with Some find_job_Some have idx: "idx < length (jobs s)" and job: "jobs s ! idx = job" by blast+
  have d: "distinct (map job_Id (jobs s))" using assms by (simp add: jc_inv_def ids_inv_def)
  then have dj: "distinct (jobs s)" by (simp add: distinct_map)
  have rest: "set (remove_at idx (jobs s)) = set (jobs s) - {job}"
    using set_remove_at_distinct [OF dj idx] job by simp
  have "inj_on job_Id (set (jobs s))" using d by (simp add: distinct_map)
  then have other: "y \<in> set (remove_at idx (jobs s)) \<Longrightarrow> job_Id y \<noteq> job_Id job" for y
    using idx job by (auto simp: rest dest: inj_onD)
  let ?q = "jc_queue s (job_Queue job)"
  define t where "t = fst (handle_Delete s c i)"
  have f: "jc_clients t = jc_clients s" "waiters t = waiters s" "jobs t = remove_at idx (jobs s)"
    "jobNextId t = jobNextId s" "owner t = owner s"
    using Some x by (auto simp: t_def handle_Delete_def Let_def split: option.splits)
  have q: "set (jc_queue t q) \<subseteq> set (jc_queue s q)
      \<and> (\<forall>y. y \<in> set (jc_queue s q) \<longrightarrow> job_Id y \<noteq> job_Id job \<longrightarrow> y \<in> set (jc_queue t q))" for q
  proof (cases "owner s (job_Id job) = 0")
    case False
    with Some x show ?thesis by (auto simp: t_def handle_Delete_def Let_def)
  next
    case True
    show ?thesis
    proof (cases "slices_Index (map job_Id ?q) (job_Id job)")
      case None
      then have "jc_queue t q = jc_queue s q"
        using True Some x by (simp add: t_def handle_Delete_def Let_def del: slices_Index_None)
      then show ?thesis by simp
    next
      case (Some n)
      from slices_Index_Some [OF this] have n: "n < length ?q" "job_Id (?q ! n) = job_Id job" by auto
      have "jc_queue t q = (if q = job_Queue job then remove_at n ?q else jc_queue s q)"
        using True Some x \<open>find_job (jobs s) i = Some x\<close> by (auto simp: t_def handle_Delete_def Let_def)
      then show ?thesis using set_remove_at_insert [OF n(1)] n(2) by auto
    qed
  qed
  have sub: "known_jobs t \<subseteq> known_jobs s" using q rest by (fastforce simp: known_jobs_def f)
  have "distinct (map job_Id (remove_at idx (jobs s)))"
    using d by (simp add: distinct_map rest distinct_remove_at inj_on_diff)
  moreover have "ids_inv s" using assms by (simp add: jc_inv_def)
  ultimately have "ids_inv t" using sub by (intro ids_inv_less [of s t]) (simp_all add: f)
  moreover have "queues_inv t"
    unfolding queues_inv_def
  proof (intro conjI allI ballI impI)
    fix q j assume "j \<in> set (jc_queue t q)"
    with q have "j \<in> set (jc_queue s q)" by blast
    with assms show "job_Queue j = q" by (simp add: jc_inv_def queues_inv_def)
  next
    fix j assume j: "j \<in> set (jobs t)" and "owner t (job_Id j) = 0"
    then have "j \<in> set (jc_queue s (job_Queue j))"
      using assms rest by (auto simp: jc_inv_def queues_inv_def f)
    with q other j show "j \<in> set (jc_queue t (job_Queue j))" by (simp add: f)
  qed
  moreover have "owners_ok (jc_clients t) t"
    using assms rest by (auto simp: owners_ok_def jc_inv_def f)
  ultimately have "jc_inv t" using assms by (simp add: jc_inv_def f)
  then show ?thesis by (simp add: t_def)
qed


text \<open>The loop over the jobs of a peer that has left.\<close>

definition release_inv :: "peer_id \<Rightarrow> 'd jobcentre \<Rightarrow> slice_of_array \<Rightarrow> bool" where
  "release_inv c s a \<longleftrightarrow> 0 \<notin> jc_clients s \<and> c \<notin> jc_clients s \<and> c \<noteq> 0 \<and> ids_inv s \<and> queues_inv s
     \<and> waiters_ok (jc_clients s) (slice a @ behind a) \<and> owners_ok (insert c (jc_clients s)) s"

definition same_jobs :: "'d jobcentre \<Rightarrow> 'd jobcentre \<Rightarrow> bool" where
  "same_jobs s t \<longleftrightarrow> jobs t = jobs s \<and> jc_clients t = jc_clients s \<and> jobNextId t = jobNextId s"

lemma release_job_ok:
  assumes "release_inv c s a" and "job \<in> set (jobs s)"
  shows "\<exists>t b os. release_job c job s a = Inr (t, b, os) \<and> release_inv c t b \<and> same_jobs s t
    \<and> owner t (job_Id job) \<noteq> c \<and> (\<forall>i. owner s i \<noteq> c \<longrightarrow> owner t i \<noteq> c)"
proof (cases "owner s (job_Id job) = c")
  case False
  with assms(1) show ?thesis by (simp add: release_job_def same_jobs_def)
next
  case True
  have inv: "0 \<notin> jc_clients s" "c \<notin> jc_clients s" "c \<noteq> 0" "ids_inv s" "queues_inv s"
    "waiters_ok (jc_clients s) (slice a @ behind a)" "owners_ok (insert c (jc_clients s)) s"
    using assms(1) by (simp_all add: release_inv_def)
  show ?thesis
  proof (cases "find_waiter (slice a) (job_Queue job)")
    case (Some x)
    obtain i w where x: "x = (i, w)" by (cases x)
    with Some have w: "w \<in> set (slice a)" "Queues w \<noteq> []" using find_waiter_in by blast+
    then have cl: "ClientId w \<in> jc_clients s" using inv(6) by (auto simp: waiters_ok_def)
    let ?t = "s\<lparr>owner := (owner s)(job_Id job := ClientId w)\<rparr>"
    have nz: "ClientId w \<noteq> 0" "ClientId w \<noteq> c" using cl inv(1,2) by auto
    have "queues_inv ?t" using inv(5) nz by (simp add: queues_inv_def)
    moreover have "ids_inv ?t" using inv(4) by (simp add: ids_inv_def known_jobs_def)
    moreover have "owners_ok (insert c (jc_clients ?t)) ?t" using inv(7) cl by (simp add: owners_ok_def)
    moreover have "slice a \<noteq> []" using w by auto
    then have "waiters_ok (jc_clients ?t) (slice (remove_in_array i a) @ behind (remove_in_array i a))"
      using inv(6) set_remove_at_subset [of i "slice a"]
      by (auto simp: waiters_ok_def remove_in_array_def)
    ultimately have "release_inv c ?t (remove_in_array i a)" using inv by (simp add: release_inv_def)
    moreover have "release_job c job s a = Inr (?t, remove_in_array i a, [(ClientId w, get_response job)])"
      using True Some x cl by (simp add: release_job_def reply_to_def)
    ultimately show ?thesis using nz by (simp add: same_jobs_def)
  next
    case None
    define t where "t = s\<lparr>owner := (owner s)(job_Id job := 0), queues := enqueue (queues s) job\<rparr>"
    have f: "jc_clients t = jc_clients s" "jobs t = jobs s" "jobNextId t = jobNextId s"
      "owner t = (owner s)(job_Id job := 0)"
      "\<And>q. jc_queue t q = jc_queue s q @ (if q = job_Queue job then [job] else [])"
      by (simp_all add: t_def lookup_enqueue)
    have k: "known_jobs t = known_jobs s" using assms(2) by (auto simp: known_jobs_def f split: if_splits)
    have inj: "j \<in> set (jobs s) \<Longrightarrow> job_Id j = job_Id job \<Longrightarrow> j = job" for j
      using inv(4) assms(2) by (auto simp: ids_inv_def known_jobs_def dest: inj_onD)
    have "ids_inv t" using inv(4) by (simp add: ids_inv_def k f)
    moreover have "queues_inv t" using inv(5) inj by (auto simp: queues_inv_def f)
    moreover have "owners_ok (insert c (jc_clients t)) t" using inv(7) by (simp add: owners_ok_def f)
    ultimately have "release_inv c t a" using inv by (simp add: release_inv_def f)
    moreover have "release_job c job s a = Inr (t, a, [])"
      using True None by (simp add: release_job_def t_def)
    ultimately show ?thesis using inv(3) by (auto simp: same_jobs_def f)
  qed
qed

lemma release_jobs_ok:
  assumes "release_inv c s a" and "set js \<subseteq> set (jobs s)"
  shows "\<exists>t b os. release_jobs c js s a = Inr (t, b, os) \<and> release_inv c t b \<and> same_jobs s t
    \<and> (\<forall>j \<in> set js. owner t (job_Id j) \<noteq> c) \<and> (\<forall>i. owner s i \<noteq> c \<longrightarrow> owner t i \<noteq> c)"
  using assms
proof (induction js arbitrary: s a)
  case Nil
  then show ?case by (simp add: same_jobs_def)
next
  case (Cons j js)
  from Cons.prems release_job_ok [of c s a j] obtain t b os where 1: "release_job c j s a = Inr (t, b, os)"
    "release_inv c t b" "same_jobs s t" "owner t (job_Id j) \<noteq> c" "\<forall>i. owner s i \<noteq> c \<longrightarrow> owner t i \<noteq> c" by auto
  moreover have "set js \<subseteq> set (jobs t)" using Cons.prems(2) 1(3) by (simp add: same_jobs_def)
  ultimately obtain u d os' where "release_jobs c js t b = Inr (u, d, os')" "release_inv c u d" "same_jobs t u"
    "\<forall>j \<in> set js. owner u (job_Id j) \<noteq> c" "\<forall>i. owner t i \<noteq> c \<longrightarrow> owner u i \<noteq> c"
    using Cons.IH [of t b] by blast
  with 1 show ?case by (simp add: same_jobs_def)
qed

lemma release_all:
  assumes "jc_inv s" and "c \<in> jc_clients s"
  shows "\<exists>t b os. release_jobs c (jobs s) (s\<lparr>jc_clients := jc_clients s - {c}\<rparr>)
      (DeleteFunc_waiters c (waiters s)) = Inr (t, b, os) \<and> release_inv c t b
    \<and> same_jobs (s\<lparr>jc_clients := jc_clients s - {c}\<rparr>) t \<and> (\<forall>j \<in> set (jobs s). owner t (job_Id j) \<noteq> c)"
proof -
  let ?s = "s\<lparr>jc_clients := jc_clients s - {c}\<rparr>" and ?a = "DeleteFunc_waiters c (waiters s)"
  have "c \<noteq> 0" using assms by (auto simp: jc_inv_def)
  moreover have "waiters_ok (jc_clients s - {c}) (slice ?a @ behind ?a)"
    using assms(1) by (auto simp: waiters_ok_def DeleteFunc_waiters_def Let_def zero_waiter_def jc_inv_def)
  moreover have "insert c (jc_clients s - {c}) = jc_clients s" using assms(2) by auto
  ultimately have "release_inv c ?s ?a"
    using assms(1) by (simp add: release_inv_def jc_inv_defs known_jobs_def)
  from release_jobs_ok [OF this, of "jobs s"] show ?thesis by auto
qed

lemma inv_jc_disconnected:
  assumes "jc_inv s" and "c \<in> jc_clients s"
  shows "\<exists>t os. jc_disconnected s c = Inr (t, os) \<and> jc_inv t"
proof -
  from release_all [OF assms] obtain t b os
    where t: "release_jobs c (jobs s) (s\<lparr>jc_clients := jc_clients s - {c}\<rparr>) (DeleteFunc_waiters c (waiters s))
        = Inr (t, b, os)" "release_inv c t b" "same_jobs (s\<lparr>jc_clients := jc_clients s - {c}\<rparr>) t"
      "\<forall>j \<in> set (jobs s). owner t (job_Id j) \<noteq> c" by blast
  have "jc_inv (t\<lparr>waiters := slice b @ behind b\<rparr>)"
    using t(2-4) by (auto simp: release_inv_def jc_inv_def owners_ok_def same_jobs_def ids_inv_def
        queues_inv_def known_jobs_def)
  with t(1) show ?thesis by (simp add: jc_disconnected_def)
qed

lemma jobcentre_step_ok:
  assumes "jc_inv s" and "jobcentre_enabled s e"
  shows "\<exists>t os. jobcentre_step s e = Inr (t, os) \<and> jc_inv t"
proof -
  obtain c m where e: "e = (c, m)" by (cases e)
  show ?thesis
  proof (cases m)
    case JConnected
    with e assms show ?thesis
      by (auto simp: jc_inv_defs known_jobs_def waiters_ok_def)
  next
    case (GetRequest ids wait)
    with e assms inv_Get [of s c ids wait] show ?thesis by (cases "handle_Get s c ids wait") simp
  next
    case (AbortRequest i)
    with e assms inv_Abort [of s c i] show ?thesis by (cases "handle_Abort s c i") simp
  next
    case (DeleteRequest i)
    with e assms inv_Delete [of s c i] show ?thesis by (cases "handle_Delete s c i") simp
  qed (use e assms inv_jc_disconnected inv_Put in auto)
qed


section \<open>The identifiers given out\<close>

fun put_ids :: "'d reply list \<Rightarrow> job_id list" where
  "put_ids [] = []"
| "put_ids ((c, PutResponse i) # os) = i # put_ids os"
| "put_ids (x # os) = put_ids os"

lemma put_ids_append [simp]: "put_ids (xs @ ys) = put_ids xs @ put_ids ys"
  by (induction xs rule: put_ids.induct) auto

definition ids_hist :: "'d reply list \<Rightarrow> 'd jobcentre \<Rightarrow> bool" where
  "ids_hist h s \<longleftrightarrow> 1 \<le> jobNextId s \<and> put_ids h = [1..jobNextId s - 1]"

lemma reply_to_ids: "reply_to cl c (get_response j) = Inr os \<Longrightarrow> put_ids os = []"
  by (auto simp: reply_to_def get_response_def split: if_splits)

lemma release_jobs_ids:
  "release_jobs c js s a = Inr (t, b, os) \<Longrightarrow> put_ids os = [] \<and> jobNextId t = jobNextId s"
proof (induction js arbitrary: s a os)
  case Nil
  then show ?case by simp
next
  case (Cons j js)
  then obtain s1 a1 os1 os2 where 1: "release_job c j s a = Inr (s1, a1, os1)"
    and 2: "release_jobs c js s1 a1 = Inr (t, b, os2)" "os = os1 @ os2"
    by (auto split: sum.splits prod.splits)
  have "put_ids os1 = [] \<and> jobNextId s1 = jobNextId s"
    using 1 by (auto simp: release_job_def reply_to_ids split: if_splits option.splits sum.splits)
  with Cons.IH [OF 2(1)] 2(2) show ?case by simp
qed

lemma jobcentre_step_ids:
  assumes "ids_hist h s" and "jobcentre_step s e = Inr (t, os)"
  shows "ids_hist (h @ os) t"
proof -
  have same: ?thesis if "jobNextId t = jobNextId s" "put_ids os = []"
    using that assms(1) by (simp add: ids_hist_def)
  obtain c m where e: "e = (c, m)" by (cases e)
  show ?thesis
  proof (cases m)
    case JConnected
    with e assms(2) show ?thesis by (intro same) auto
  next
    case JDisconnected
    with e assms(2) show ?thesis
      by (intro same) (auto simp: jc_disconnected_def split: sum.splits dest!: release_jobs_ids)
  next
    case (PutRequest q d p)
    with e assms(2) have "jobNextId t = jobNextId s + 1" "put_ids os = [jobNextId s]"
      by (auto simp: handle_Put_def Let_def reply_to_ids split: option.splits sum.splits)
    with assms(1) show ?thesis by (simp add: ids_hist_def upto_rec2 [of 1 "jobNextId s"])
  next
    case (GetRequest ids wait)
    with e assms(2) show ?thesis
      by (intro same) (auto simp: handle_Get_def get_response_def split: option.splits if_splits)
  next
    case (AbortRequest i)
    with e assms(2) show ?thesis by (intro same) (auto simp: handle_Abort_def split: option.splits if_splits)
  next
    case (DeleteRequest i)
    with e assms(2) show ?thesis
      by (intro same) (auto simp: handle_Delete_def Let_def split: option.splits if_splits)
  qed
qed

interpretation jobcentre_loop: traced_loop jobcentre_step jobcentre_enabled jc_inv ids_hist
  by unfold_locales (blast intro: jobcentre_step_ok jobcentre_step_ids)+

abbreviation jc_run :: "(peer_id \<times> 'd jmsg) list \<Rightarrow> go_panic + 'd jobcentre \<times> 'd reply list" where
  "jc_run es \<equiv> run jobcentre_step jobcentre_init es"

abbreviation jc_served :: "(peer_id \<times> 'd jmsg) list \<Rightarrow> bool" where
  "jc_served es \<equiv> conforming jobcentre_step jobcentre_enabled jobcentre_init es"

lemma jc_run_inv: "jc_served es \<Longrightarrow> jc_run es = Inr (s, os) \<Longrightarrow> jc_inv s"
  by (rule jobcentre_loop.run_inv [OF jc_inv_init])

end
