(* ===== verification/Jobcentre_Props.thy ===== *)
theory Jobcentre_Props
  imports Jobcentre_Inv
begin

text \<open>
  The properties of the job centre, and the runs in which it does what it does not mean to do.
\<close>

section \<open>Properties\<close>

text \<open>
  No job is lost, and the server does not panic: whatever the clients send, every job that was
  put and not deleted is at all times in its queue or assigned to a client that is connected.
\<close>

theorem no_job_is_lost:
  assumes "jc_served es"
  shows "\<exists>s os. jc_run es = Inr (s, os)
    \<and> (\<forall>j \<in> set (jobs s). if owner s (job_Id j) = 0 then j \<in> set (jc_queue s (job_Queue j))
         else owner s (job_Id j) \<in> jc_clients s)"
proof -
  obtain s os where "jc_run es = Inr (s, os)" "jc_inv s"
    using jobcentre_loop.run_ok [OF jc_inv_init assms] by blast
  then show ?thesis by (auto simp: jc_inv_defs)
qed

definition ex_jobs :: "(peer_id \<times> string jmsg) list" where
  "ex_jobs = [(1, JConnected), (2, JConnected), (1, PutRequest ''q'' ''a'' 5), (1, PutRequest ''q'' ''b'' 7),
     (1, PutRequest ''r'' ''c'' 7)]"

definition ex_job :: "int \<Rightarrow> string \<Rightarrow> string \<Rightarrow> pri \<Rightarrow> string job" where
  "ex_job i q d p = \<lparr>job_Id = i, job_data = d, job_priority = p, job_Queue = q\<rparr>"

definition ex_jc :: "string jobcentre" where
  "ex_jc = \<lparr>jobNextId = 4, jc_clients = {1, 2}, waiters = [],
     queues = [''q'' \<mapsto> [ex_job 1 ''q'' ''a'' 5, ex_job 2 ''q'' ''b'' 7], ''r'' \<mapsto> [ex_job 3 ''r'' ''c'' 7]],
     jobs = [ex_job 1 ''q'' ''a'' 5, ex_job 2 ''q'' ''b'' 7, ex_job 3 ''r'' ''c'' 7], owner = (\<lambda>i. 0)\<rparr>"

lemmas jc_eval = jobcentre_init_def handle_Put_def handle_Get_def handle_Abort_def handle_Delete_def
  jc_disconnected_def release_job_def DeleteFunc_waiters_def remove_in_array_def add_job_def new_job_def
  enqueue_def reply_to_def get_response_def Let_def remove_at_def lookup_list_def

lemma ex_jobs_run: "jc_run ex_jobs = Inr (ex_jc, [(1, PutResponse 1), (1, PutResponse 2), (1, PutResponse 3)])"
  by (simp add: ex_jobs_def ex_jc_def ex_job_def jc_eval insert_commute fun_upd_twist fun_upd_idem)

lemma ex_jobs_served: "jc_served ex_jobs"
  by (simp add: ex_jobs_def jc_eval)

theorem no_job_is_lost_witness:
  "\<exists>s os. jc_run (ex_jobs @ [(2, GetRequest [''q''] None), (2, JDisconnected)]) = Inr (s, os)
    \<and> (\<forall>j \<in> set (jobs s). if owner s (job_Id j) = 0 then j \<in> set (jc_queue s (job_Queue j))
         else owner s (job_Id j) \<in> jc_clients s)"
  by (rule no_job_is_lost) (simp add: ex_jobs_def jc_eval)


text \<open>
  C38: The jobs that are put get the identifiers 1, 2, 3 and so on, in the order of the replies: no
  identifier is used twice.
\<close>

theorem job_ids_count_up:
  assumes "jc_served es" and "jc_run es = Inr (s, os)"
  shows "put_ids os = [1..int (length (put_ids os))]"
proof -
  have "ids_hist os s"
    using jobcentre_loop.run_hist [OF jc_inv_init assms(1) _ assms(2), of "[]"]
    by (simp add: ids_hist_def jobcentre_init_def)
  then show ?thesis by (simp add: ids_hist_def)
qed

theorem job_ids_count_up_witness:
  "put_ids [(1, PutResponse 1), (1, PutResponse 2), (1, PutResponse 3 :: string response)]
    = [1..int (length (put_ids [(1, PutResponse 1), (1, PutResponse 2), (1, PutResponse 3 :: string response)]))]"
  by (rule job_ids_count_up [OF ex_jobs_served ex_jobs_run])

text \<open>
  C4: A get request that names a queue with a job is answered with the job of the highest
  priority of all the queues it names, the first one of them if there are several; the job is
  assigned to the client and leaves its queue, and nothing else changes. When all the queues it names
  are empty, a client that wants to wait becomes the last of those who wait and is sent nothing, and
  any other client is told that there is no job.
\<close>

theorem get_returns_the_best_job:
  assumes "jc_served es" and "jc_run es = Inr (s, os)"
  shows "if \<exists>q \<in> set ids. jc_queue s q \<noteq> []
    then \<exists>b qs. jobcentre_step s (c, GetRequest ids wait)
        = Inr (s\<lparr>owner := (owner s)(job_Id b := c), queues := qs\<rparr>, [(c, get_response b)])
      \<and> first_max (concat (map (jc_queue s) ids)) (Some b)
      \<and> (\<forall>q. lookup_list qs q = filter (\<lambda>j. j \<noteq> b) (jc_queue s q))
    else jobcentre_step s (c, GetRequest ids wait)
        = Inr (if wait = Some True then (s\<lparr>waiters := waiters s @ [\<lparr>ClientId = c, Queues = ids\<rparr>]\<rparr>, [])
               else (s, [(c, StatusResponse STATUS_NO_JOB [])]))"
proof (cases "pick_queues (queues s) ids None")
  case None
  then have "\<not> (\<exists>q \<in> set ids. jc_queue s q \<noteq> [])" by (simp only: pick_queues_None) simp
  then show ?thesis by (simp add: handle_Get_def None)
next
  case b: (Some b)
  have inv: "jc_inv s" by (rule jc_run_inv [OF assms])
  obtain r where r: "b \<in> set (jc_queue s r)" using pick_queues_in [OF b] by blast
  have qs: "\<forall>q. \<forall>j \<in> set (jc_queue s q). job_Queue j = q" using inv by (simp add: jc_inv_def queues_inv_def)
  have inj: "j \<in> set (jc_queue s q') \<Longrightarrow> job_Id j = job_Id b \<longleftrightarrow> j = b" for j q'
    using inv r by (auto simp: jc_inv_def ids_inv_def known_jobs_def dest: inj_onD)
  let ?qs = "(queues s)(job_Queue b \<mapsto> filter (\<lambda>j. job_Id j \<noteq> job_Id b) (jc_queue s (job_Queue b)))"
  have "lookup_list ?qs q = filter (\<lambda>j. j \<noteq> b) (jc_queue s q)" for q
  proof (cases "q = job_Queue b")
    case True
    then show ?thesis using inj by (simp cong: filter_cong)
  next
    case False
    then have "\<forall>j \<in> set (jc_queue s q). j \<noteq> b" using qs by auto
    with False show ?thesis by (simp add: filter_id_conv)
  qed
  moreover have "jobcentre_step s (c, GetRequest ids wait)
      = Inr (s\<lparr>owner := (owner s)(job_Id b := c), queues := ?qs\<rparr>, [(c, get_response b)])"
    by (simp add: handle_Get_def b)
  moreover have "\<exists>q \<in> set ids. jc_queue s q \<noteq> []" using b pick_queues_None [of "queues s" ids] by auto
  moreover have "first_max (concat (map (jc_queue s) ids)) (Some b)"
    using pick_queues_spec [of "queues s" ids] by (simp add: b)
  ultimately show ?thesis by (simp only: if_True) blast
qed

theorem get_returns_the_best_job_witness:
  "\<exists>b qs. jobcentre_step ex_jc (2, GetRequest [''q'', ''r''] None)
        = Inr (ex_jc\<lparr>owner := (owner ex_jc)(job_Id b := 2), queues := qs\<rparr>, [(2, get_response b)])
      \<and> first_max (concat (map (jc_queue ex_jc) [''q'', ''r''])) (Some b)"
proof -
  have "\<exists>q \<in> set [''q'', ''r'']. jc_queue ex_jc q \<noteq> []" by (simp add: ex_jc_def lookup_list_def)
  with get_returns_the_best_job [OF ex_jobs_served ex_jobs_run, of "[''q'', ''r'']" 2 None] show ?thesis
    by (auto simp del: jobcentre_step.simps)
qed

text \<open>The first waiter of a queue, and those before and behind it.\<close>

lemma find_waiter_split:
  "find_waiter ws q = (case dropWhile (\<lambda>w. q \<notin> set (Queues w)) ws of
     [] \<Rightarrow> None | w # _ \<Rightarrow> Some (length (takeWhile (\<lambda>w. q \<notin> set (Queues w)) ws), w))"
  by (induction ws) (simp_all split: list.split_asm list.split del: dropWhile_eq_Nil_conv)

lemma remove_at_first_match: "dropWhile P ws = w # ws' \<Longrightarrow> remove_at (length (takeWhile P ws)) ws = takeWhile P ws @ ws'"
proof -
  assume d: "dropWhile P ws = w # ws'"
  then have "ws = takeWhile P ws @ w # ws'" by (metis takeWhile_dropWhile_id)
  then show ?thesis by (metis add.commute append_eq_conv_conj drop_drop drop_Suc_Cons drop0 plus_1_eq_Suc remove_at_def)
qed

text \<open>
  C21: A put adds the job with the next identifier to the jobs and to the end of its queue, without an
  owner, and is answered with the identifier. When clients wait for the queue, the first of them, in
  the order in which they began to wait, is sent the job at once and stops waiting; otherwise
  everyone keeps waiting. Nothing else changes.
\<close>

theorem put_serves_the_first_waiter:
  assumes "jc_served es" and "jc_run es = Inr (s, os)"
  shows "let j = \<lparr>job_Id = jobNextId s, job_data = d, job_priority = p, job_Queue = q\<rparr>;
        t = s\<lparr>jobNextId := jobNextId s + 1, jobs := jobs s @ [j], queues := (queues s)(q \<mapsto> jc_queue s q @ [j]),
              owner := (owner s)(jobNextId s := 0)\<rparr>
    in jobcentre_step s (c, PutRequest q d p)
      = (case dropWhile (\<lambda>w. q \<notin> set (Queues w)) (waiters s) of
           [] \<Rightarrow> Inr (t, [(c, PutResponse (jobNextId s))])
         | w # ws \<Rightarrow>
             Inr (t\<lparr>waiters := takeWhile (\<lambda>w. q \<notin> set (Queues w)) (waiters s) @ ws\<rparr>,
                  [(c, PutResponse (jobNextId s)), (ClientId w, GetResponse (jobNextId s) d p q)]))"
proof (cases "dropWhile (\<lambda>w. q \<notin> set (Queues w)) (waiters s)")
  case Nil
  then have "find_waiter (waiters s) q = None" by (simp only: find_waiter_split list.case)
  with Nil show ?thesis
    by (simp add: handle_Put_def add_job_def new_job_def enqueue_def Let_def del: dropWhile_eq_Nil_conv)
next
  case (Cons w ws)
  have inv: "jc_inv s" by (rule jc_run_inv [OF assms])
  from Cons have "w \<in> set (waiters s)" by (metis in_set_conv_decomp takeWhile_dropWhile_id)
  moreover have "Queues w \<noteq> []" using Cons hd_dropWhile [of "\<lambda>w. q \<notin> set (Queues w)" "waiters s"] by auto
  ultimately have "ClientId w \<in> jc_clients s" using inv by (auto simp: jc_inv_def waiters_ok_def)
  with Cons remove_at_first_match [OF Cons] show ?thesis
    by (simp add: handle_Put_def find_waiter_split add_job_def new_job_def enqueue_def reply_to_def
        get_response_def Let_def)
qed

theorem put_serves_the_first_waiter_witness:
  "\<exists>t. jobcentre_step (ex_jc\<lparr>waiters := [\<lparr>ClientId = 2, Queues = [''x'']\<rparr>, \<lparr>ClientId = 1, Queues = [''w'', ''x'']\<rparr>]\<rparr>)
      (2, PutRequest ''w'' ''d'' 9) = Inr (t, [(2, PutResponse 4), (1, GetResponse 4 ''d'' 9 ''w'')])
    \<and> waiters t = [\<lparr>ClientId = 2, Queues = [''x'']\<rparr>] \<and> jobs t = jobs ex_jc @ [ex_job 4 ''w'' ''d'' 9]"
proof -
  let ?w1 = "\<lparr>ClientId = 2, Queues = [''x'']\<rparr>" and ?w2 = "\<lparr>ClientId = 1, Queues = [''w'', ''x'']\<rparr>"
  let ?es = "ex_jobs @ [(2, GetRequest [''x''] (Some True)), (1, GetRequest [''w'', ''x''] (Some True))]"
  have "jc_served ?es" by (simp add: ex_jobs_def jc_eval)
  moreover have "jc_run ?es = Inr (ex_jc\<lparr>waiters := [?w1, ?w2]\<rparr>,
      [(1, PutResponse 1), (1, PutResponse 2), (1, PutResponse 3)])"
    by (simp add: run_append ex_jobs_run) (simp add: ex_jc_def jc_eval)
  ultimately show ?thesis
    using put_serves_the_first_waiter [of ?es "ex_jc\<lparr>waiters := [?w1, ?w2]\<rparr>" _ "''d''" 9 "''w''" 2]
    by (auto simp: ex_jc_def ex_job_def Let_def simp del: jobcentre_step.simps)
qed

section \<open>What a disconnection does\<close>

text \<open>
  Who gets the jobs of a client that has gone: each of them, in their order, goes to the first waiter
  that is left and has named its queue, and to nobody if there is none.
\<close>

fun assign :: "'d job list \<Rightarrow> waiter list \<Rightarrow> ('d job \<times> peer_id option) list" where
  "assign [] ws = []"
| "assign (j # js) ws =
     (case dropWhile (\<lambda>w. job_Queue j \<notin> set (Queues w)) ws of
        [] \<Rightarrow> (j, None) # assign js ws
      | w # ws' \<Rightarrow>
          (j, Some (ClientId w)) # assign js (takeWhile (\<lambda>w. job_Queue j \<notin> set (Queues w)) ws @ ws'))"

definition given_jobs :: "('d job \<times> peer_id option) list \<Rightarrow> 'd reply list" where
  "given_jobs as = [(p, get_response j). (j, Some p) \<leftarrow> as]"

definition queued_jobs :: "('d job \<times> peer_id option) list \<Rightarrow> 'd job list" where
  "queued_jobs as = [j. (j, None) \<leftarrow> as]"

lemma given_jobs_simps [simp]:
  "given_jobs [] = []"
  "given_jobs ((j, None) # as) = given_jobs as"
  "given_jobs ((j, Some p) # as) = (p, get_response j) # given_jobs as"
  by (simp_all add: given_jobs_def)

lemma queued_jobs_simps [simp]:
  "queued_jobs [] = []"
  "queued_jobs ((j, None) # as) = j # queued_jobs as"
  "queued_jobs ((j, Some p) # as) = queued_jobs as"
  by (simp_all add: queued_jobs_def)

lemma assign_jobs: "map fst (assign js ws) = js"
  by (induction js arbitrary: ws) (simp_all split: list.split del: dropWhile_eq_Nil_conv)

lemma release_job_spec:
  assumes "release_job c j s a = Inr (t, b, os)"
  shows "owner s (job_Id j) \<noteq> c \<Longrightarrow> t = s \<and> b = a \<and> os = []"
    and "owner s (job_Id j) = c \<Longrightarrow> dropWhile (\<lambda>w. job_Queue j \<notin> set (Queues w)) (slice a) = [] \<Longrightarrow>
      t = s\<lparr>owner := (owner s)(job_Id j := 0), queues := enqueue (queues s) j\<rparr> \<and> b = a \<and> os = []"
    and "owner s (job_Id j) = c \<Longrightarrow> dropWhile (\<lambda>w. job_Queue j \<notin> set (Queues w)) (slice a) = w # ws \<Longrightarrow>
      t = s\<lparr>owner := (owner s)(job_Id j := ClientId w)\<rparr> \<and> os = [(ClientId w, get_response j)]
      \<and> slice b = takeWhile (\<lambda>w. job_Queue j \<notin> set (Queues w)) (slice a) @ ws"
  using assms
  by (simp_all add: release_job_def reply_to_def find_waiter_split remove_in_array_def remove_at_first_match
      split: if_splits del: dropWhile_eq_Nil_conv) auto

definition owner_after :: "('d job \<times> peer_id option) list \<Rightarrow> (job_id \<Rightarrow> peer_id) \<Rightarrow> job_id \<Rightarrow> peer_id" where
  "owner_after as own i =
     (case find (\<lambda>(j, p). job_Id j = i) as of
        None \<Rightarrow> own i | Some (j, None) \<Rightarrow> 0 | Some (j, Some p) \<Rightarrow> p)"

lemma owner_after_simps [simp]:
  "owner_after [] own i = own i"
  "owner_after ((j, p) # as) own i
    = (if job_Id j = i then (case p of None \<Rightarrow> 0 | Some p \<Rightarrow> p) else owner_after as own i)"
  by (simp_all add: owner_after_def split: option.split)

lemma owner_after_other: "i \<notin> job_Id ` fst ` set as \<Longrightarrow> owner_after as own i = own i"
  by (induction as) auto

lemma owner_after_cong: "own i = own' i \<Longrightarrow> owner_after as own i = owner_after as own' i"
  by (induction as) auto

lemma release_jobs_spec:
  assumes "release_jobs c js s a = Inr (t, b, os)" and "distinct (map job_Id js)"
    and "as = assign (filter (\<lambda>j. owner s (job_Id j) = c) js) (slice a)"
  shows "os = given_jobs as \<and> owner t = owner_after as (owner s)
    \<and> (\<forall>q. jc_queue t q = jc_queue s q @ filter (\<lambda>j. job_Queue j = q) (queued_jobs as))
    \<and> jobs t = jobs s \<and> jobNextId t = jobNextId s \<and> jc_clients t = jc_clients s"
  using assms
proof (induction js arbitrary: s a os as)
  case Nil
  then show ?case by (simp add: fun_eq_iff)
next
  case (Cons j js)
  then obtain s1 a1 os1 os2 where 1: "release_job c j s a = Inr (s1, a1, os1)"
    and 2: "release_jobs c js s1 a1 = Inr (t, b, os2)" "os = os1 @ os2"
    by (auto split: sum.splits prod.splits)
  have d: "job_Id j \<notin> job_Id ` set js" "distinct (map job_Id js)" using Cons.prems(2) by auto
  let ?as = "assign (filter (\<lambda>j. owner s1 (job_Id j) = c) js) (slice a1)"
  note IH = Cons.IH [OF 2(1) d(2) refl]
  have other: "owner s1 i = owner s i" if "i \<noteq> job_Id j" for i
    using release_job_spec [OF 1] that
    by (cases "dropWhile (\<lambda>w. job_Queue j \<notin> set (Queues w)) (slice a)"; cases "owner s (job_Id j) = c") auto
  have same: "filter (\<lambda>j. owner s1 (job_Id j) = c) js = filter (\<lambda>j. owner s (job_Id j) = c) js"
  proof (intro filter_cong refl)
    fix x assume "x \<in> set js"
    then have "job_Id x \<noteq> job_Id j" using d(1) by (metis image_eqI)
    then show "owner s1 (job_Id x) = c \<longleftrightarrow> owner s (job_Id x) = c" by (simp add: other)
  qed
  have "job_Id j \<notin> job_Id ` fst ` set ?as"
    using d(1) by (simp flip: set_map add: assign_jobs) (auto simp: image_iff)
  then have own_j: "owner t (job_Id j) = owner s1 (job_Id j)" using IH by (simp add: owner_after_other)
  have own: "owner t i = owner_after ?as (owner s) i" if "i \<noteq> job_Id j" for i
    using IH owner_after_cong [of "owner s1" i "owner s" ?as] other [OF that] by simp
  show ?case
  proof (cases "owner s (job_Id j) = c")
    case False
    then have "s1 = s" "a1 = a" "os1 = []" using release_job_spec(1) [OF 1] by simp_all
    with False IH 2 Cons.prems(3) show ?thesis by simp
  next
    case own_c: True
    show ?thesis
    proof (cases "dropWhile (\<lambda>w. job_Queue j \<notin> set (Queues w)) (slice a)")
      case Nil
      note s1 = release_job_spec(2) [OF 1 own_c Nil]
      then have as: "as = (j, None) # ?as" using Cons.prems(3) own_c Nil same
        by (simp del: dropWhile_eq_Nil_conv)
      have "owner t = owner_after as (owner s)"
        using own own_j s1 by (auto simp: as fun_eq_iff)
      with IH s1 2(2) show ?thesis by (simp add: as lookup_enqueue)
    next
      case (Cons w ws)
      note s1 = release_job_spec(3) [OF 1 own_c Cons]
      then have as: "as = (j, Some (ClientId w)) # ?as" using Cons.prems own_c Cons same by simp
      have "owner t = owner_after as (owner s)"
        using own own_j s1 by (auto simp: as fun_eq_iff)
      with IH s1 2(2) show ?thesis by (simp add: as)
    qed
  qed
qed

text \<open>
  C20: When a client disconnects, the jobs assigned to it are given away in the order in which they
  were put. Each goes to the first client, in the order in which they began to wait, that waits for its
  queue, has not been given a job before and is not the one that has gone: it is sent the job and
  becomes its owner. A job for which nobody waits is put at the end of its queue without an owner.
  Nothing else is sent; the other jobs keep their owners and the queues all that was in them.
\<close>

theorem disconnection_releases_jobs:
  assumes "jc_served es" and "jc_run es = Inr (s, os)" and "c \<in> jc_clients s"
  shows "let as = assign (filter (\<lambda>j. owner s (job_Id j) = c) (jobs s))
        (filter (\<lambda>w. ClientId w \<noteq> c) (waiters s))
    in \<exists>t. jobcentre_step s (c, JDisconnected) = Inr (t, [(p, get_response j). (j, Some p) \<leftarrow> as])
      \<and> (\<forall>i. owner t i = (case find (\<lambda>(j, p). job_Id j = i) as of
             None \<Rightarrow> owner s i | Some (j, None) \<Rightarrow> 0 | Some (j, Some p) \<Rightarrow> p))
      \<and> (\<forall>q. jc_queue t q = jc_queue s q @ filter (\<lambda>j. job_Queue j = q) [j. (j, None) \<leftarrow> as])
      \<and> jobs t = jobs s \<and> jobNextId t = jobNextId s \<and> jc_clients t = jc_clients s - {c}"
proof -
  define as where "as = assign (filter (\<lambda>j. owner s (job_Id j) = c) (jobs s))
    (filter (\<lambda>w. ClientId w \<noteq> c) (waiters s))"
  have inv: "jc_inv s" by (rule jc_run_inv [OF assms(1,2)])
  from release_all [OF inv assms(3)] obtain t b os'
    where r: "release_jobs c (jobs s) (s\<lparr>jc_clients := jc_clients s - {c}\<rparr>) (DeleteFunc_waiters c (waiters s))
        = Inr (t, b, os')" by blast
  have "distinct (map job_Id (jobs s))" using inv by (simp add: jc_inv_def ids_inv_def)
  note spec = release_jobs_spec [OF r this, of as]
  have "jobcentre_step s (c, JDisconnected) = Inr (t\<lparr>waiters := slice b @ behind b\<rparr>, os')"
    using r by (simp add: jc_disconnected_def)
  moreover have "os' = given_jobs as \<and> owner t = owner_after as (owner s)
    \<and> (\<forall>q. jc_queue t q = jc_queue s q @ filter (\<lambda>j. job_Queue j = q) (queued_jobs as))
    \<and> jobs t = jobs s \<and> jobNextId t = jobNextId s \<and> jc_clients t = jc_clients s - {c}"
    using spec by (simp add: as_def DeleteFunc_waiters_def Let_def)
  ultimately show ?thesis
    unfolding Let_def as_def [symmetric] given_jobs_def [symmetric] queued_jobs_def [symmetric]
      owner_after_def [symmetric] by (auto simp del: jobcentre_step.simps)
qed

definition ex_given :: "(peer_id \<times> string jmsg) list" where
  "ex_given = ex_jobs @ [(2, GetRequest [''r''] None), (2, GetRequest [''q''] None),
     (1, GetRequest [''r''] (Some True))]"

definition ex_given_jc :: "string jobcentre" where
  "ex_given_jc = ex_jc\<lparr>waiters := [\<lparr>ClientId = 1, Queues = [''r'']\<rparr>],
     queues := [''q'' \<mapsto> [ex_job 1 ''q'' ''a'' 5], ''r'' \<mapsto> []], owner := (\<lambda>i. 0)(3 := 2, 2 := 2)\<rparr>"

lemma ex_given_run:
  "jc_run ex_given = Inr (ex_given_jc, [(1, PutResponse 1), (1, PutResponse 2), (1, PutResponse 3),
     (2, GetResponse 3 ''c'' 7 ''r''), (2, GetResponse 2 ''b'' 7 ''q'')])"
  by (simp add: ex_given_def run_append ex_jobs_run)
    (simp add: ex_given_jc_def ex_jc_def ex_job_def jc_eval fun_upd_twist)

theorem disconnection_releases_jobs_witness:
  "\<exists>t. jobcentre_step ex_given_jc (2, JDisconnected) = Inr (t, [(1, GetResponse 3 ''c'' 7 ''r'')])
    \<and> owner t 3 = 1 \<and> owner t 2 = 0 \<and> jc_queue t ''q'' = [ex_job 1 ''q'' ''a'' 5, ex_job 2 ''q'' ''b'' 7]"
proof -
  have "jc_served ex_given" by (simp add: ex_given_def ex_jobs_def jc_eval)
  then show ?thesis
    using disconnection_releases_jobs [OF _ ex_given_run, of 2]
    by (auto simp: ex_given_jc_def ex_jc_def ex_job_def get_response_def Let_def lookup_list_def
        simp del: jobcentre_step.simps)
qed

text \<open>
  A job that is put while a client waits for its queue is sent to this client but stays in the
  queue, without an owner: the next get sends it to a second client.
\<close>

theorem waited_job_is_given_twice:
  "\<exists>s. jc_run [(1, JConnected), (2, JConnected), (3, JConnected), (1, GetRequest [''q''] (Some True)),
      (2, PutRequest ''q'' ''a'' 5), (3, GetRequest [''q''] None)]
    = Inr (s, [(2, PutResponse 1), (1, GetResponse 1 ''a'' 5 ''q''), (3, GetResponse 1 ''a'' 5 ''q'')])"
  by (simp add: jc_eval)

text \<open>
  A job that was aborted by its client can be deleted and is still handed out: abort puts it
  back in its queue without resetting the owner, and delete looks into the queue only when there
  is no owner.
\<close>

theorem deleted_job_is_handed_out:
  "\<exists>s. jc_run [(1, JConnected), (1, PutRequest ''q'' ''a'' 5), (1, GetRequest [''q''] None), (1, AbortRequest 1),
      (1, DeleteRequest 1), (1, GetRequest [''q''] None)]
    = Inr (s, [(1, PutResponse 1), (1, GetResponse 1 ''a'' 5 ''q''), (1, StatusResponse STATUS_OK []),
        (1, StatusResponse STATUS_OK []), (1, GetResponse 1 ''a'' 5 ''q'')]) \<and> jobs s = []"
  by (simp add: jc_eval)

text \<open>
  A waiter that is served when another client disconnects keeps waiting, since the
  disconnection changes a variable of its own and not the list of waiters: it is sent the next job
  of the queue although it has not asked for a second one.
\<close>

theorem served_waiter_keeps_waiting:
  "\<exists>s. jc_run [(1, JConnected), (2, JConnected), (3, JConnected), (1, PutRequest ''q'' ''a'' 5),
      (1, GetRequest [''q''] None), (2, GetRequest [''q''] (Some True)), (1, JDisconnected),
      (3, PutRequest ''q'' ''b'' 6)]
    = Inr (s, [(1, PutResponse 1), (1, GetResponse 1 ''a'' 5 ''q''), (2, GetResponse 1 ''a'' 5 ''q''),
        (3, PutResponse 2), (2, GetResponse 2 ''b'' 6 ''q'')])"
  by (simp add: jc_eval)

end
