(* ===== verification/Chat.thy ===== *)
theory Chat
  imports Go_Machine Go_IO Go_Text
begin

text \<open>
  \<^verbatim>\<open>chat/chat.go\<close>: the goroutine \<open>runChatServer\<close>, which owns the sessions and the counters of the
  user names, and \<open>HandleClient\<close>. \<open>chat_step\<close> is one iteration of the loop of the server. Go
  iterates over a map in an order it does not fix: each message comes with the order in which the
  loops over \<open>sessions\<close> visit the clients.
\<close>

section \<open>State, messages and effects\<close>

datatype chat_msg = ChatConnected | ChatDisconnected | ChatMessage (chat_value: string)

datatype chat_effect = Write peer_id string | CloseConn peer_id

text \<open>\<open>sessions\<close> leads from a client to the \<open>username\<close> of its \<open>ChatSession\<close>.\<close>

record chat =
  sessions :: "peer_id \<rightharpoonup> string"
  usernameMaps :: "string \<rightharpoonup> nat"

definition chat_init :: chat where
  "chat_init = \<lparr>sessions = Map.empty, usernameMaps = Map.empty\<rparr>"

definition IsConnected :: "string \<Rightarrow> bool" where
  "IsConnected username \<longleftrightarrow> username \<noteq> []"

definition writeLine :: "peer_id \<Rightarrow> string \<Rightarrow> chat_effect" where
  "writeLine c line = Write c (if last line \<noteq> LF then line @ [LF] else line)"

text \<open>The regular expression \<open>^[a-zA-Z0-9]*$\<close>.\<close>

definition valid_name :: "string \<Rightarrow> bool" where
  "valid_name s \<longleftrightarrow> list_all alnum s"

text \<open>The clients that a loop over the sessions writes to: the other connected ones, in the order.\<close>

definition others :: "chat \<Rightarrow> peer_id \<Rightarrow> peer_id list \<Rightarrow> (peer_id \<times> string) list" where
  "others s c order =
     List.map_filter (\<lambda>d. case sessions s d of
        None \<Rightarrow> None
      | Some u \<Rightarrow> if c = d \<or> \<not> IsConnected u then None else Some (d, u)) order"

section \<open>One iteration of the loop\<close>

definition chat_connected :: "chat \<Rightarrow> peer_id \<Rightarrow> chat \<times> chat_effect list" where
  "chat_connected s c =
     (s\<lparr>sessions := (sessions s)(c \<mapsto> [])\<rparr>, [writeLine c ''Please enter your username...''])"

definition chat_disconnected ::
  "chat \<Rightarrow> peer_id \<Rightarrow> peer_id list \<Rightarrow> go_panic + chat \<times> chat_effect list" where
  "chat_disconnected s c order =
     (case sessions s c of
        None \<Rightarrow> Inl NilDereference
      | Some username \<Rightarrow>
          (let s1 = s\<lparr>sessions := (sessions s)(c := None)\<rparr>
           in if \<not> IsConnected username then Inr (s1, [])
              else (let uCounter = (case usernameMaps s1 username of None \<Rightarrow> 0 | Some n \<Rightarrow> n);
                        s2 = s1\<lparr>usernameMaps := (if uCounter \<le> 1 then (usernameMaps s1)(username := None)
                                else (usernameMaps s1)(username \<mapsto> uCounter - 1))\<rparr>
                    in Inr (s2, map (\<lambda>(d, u). writeLine d (''* '' @ username @ '' has left the room''))
                         (others s2 c order)))))"

text \<open>The first line of a client names it; \<open>set_name\<close> is the assignment of the name.\<close>

definition set_name :: "chat \<Rightarrow> peer_id \<Rightarrow> string \<Rightarrow> chat \<times> string" where
  "set_name s c value =
     (case usernameMaps s value of
        None \<Rightarrow> (s\<lparr>sessions := (sessions s)(c \<mapsto> value), usernameMaps := (usernameMaps s)(value \<mapsto> 1)\<rparr>, value)
      | Some uCounter \<Rightarrow>
          (let username = value @ Itoa uCounter
           in (s\<lparr>sessions := (sessions s)(c \<mapsto> username), usernameMaps := (usernameMaps s)(value \<mapsto> uCounter + 1)\<rparr>,
               username)))"

definition join_room ::
  "chat \<Rightarrow> peer_id \<Rightarrow> string \<Rightarrow> peer_id list \<Rightarrow> chat \<times> chat_effect list" where
  "join_room s c value order =
     (if value = [] \<or> \<not> valid_name value then (s, [CloseConn c])
      else case set_name s c value of (s1, username) \<Rightarrow>
        (let usernames = map snd (others s1 c order)
         in (s1, map (\<lambda>(d, u). writeLine d (''* '' @ username @ '' has entered the room'')) (others s1 c order)
             @ [writeLine c (if length usernames > 0 then ''* The room contains: '' @ join_strings '', '' usernames
                             else ''* The room is currently empty'')])))"

definition chat_message ::
  "chat \<Rightarrow> peer_id \<Rightarrow> string \<Rightarrow> peer_id list \<Rightarrow> go_panic + chat \<times> chat_effect list" where
  "chat_message s c value order =
     (case sessions s c of
        None \<Rightarrow> Inl NilDereference
      | Some username \<Rightarrow>
          (if username = [] then Inr (join_room s c value order)
           else if value = [] then Inr (s, [])
           else Inr (s, map (\<lambda>(d, u). writeLine d (''['' @ username @ ''] '' @ value)) (others s c order))))"

fun chat_step :: "(chat, (peer_id \<times> chat_msg) \<times> peer_id list, chat_effect) handler" where
  "chat_step s ((c, ChatConnected), order) = Inr (chat_connected s c)"
| "chat_step s ((c, ChatDisconnected), order) = chat_disconnected s c order"
| "chat_step s ((c, ChatMessage v), order) = chat_message s c v order"

text \<open>
  A client announces itself once and then sends lines until it disconnects; an order of a map
  visits each of its keys once.
\<close>

fun chat_enabled :: "chat \<Rightarrow> (peer_id \<times> chat_msg) \<times> peer_id list \<Rightarrow> bool" where
  "chat_enabled s ((c, ChatConnected), order) = (sessions s c = None)"
| "chat_enabled s ((c, m), order) =
     (sessions s c \<noteq> None \<and> distinct order
      \<and> set order = dom (if m = ChatDisconnected then (sessions s)(c := None) else sessions s))"

section \<open>\<open>HandleClient\<close>\<close>

text \<open>
  The messages a client's goroutine sends for the bytes it receives, and the error it returns when
  the stream has ended with \<open>err\<close>.
\<close>

definition chat_HandleClient :: "string \<Rightarrow> go_error \<Rightarrow> chat_msg list \<times> go_error option" where
  "chat_HandleClient input err =
     (ChatConnected # map (\<lambda>text. ChatMessage (TrimRight text)) (lines_of LF input) @ [ChatDisconnected],
      if errors_Is err NetClosed then None else Some err)"

end
