(* ===== verification/Chat_Props.thy ===== *)
theory Chat_Props
  imports Chat
begin

text \<open>
  The properties of the chat server and of the goroutine of a client.
\<close>

section \<open>Who is written to\<close>

lemma others_in: "(d, u) \<in> set (others s c order) \<longleftrightarrow> d \<in> set order \<and> sessions s d = Some u \<and> u \<noteq> [] \<and> d \<noteq> c"
  by (induction order) (auto simp: others_def List.map_filter_def IsConnected_def split: option.splits)

lemma others_distinct: "distinct order \<Longrightarrow> distinct (map fst (others s c order))"
proof (induction order)
  case Nil
  then show ?case by (simp add: others_def List.map_filter_def)
next
  case (Cons d order)
  then have "distinct (map fst (others s c order))" and d: "d \<notin> set order" by simp_all
  moreover have "d \<notin> fst ` set (others s c order)" using d others_in [of _ _ s c order] by auto
  moreover have "others s c (d # order) = others s c order
      \<or> (\<exists>u. others s c (d # order) = (d, u) # others s c order)"
    by (auto simp: others_def List.map_filter_def split: option.splits)
  ultimately show ?case by auto
qed

text \<open>The clients in the room, and their names.\<close>

definition in_room :: "chat \<Rightarrow> peer_id \<Rightarrow> string \<Rightarrow> bool" where
  "in_room s d u \<longleftrightarrow> sessions s d = Some u \<and> u \<noteq> []"

section \<open>The invariant\<close>

definition chat_inv :: "chat \<Rightarrow> bool" where
  "chat_inv s \<longleftrightarrow> (\<forall>c u. sessions s c = Some u \<longrightarrow> valid_name u)"

lemma valid_Itoa: "valid_name (Itoa n)"
proof (induction n rule: Itoa.induct)
  case (1 n)
  have "alnum (char_of (48 + d))" if "d < 10" for d :: nat
    using that by (simp add: alnum_def Let_def)
  then show ?case using 1 by (subst Itoa.simps) (auto simp: valid_name_def)
qed


lemma set_name_spec:
  assumes "set_name s c value = (t, name)"
  shows "sessions t = (sessions s)(c \<mapsto> name)" and "\<exists>n. name = value \<or> name = value @ Itoa n"
  using assms by (auto simp: set_name_def Let_def split: option.splits)

lemma inv_join: "chat_inv s \<Longrightarrow> chat_inv (fst (join_room s c value order))"
proof (cases "value = [] \<or> \<not> valid_name value")
  case True
  then show "chat_inv s \<Longrightarrow> ?thesis" by (auto simp: join_room_def)
next
  case False
  assume inv: "chat_inv s"
  obtain t name where t: "set_name s c value = (t, name)" by fastforce
  have "valid_name name"
    using set_name_spec(2) [OF t] False valid_Itoa by (auto simp: valid_name_def)
  with inv have "chat_inv t" by (simp add: chat_inv_def set_name_spec(1) [OF t])
  with False t show ?thesis by (simp add: join_room_def Let_def)
qed

lemma chat_step_ok:
  assumes "chat_inv s" and "chat_enabled s e"
  shows "\<exists>t os. chat_step s e = Inr (t, os) \<and> chat_inv t"
proof -
  obtain c m order where e: "e = ((c, m), order)" by (cases e) auto
  show ?thesis
  proof (cases m)
    case ChatConnected
    with e assms(1) show ?thesis by (auto simp: chat_connected_def chat_inv_def valid_name_def)
  next
    case ChatDisconnected
    with e assms show ?thesis
      by (auto simp: chat_disconnected_def Let_def chat_inv_def split: option.splits)
  next
    case (ChatMessage v)
    with e assms(2) obtain u where u: "sessions s c = Some u" by auto
    show ?thesis
    proof (cases "u = []")
      case True
      with ChatMessage e u inv_join [OF assms(1), of c v order] show ?thesis
        by (cases "join_room s c v order") (simp add: chat_message_def)
    next
      case False
      with ChatMessage e u assms(1) show ?thesis by (simp add: chat_message_def)
    qed
  qed
qed

interpretation chat_loop: handler_loop chat_step chat_enabled chat_inv
  by unfold_locales (rule chat_step_ok)

abbreviation chat_run :: "((peer_id \<times> chat_msg) \<times> peer_id list) list \<Rightarrow> go_panic + chat \<times> chat_effect list" where
  "chat_run es \<equiv> run chat_step chat_init es"

section \<open>Properties\<close>

text \<open>
  A loop over the sessions visits them in some order: all that one can say of it. \<open>chat_clients\<close> says
  that the messages of each client are those of its goroutine, so far, for the bytes of its connection.
\<close>

fun map_order :: "chat \<Rightarrow> (peer_id \<times> chat_msg) \<times> peer_id list \<Rightarrow> bool" where
  "map_order s ((c, m), order) =
     (m = ChatConnected \<or> distinct order
      \<and> set order = dom (if m = ChatDisconnected then (sessions s)(c := None) else sessions s))"

definition chat_clients :: "(peer_id \<times> chat_msg) list \<Rightarrow> bool" where
  "chat_clients es \<longleftrightarrow> (\<forall>c. \<exists>input err n. messages_of c es = take n (fst (chat_HandleClient input err)))"

lemma chat_HandleClient_framed:
  "framed_peer ChatConnected ChatDisconnected False (take n (fst (chat_HandleClient input err)))"
  unfolding framed_peer_def chat_HandleClient_def
  by (intro exI [of _ "map (\<lambda>t. ChatMessage (TrimRight t)) (lines_of LF input)"] exI [of _ n]) auto

lemma chat_step_sessions:
  assumes "chat_step s ((c, m), order) = Inr (t, os)" and "m \<noteq> ChatConnected \<Longrightarrow> c \<in> dom (sessions s)"
  shows "dom (sessions t) = (if m = ChatConnected then insert c (dom (sessions s))
    else if m = ChatDisconnected then dom (sessions s) - {c} else dom (sessions s))"
proof (cases m)
  case ChatConnected
  with assms(1) show ?thesis by (auto simp: chat_connected_def)
next
  case ChatDisconnected
  with assms(1) show ?thesis
    by (auto simp: chat_disconnected_def Let_def split: option.splits if_splits)
next
  case (ChatMessage v)
  have "dom (sessions (fst (join_room s c v order))) = dom (sessions s)"
  proof (cases "v = [] \<or> \<not> valid_name v")
    case True
    then show ?thesis by (simp add: join_room_def)
  next
    case False
    obtain s1 name where n: "set_name s c v = (s1, name)" by fastforce
    with False have "fst (join_room s c v order) = s1" by (simp add: join_room_def Let_def)
    then show ?thesis using assms(2) ChatMessage set_name_spec(1) [OF n] by (simp add: insert_absorb)
  qed
  with ChatMessage assms(1) show ?thesis
    by (auto simp: chat_message_def split: option.splits if_splits)
qed

lemma framed_chat:
  "chat_inv s \<Longrightarrow> framed ChatConnected ChatDisconnected (dom (sessions s)) (map fst es) \<Longrightarrow>
   conforming chat_step map_order s es \<Longrightarrow> conforming chat_step chat_enabled s es"
proof (induction es arbitrary: s)
  case Nil
  then show ?case by simp
next
  case (Cons e es)
  obtain c m order where e: "e = ((c, m), order)" by (cases e) auto
  have en: "chat_enabled s e" using Cons.prems by (cases m) (auto simp: e)
  from chat_step_ok [OF Cons.prems(1) en] obtain t os where t: "chat_step s e = Inr (t, os)" "chat_inv t" by blast
  have "m \<noteq> ChatConnected \<Longrightarrow> c \<in> dom (sessions s)" using Cons.prems(2) by (simp add: e)
  from chat_step_sessions [OF t(1) [unfolded e] this]
  have "framed ChatConnected ChatDisconnected (dom (sessions t)) (map fst es)"
    using Cons.prems(2) by (auto simp: e split: if_splits)
  with Cons.IH [OF t(2)] Cons.prems(3) t(1) en show ?case by simp
qed

text \<open>
  C40: Whatever bytes the clients send, however their messages interleave and in whatever order its loops
  visit the sessions, the chat server does not panic, and every name in the room consists of ASCII
  letters and digits.
\<close>

theorem chat_never_panics:
  assumes "chat_clients (map fst es)" and "conforming chat_step map_order chat_init es"
  shows "\<exists>s os. chat_run es = Inr (s, os) \<and> (\<forall>c u. sessions s c = Some u \<longrightarrow> valid_name u)"
proof -
  have inv: "chat_inv chat_init" by (simp add: chat_inv_def chat_init_def)
  have "framed_peer ChatConnected ChatDisconnected False (messages_of c (map fst es))" for c
    using assms(1) chat_HandleClient_framed unfolding chat_clients_def by metis
  then have "framed ChatConnected ChatDisconnected {} (map fst es)" by (intro framed_peers) simp_all
  then have "conforming chat_step chat_enabled chat_init es"
    using framed_chat [OF inv _ assms(2)] by (simp add: chat_init_def)
  from chat_loop.run_ok [OF inv this] show ?thesis by (auto simp: chat_inv_def)
qed

definition ex_chat :: "((peer_id \<times> chat_msg) \<times> peer_id list) list" where
  "ex_chat = [((1, ChatConnected), []), ((1, ChatMessage ''bob''), [1]), ((2, ChatConnected), [1]),
     ((2, ChatMessage ''bob''), [2, 1])]"

lemma Itoa_1 [simp]: "Itoa 1 = ''1''" "Itoa (Suc 0) = ''1''"
  by (simp_all add: Itoa.simps) (code_simp)+

lemmas chat_eval = chat_init_def chat_connected_def chat_disconnected_def chat_message_def join_room_def
  set_name_def others_def List.map_filter_def IsConnected_def writeLine_def valid_name_def alnum_def
  Let_def LF_def CR_def

lemma ex_chat_clients: "chat_clients (map fst ex_chat)"
  unfolding chat_clients_def
proof
  fix c
  have "fst (chat_HandleClient (''bob'' @ [LF]) EOF) = [ChatConnected, ChatMessage ''bob'', ChatDisconnected]"
    by (simp add: chat_HandleClient_def lines_of.simps ReadDelim_def TrimRight_def LF_def CR_def)
  then have "messages_of c (map fst ex_chat)
      = take (if c = 1 \<or> c = 2 then 2 else 0) (fst (chat_HandleClient (''bob'' @ [LF]) EOF))"
    by (simp add: ex_chat_def)
  then show "\<exists>input err n. messages_of c (map fst ex_chat) = take n (fst (chat_HandleClient input err))" by blast
qed

theorem chat_never_panics_witness:
  "\<exists>s os. chat_run ex_chat = Inr (s, os) \<and> (\<forall>c u. sessions s c = Some u \<longrightarrow> valid_name u)"
  by (rule chat_never_panics [OF ex_chat_clients]) (simp add: ex_chat_def chat_eval)



lemma valid_last: "valid_name u \<Longrightarrow> u \<noteq> [] \<Longrightarrow> last u \<noteq> LF"
proof
  assume "valid_name u" "u \<noteq> []" "last u = LF"
  then have "alnum LF" by (metis last_in_set list_all_iff valid_name_def)
  then show False by (simp add: alnum_def LF_def Let_def)
qed

lemma last_join: "xs \<noteq> [] \<Longrightarrow> \<forall>x \<in> set xs. x \<noteq> [] \<and> last x \<noteq> LF \<Longrightarrow>
    join_strings sep xs \<noteq> [] \<and> last (join_strings sep xs) \<noteq> LF"
  by (induction sep xs rule: join_strings.induct) auto

text \<open>
  C22: A client that gives a valid name enters the room under this name, with a number behind it if
  the name was given before; every other client in the room is told so, once, and the client is
  sent the names of exactly these clients.
\<close>

theorem joining_is_announced:
  assumes "conforming chat_step chat_enabled chat_init es" and "chat_run es = Inr (s, os)"
    and "distinct order" and "set order = dom (sessions s)" and "sessions s c = Some []"
    and "v \<noteq> []" and "valid_name v"
  shows "\<exists>t name ds names. chat_message s c v order = Inr (t,
      map (\<lambda>d. Write d (''* '' @ name @ '' has entered the room'' @ [LF])) ds
      @ [Write c ((if names = [] then ''* The room is currently empty''
                   else ''* The room contains: '' @ join_strings '', '' names) @ [LF])])
    \<and> (name = v \<or> (\<exists>n. name = v @ Itoa n)) \<and> sessions t = (sessions s)(c \<mapsto> name)
    \<and> distinct ds \<and> set ds = {d. d \<noteq> c \<and> (\<exists>w. in_room s d w)} \<and> map Some names = map (sessions s) ds"
proof -
  have "chat_inv chat_init" by (simp add: chat_inv_def chat_init_def)
  from chat_loop.run_inv [OF this assms(1,2)] have inv: "chat_inv s" .
  obtain t name where t: "set_name s c v = (t, name)" by fastforce
  note st = set_name_spec [OF t]
  let ?o = "others t c order"
  have in_o: "(d, w) \<in> set ?o \<longleftrightarrow> sessions s d = Some w \<and> w \<noteq> [] \<and> d \<noteq> c" for d w
    using assms(4) by (auto simp: others_in st(1))
  have ok: "\<forall>x \<in> set (map snd ?o). x \<noteq> [] \<and> last x \<noteq> LF"
    using inv in_o valid_last by (auto simp: chat_inv_def)
  let ?line = "if map snd ?o = [] then ''* The room is currently empty''
      else ''* The room contains: '' @ join_strings '', '' (map snd ?o)"
  have "last ?line \<noteq> LF"
    using last_join [OF _ ok, of "'', ''"] by (auto simp: LF_def)
  then have w: "writeLine c (if length (map snd ?o) > 0 then ''* The room contains: '' @ join_strings '', '' (map snd ?o)
      else ''* The room is currently empty'') = Write c (?line @ [LF])"
    by (cases "map snd ?o") (simp_all add: writeLine_def LF_def)
  have e: "writeLine d (''* '' @ name @ '' has entered the room'') = Write d (''* '' @ name @ '' has entered the room'' @ [LF])" for d
    by (simp add: writeLine_def LF_def)
  have "chat_message s c v order = Inr (t,
      map (\<lambda>d. Write d (''* '' @ name @ '' has entered the room'' @ [LF])) (map fst ?o) @ [Write c (?line @ [LF])])"
    using assms(5-7) t unfolding chat_message_def join_room_def Let_def
    by (simp only: option.case if_True if_False simp_thms prod.case w e) (simp add: comp_def case_prod_beta)
  moreover have "d \<in> set (map fst ?o) \<longleftrightarrow> (\<exists>w. (d, w) \<in> set ?o)" for d by force
  then have "set (map fst ?o) = {d. d \<noteq> c \<and> (\<exists>w. in_room s d w)}"
    by (auto simp: in_o in_room_def)
  moreover have "map Some (map snd ?o) = map (sessions s) (map fst ?o)"
    using in_o by (auto simp: comp_def)
  ultimately show ?thesis using st others_distinct [OF assms(3), of t c] by blast
qed

theorem joining_is_announced_witness:
  "\<exists>t name ds names. chat_message \<lparr>sessions = [1 \<mapsto> ''bob'', 2 \<mapsto> []], usernameMaps = [''bob'' \<mapsto> 1]\<rparr> 2 ''bob'' [2, 1] = Inr (t,
      map (\<lambda>d. Write d (''* '' @ name @ '' has entered the room'' @ [LF])) ds
      @ [Write 2 ((if names = [] then ''* The room is currently empty''
                   else ''* The room contains: '' @ join_strings '', '' names) @ [LF])])
    \<and> (name = ''bob'' \<or> (\<exists>n. name = ''bob'' @ Itoa n))
    \<and> sessions t = (sessions \<lparr>sessions = [1 \<mapsto> ''bob'', 2 \<mapsto> []], usernameMaps = [''bob'' \<mapsto> 1]\<rparr>)(2 \<mapsto> name)
    \<and> distinct ds \<and> set ds = {d. d \<noteq> 2 \<and> (\<exists>w. in_room \<lparr>sessions = [1 \<mapsto> ''bob'', 2 \<mapsto> []], usernameMaps = [''bob'' \<mapsto> 1]\<rparr> d w)}
    \<and> map Some names = map (sessions \<lparr>sessions = [1 \<mapsto> ''bob'', 2 \<mapsto> []], usernameMaps = [''bob'' \<mapsto> 1]\<rparr>) ds"
proof -
  let ?s = "\<lparr>sessions = [1 \<mapsto> ''bob'', 2 \<mapsto> []], usernameMaps = [''bob'' \<mapsto> 1]\<rparr>"
  have e: "conforming chat_step chat_enabled chat_init (take 3 ex_chat)"
    by (simp add: ex_chat_def chat_eval)
  have "\<exists>os. chat_run (take 3 ex_chat) = Inr (?s, os)"
    by (simp add: ex_chat_def chat_eval)
  then obtain os where r: "chat_run (take 3 ex_chat) = Inr (?s, os)" by blast
  have d: "distinct [2, 1 :: peer_id]" "set [2, 1] = dom (sessions ?s)" by auto
  have v: "sessions ?s 2 = Some []" "''bob'' \<noteq> []" "valid_name ''bob''"
    by (simp_all add: valid_name_def alnum_def Let_def)
  show ?thesis by (rule joining_is_announced [OF e r d v])
qed

text \<open>
  Two clients in the room can have the same name: the number that is put behind a repeated
  name is a counter that goes up with each client that asks for the name, but also goes down when
  the client that has the plain name leaves.
\<close>

theorem names_collide:
  "\<exists>s os. chat_run (ex_chat @ [((1, ChatDisconnected), [2]), ((3, ChatConnected), [2]),
      ((3, ChatMessage ''bob''), [2, 3])]) = Inr (s, os)
    \<and> in_room s 2 ''bob1'' \<and> in_room s 3 ''bob1''"
  by (simp add: ex_chat_def chat_eval in_room_def)

text \<open>
  The goroutine of a client sends the server one message for each complete line, in order,
  without the line end, which may be a line feed with or without carriage returns before it; bytes
  after the last line feed are dropped.
\<close>

theorem lines_become_messages:
  assumes "\<forall>l \<in> set ls. LF \<notin> set l \<and> (l \<noteq> [] \<longrightarrow> last l \<noteq> CR)" and "LF \<notin> set rest"
  shows "fst (chat_HandleClient (concat (map (\<lambda>(l, n). l @ replicate n CR @ [LF]) (zip ls ns)) @ rest) err)
    = ChatConnected # map ChatMessage (map fst (zip ls ns)) @ [ChatDisconnected]"
proof -
  have "TrimRight (l @ replicate n CR @ [LF]) = l" if "l \<noteq> [] \<longrightarrow> last l \<noteq> CR \<and> last l \<noteq> LF" for l n
  proof -
    have "dropWhile (\<lambda>c. c = CR \<or> c = LF) (replicate n CR @ rev l) = rev l"
      using that by (induction n) (auto simp: dropWhile_eq_self_iff hd_rev)
    then show ?thesis by (simp add: TrimRight_def)
  qed
  then have t: "\<forall>x \<in> set (zip ls ns). TrimRight (fst x @ replicate (snd x) CR @ [LF]) = fst x"
    using assms(1) by (metis in_set_zipE last_in_set prod.collapse)
  have "lines_of LF (concat (map (\<lambda>l. l @ [LF]) (map (\<lambda>x. fst x @ replicate (snd x) CR) (zip ls ns))) @ rest)
      = map (\<lambda>l. l @ [LF]) (map (\<lambda>x. fst x @ replicate (snd x) CR) (zip ls ns))"
    using assms by (intro lines_of_concat) (auto simp: LF_def CR_def dest: set_zip_leftD)
  then have "lines_of LF (concat (map (\<lambda>(l, n). l @ replicate n CR @ [LF]) (zip ls ns)) @ rest)
      = map (\<lambda>x. fst x @ replicate (snd x) CR @ [LF]) (zip ls ns)"
    by (simp add: comp_def split_def)
  with t show ?thesis by (simp add: chat_HandleClient_def)
qed

theorem lines_become_messages_witness:
  "fst (chat_HandleClient (concat (map (\<lambda>(l, n). l @ replicate n CR @ [LF]) (zip [''bob'', [], ''hi''] [1, 0, 2])) @ ''lo'') NetClosed)
    = [ChatConnected, ChatMessage ''bob'', ChatMessage [], ChatMessage ''hi'', ChatDisconnected]"
proof -
  have "\<forall>l \<in> set [''bob'', [], ''hi'']. LF \<notin> set l \<and> (l \<noteq> [] \<longrightarrow> last l \<noteq> CR)" "LF \<notin> set ''lo''"
    by (simp_all add: LF_def CR_def)
  from lines_become_messages [OF this, of "[1, 0, 2]" NetClosed] show ?thesis by simp
qed

end
