(* ===== verification/Mob.thy ===== *)
theory Mob
  imports Go_Text Go_IO "HOL-Library.Sublist"
begin

text \<open>
  \<^verbatim>\<open>mob/mob.go\<close>: the proxy between a client and the chat server that replaces the Boguscoin
  addresses in both directions. \<open>HandleClient\<close> runs three goroutines: two readers, which put the
  lines of the client and of the server into one channel, and the loop that rewrites each line and
  writes it to the other side. They are the rules of the relation \<open>relay_step\<close>, which may
  interleave in any order.
\<close>

section \<open>Rewriting a line\<close>

definition BOGUS :: string where
  "BOGUS = ''7YWHMfk9JZe0LM0g1ZauHuiSxhI''"

text \<open>The regular expression \<open>^7[a-zA-Z0-9]{25,34}$\<close>.\<close>

fun is_address :: "string \<Rightarrow> bool" where
  "is_address [] = False"
| "is_address (c # s) = (c = CHR ''7'' \<and> 25 \<le> length s \<and> length s \<le> 34 \<and> list_all alnum s)"

definition rewrite_word :: "string \<Rightarrow> string" where
  "rewrite_word word = (if is_address word then BOGUS else word)"

definition rewrite :: "string \<Rightarrow> string" where
  "rewrite value = join_strings '' '' (map rewrite_word (FieldsFunc value))"

section \<open>The state of a connection\<close>

datatype messageSource = FROM_CLIENT | FROM_PROXY

text \<open>
  \<open>client_in\<close> and \<open>proxy_in\<close> are the lines the two readers have still to read, \<open>client_hold\<close> and
  \<open>proxy_hold\<close> the messages they have to send, \<open>chan\<close> is the channel of capacity 32, and \<open>main_hold\<close> the
  message that the loop has taken from it and is writing. \<open>to_proxy\<close> and \<open>to_client\<close> are the lines that
  have been written and flushed, \<open>proxy_err\<close> and \<open>client_err\<close> say that a writer has failed, and
  \<open>proxy_part\<close> and \<open>client_part\<close> are what the failed write has still written of its line. \<open>proxy_deaf\<close> and
  \<open>client_deaf\<close> say that the other end has stopped reading for good and its buffers are full, so that a
  write does not return. \<open>cancelled\<close> is \<open>ctx\<close>, and the last flags say which goroutine has returned.
\<close>

record relay =
  client_in :: "string list"
  proxy_in :: "string list"
  client_hold :: "string option"
  proxy_hold :: "string option"
  chan :: "(messageSource \<times> string) list"
  main_hold :: "(messageSource \<times> string) option"
  to_proxy :: "string list"
  to_client :: "string list"
  proxy_err :: bool
  client_err :: bool
  proxy_part :: string
  client_part :: string
  proxy_deaf :: bool
  client_deaf :: bool
  cancelled :: bool
  client_done :: bool
  proxy_done :: bool
  main_done :: bool

definition mob_start :: "string \<Rightarrow> string \<Rightarrow> relay" where
  "mob_start from_client from_proxy =
     \<lparr>client_in = lines_of LF from_client, proxy_in = lines_of LF from_proxy,
      client_hold = None, proxy_hold = None, chan = [], main_hold = None,
      to_proxy = [], to_client = [], proxy_err = False, client_err = False, proxy_part = [], client_part = [],
      proxy_deaf = False, client_deaf = False, cancelled = False,
      client_done = False, proxy_done = False, main_done = False\<rparr>"

text \<open>
  The address of the proxied server, from the arguments of the constructor, and \<open>HandleClient\<close> up to
  the start of its goroutines: \<open>dial\<close> is the error of \<open>net.Dial\<close>, if any.
\<close>

definition proxyAddress :: "string list \<Rightarrow> string" where
  "proxyAddress args = (if length args = 0 then ''chat.protohackers.com:16963'' else hd args)"

definition mob_HandleClient ::
  "(string \<Rightarrow> go_error option) \<Rightarrow> string list \<Rightarrow> string \<Rightarrow> string \<Rightarrow> go_error + relay" where
  "mob_HandleClient dial args from_client from_proxy =
     (case dial (proxyAddress args) of
        Some err \<Rightarrow> Inl (ErrJoin err (ErrText ''failted to connect to the proxy server''))
      | None \<Rightarrow> Inr (mob_start from_client from_proxy))"

text \<open>What the main loop writes for a message: its rewritten text and a line feed.\<close>

definition out_line :: "string \<Rightarrow> string" where
  "out_line value = rewrite value @ [LF]"

section \<open>The steps\<close>

text \<open>
  A reader looks at the context, reads a line (\<open>read\<close>), and blocks until the channel has room
  (\<open>send\<close>); a read that fails, at the end of the input or before it, cancels the context (\<open>end\<close>).
  The loop looks at the context and takes a message (\<open>main_takes\<close>), which it then writes. It
  writes through a \<open>bufio.Writer\<close>, which keeps its error: the error of \<open>Flush\<close> is not
  looked at (\<open>fails\<close>) and is returned for the next message (\<open>error\<close>); only a line that does not
  fit in the buffer of 4096 bytes is flushed by \<open>WriteString\<close> or \<open>WriteRune\<close> itself, and its
  error returned at once (\<open>breaks\<close>). A write to an end that has stopped reading does not return: there is
  no deadline, and the loop does not look at the context before it has written.
\<close>

inductive relay_step :: "relay \<Rightarrow> relay \<Rightarrow> bool" where
  read_client:
    "\<lbrakk>\<not> client_done s; client_hold s = None; client_in s = l # rest\<rbrakk> \<Longrightarrow>
     relay_step s (s\<lparr>client_in := rest, client_hold := Some (TrimSpace l)\<rparr>)"
| send_client:
    "\<lbrakk>\<not> client_done s; client_hold s = Some v; length (chan s) < 32\<rbrakk> \<Longrightarrow>
     relay_step s (s\<lparr>client_hold := None, chan := chan s @ [(FROM_CLIENT, v)]\<rparr>)"
| client_end:
    "\<lbrakk>\<not> client_done s; client_hold s = None\<rbrakk> \<Longrightarrow>
     relay_step s (s\<lparr>client_done := True, cancelled := True\<rparr>)"
| client_stops:
    "\<lbrakk>\<not> client_done s; client_hold s = None; cancelled s\<rbrakk> \<Longrightarrow> relay_step s (s\<lparr>client_done := True\<rparr>)"
| read_proxy:
    "\<lbrakk>\<not> proxy_done s; proxy_hold s = None; proxy_in s = l # rest\<rbrakk> \<Longrightarrow>
     relay_step s (s\<lparr>proxy_in := rest, proxy_hold := Some (TrimSpace l)\<rparr>)"
| send_proxy:
    "\<lbrakk>\<not> proxy_done s; proxy_hold s = Some v; length (chan s) < 32\<rbrakk> \<Longrightarrow>
     relay_step s (s\<lparr>proxy_hold := None, chan := chan s @ [(FROM_PROXY, v)]\<rparr>)"
| proxy_end:
    "\<lbrakk>\<not> proxy_done s; proxy_hold s = None\<rbrakk> \<Longrightarrow>
     relay_step s (s\<lparr>proxy_done := True, cancelled := True\<rparr>)"
| proxy_stops:
    "\<lbrakk>\<not> proxy_done s; proxy_hold s = None; cancelled s\<rbrakk> \<Longrightarrow> relay_step s (s\<lparr>proxy_done := True\<rparr>)"
| main_stops:
    "\<lbrakk>\<not> main_done s; main_hold s = None; cancelled s\<rbrakk> \<Longrightarrow> relay_step s (s\<lparr>main_done := True\<rparr>)"
| main_takes:
    "\<lbrakk>\<not> main_done s; main_hold s = None; chan s = m # rest\<rbrakk> \<Longrightarrow>
     relay_step s (s\<lparr>chan := rest, main_hold := Some m\<rparr>)"
| forward_client:
    "\<lbrakk>\<not> main_done s; main_hold s = Some (FROM_CLIENT, v); \<not> proxy_err s; \<not> proxy_deaf s\<rbrakk> \<Longrightarrow>
     relay_step s (s\<lparr>main_hold := None, to_proxy := to_proxy s @ [out_line v]\<rparr>)"
| forward_client_fails:
    "\<lbrakk>\<not> main_done s; main_hold s = Some (FROM_CLIENT, v); \<not> proxy_err s; \<not> proxy_deaf s\<rbrakk> \<Longrightarrow>
     relay_step s (s\<lparr>main_hold := None, proxy_err := True, proxy_part := take n (out_line v)\<rparr>)"
| forward_client_breaks:
    "\<lbrakk>\<not> main_done s; main_hold s = Some (FROM_CLIENT, v); \<not> proxy_err s; \<not> proxy_deaf s;
      4096 \<le> length (rewrite v)\<rbrakk> \<Longrightarrow>
     relay_step s (s\<lparr>main_hold := None, proxy_err := True, proxy_part := take n (out_line v),
       main_done := True, cancelled := True\<rparr>)"
| forward_client_error:
    "\<lbrakk>\<not> main_done s; main_hold s = Some (FROM_CLIENT, v); proxy_err s\<rbrakk> \<Longrightarrow>
     relay_step s (s\<lparr>main_hold := None, main_done := True, cancelled := True\<rparr>)"
| forward_proxy:
    "\<lbrakk>\<not> main_done s; main_hold s = Some (FROM_PROXY, v); \<not> client_err s; \<not> client_deaf s\<rbrakk> \<Longrightarrow>
     relay_step s (s\<lparr>main_hold := None, to_client := to_client s @ [out_line v]\<rparr>)"
| forward_proxy_fails:
    "\<lbrakk>\<not> main_done s; main_hold s = Some (FROM_PROXY, v); \<not> client_err s; \<not> client_deaf s\<rbrakk> \<Longrightarrow>
     relay_step s (s\<lparr>main_hold := None, client_err := True, client_part := take n (out_line v)\<rparr>)"
| forward_proxy_breaks:
    "\<lbrakk>\<not> main_done s; main_hold s = Some (FROM_PROXY, v); \<not> client_err s; \<not> client_deaf s;
      4096 \<le> length (rewrite v)\<rbrakk> \<Longrightarrow>
     relay_step s (s\<lparr>main_hold := None, client_err := True, client_part := take n (out_line v),
       main_done := True, cancelled := True\<rparr>)"
| forward_proxy_error:
    "\<lbrakk>\<not> main_done s; main_hold s = Some (FROM_PROXY, v); client_err s\<rbrakk> \<Longrightarrow>
     relay_step s (s\<lparr>main_hold := None, main_done := True, cancelled := True\<rparr>)"

text \<open>
  What the two ends may do: stop reading, at any time. An end that reads on later, or goes away, has only
  made a write slow or made it fail.
\<close>

inductive peer_step :: "relay \<Rightarrow> relay \<Rightarrow> bool" where
  proxy_stops_reading: "\<not> proxy_deaf s \<Longrightarrow> peer_step s (s\<lparr>proxy_deaf := True\<rparr>)"
| client_stops_reading: "\<not> client_deaf s \<Longrightarrow> peer_step s (s\<lparr>client_deaf := True\<rparr>)"

inductive reachable :: "relay \<Rightarrow> relay \<Rightarrow> bool" for s0 where
  start: "reachable s0 s0"
| step: "reachable s0 s \<Longrightarrow> relay_step s t \<Longrightarrow> reachable s0 t"
| peer: "reachable s0 s \<Longrightarrow> peer_step s t \<Longrightarrow> reachable s0 t"

inductive_cases relay_stepE: "relay_step s t"

section \<open>Rewriting\<close>

lemma fields_rewrite: "FieldsFunc (rewrite v) = map rewrite_word (FieldsFunc v)"
proof -
  have "field BOGUS"
    by (simp add: field_def BOGUS_def runes.simps Let_def code_def IsSpace_def)
  then have "\<forall>w \<in> set (map rewrite_word (FieldsFunc v)). field w"
    using FieldsFunc_fields by (auto simp: rewrite_word_def)
  then show ?thesis by (simp add: rewrite_def FieldsFunc_join)
qed

lemma BOGUS_is_address: "is_address BOGUS"
  by (simp add: BOGUS_def alnum_def Let_def)

section \<open>The invariant of the relay\<close>

definition hold_list :: "'a option \<Rightarrow> 'a list" where
  "hold_list h = (case h of None \<Rightarrow> [] | Some v \<Rightarrow> [v])"

lemma hold_list_simps [simp]: "hold_list None = []" "hold_list (Some v) = [v]"
  by (simp_all add: hold_list_def)

text \<open>The lines of one side that have been sent to the loop and not been written.\<close>

definition pending :: "messageSource \<Rightarrow> relay \<Rightarrow> string list" where
  "pending src s = map snd (filter (\<lambda>m. fst m = src) (hold_list (main_hold s) @ chan s))"

abbreviation relayed :: "string \<Rightarrow> string" where
  "relayed l \<equiv> out_line (TrimSpace l)"

text \<open>
  One direction: of the lines \<open>ls\<close>, some have been written, some are on their way (unless the
  writer has failed), and the others are still to be read. A failed write has written a part of the
  first line that has not been written.
\<close>

definition direction :: "string list \<Rightarrow> string list \<Rightarrow> string list \<Rightarrow> bool \<Rightarrow> string \<Rightarrow> string list \<Rightarrow> bool" where
  "direction ls inp out failed part way \<longleftrightarrow>
     (\<exists>sent lost. ls = sent @ lost @ inp \<and> out = map relayed sent
        \<and> prefix part (concat (map relayed (lost @ inp)))
        \<and> (\<not> failed \<longrightarrow> map TrimSpace lost = way \<and> part = []))"

lemma direction_read:
  "direction ls (x # inp) out failed part way \<Longrightarrow> direction ls inp out failed part (way @ [TrimSpace x])"
  unfolding direction_def
proof (elim exE conjE)
  fix sent lost
  assume "ls = sent @ lost @ x # inp" "out = map relayed sent"
    "prefix part (concat (map relayed (lost @ x # inp)))"
    "\<not> failed \<longrightarrow> map TrimSpace lost = way \<and> part = []"
  then show "\<exists>sent lost. ls = sent @ lost @ inp \<and> out = map relayed sent
      \<and> prefix part (concat (map relayed (lost @ inp)))
      \<and> (\<not> failed \<longrightarrow> map TrimSpace lost = way @ [TrimSpace x] \<and> part = [])"
    by (intro exI [of _ sent] exI [of _ "lost @ [x]"]) simp
qed

lemma direction_first:
  assumes "direction ls inp out False part (v # way)"
  obtains sent l lost where "ls = sent @ (l # lost) @ inp" "out = map relayed sent" "TrimSpace l = v"
    "map TrimSpace lost = way" "part = []"
proof -
  from assms obtain sent lost where ls: "ls = sent @ lost @ inp" "out = map relayed sent" "part = []"
    and "map TrimSpace lost = v # way" by (auto simp: direction_def)
  then obtain l lost' where "lost = l # lost'" "TrimSpace l = v" "map TrimSpace lost' = way" by auto
  with ls that show thesis by blast
qed

lemma direction_forward:
  assumes "direction ls inp out False part (v # way)"
  shows "direction ls inp (out @ [out_line v]) False part way"
  using assms
proof (rule direction_first)
  fix sent l lost
  assume "ls = sent @ (l # lost) @ inp" "out = map relayed sent" "TrimSpace l = v"
    "map TrimSpace lost = way" "part = []"
  then show ?thesis unfolding direction_def by (intro exI [of _ "sent @ [l]"] exI [of _ lost]) simp
qed

lemma direction_fail:
  assumes "direction ls inp out False part (v # way)"
  shows "direction ls inp out True (take n (out_line v)) way'"
  using assms
proof (rule direction_first)
  fix sent l lost
  assume "ls = sent @ (l # lost) @ inp" "out = map relayed sent" "TrimSpace l = v"
    "map TrimSpace lost = way" "part = []"
  moreover have "prefix (take n (out_line v)) (out_line v @ xs)" for xs
    by (meson prefix_prefix take_is_prefix)
  ultimately show ?thesis unfolding direction_def by (intro exI [of _ sent] exI [of _ "l # lost"]) simp
qed

lemma direction_failed: "direction ls inp out True part way \<Longrightarrow> direction ls inp out True part way'"
  by (simp add: direction_def)

lemma direction_prefix:
  "direction ls inp out failed part way \<Longrightarrow> \<exists>n. out = map relayed (take n ls)"
  unfolding direction_def by (metis append_eq_conv_conj)

lemma direction_bytes:
  "direction ls inp out failed part way \<Longrightarrow> prefix (concat out @ part) (concat (map relayed ls))"
  by (auto simp: direction_def)

lemma direction_complete:
  "direction ls inp out failed part way \<Longrightarrow> inp = [] \<Longrightarrow> \<not> failed \<Longrightarrow> way = [] \<Longrightarrow> out = map relayed ls"
  by (simp add: direction_def)

definition relay_inv :: "string list \<Rightarrow> string list \<Rightarrow> relay \<Rightarrow> bool" where
  "relay_inv cs ps s \<longleftrightarrow>
     direction cs (client_in s) (to_proxy s) (proxy_err s) (proxy_part s)
       (pending FROM_CLIENT s @ hold_list (client_hold s))
   \<and> direction ps (proxy_in s) (to_client s) (client_err s) (client_part s)
       (pending FROM_PROXY s @ hold_list (proxy_hold s))
   \<and> (client_done s \<or> proxy_done s \<or> main_done s \<longrightarrow> cancelled s)"

lemma relay_inv_start: "relay_inv (lines_of LF a) (lines_of LF b) (mob_start a b)"
  by (simp add: relay_inv_def mob_start_def direction_def pending_def)

lemma pending_read [simp]:
  "pending src (s\<lparr>client_in := ls, client_hold := h\<rparr>) = pending src s"
  "pending src (s\<lparr>proxy_in := ls, proxy_hold := h\<rparr>) = pending src s"
  by (simp_all add: pending_def)

lemma relay_inv_step: "relay_step s t \<Longrightarrow> relay_inv cs ps s \<Longrightarrow> relay_inv cs ps t"
proof (induction rule: relay_step.induct)
  case (read_client s l rest)
  then show ?case
    by (auto simp: relay_inv_def dest: direction_read)
next
  case (read_proxy s l rest)
  then show ?case
    by (auto simp: relay_inv_def dest: direction_read)
next
  case (forward_client s v)
  then show ?case
    using direction_forward [of cs "client_in s" "to_proxy s" "proxy_part s" v]
    by (auto simp: relay_inv_def pending_def)
next
  case (forward_proxy s v)
  then show ?case
    using direction_forward [of ps "proxy_in s" "to_client s" "client_part s" v]
    by (auto simp: relay_inv_def pending_def)
next
  case (main_takes s m rest)
  then show ?case by (cases m) (simp add: relay_inv_def pending_def)
qed (auto simp: relay_inv_def pending_def intro: direction_fail direction_failed)

lemma relay_inv_peer: "peer_step s t \<Longrightarrow> relay_inv cs ps s \<Longrightarrow> relay_inv cs ps t"
  by (induction rule: peer_step.induct) (simp_all add: relay_inv_def pending_def)

lemma reachable_inv: "reachable (mob_start a b) s \<Longrightarrow> relay_inv (lines_of LF a) (lines_of LF b) s"
  by (induction rule: reachable.induct) (auto intro: relay_inv_start relay_inv_step relay_inv_peer)

text \<open>A bound on the number of steps that are left.\<close>

definition relay_measure :: "relay \<Rightarrow> nat" where
  "relay_measure s = 4 * (length (client_in s) + length (proxy_in s))
     + 3 * (length (hold_list (client_hold s)) + length (hold_list (proxy_hold s))) + 2 * length (chan s)
     + length (hold_list (main_hold s)) + of_bool (\<not> client_done s) + of_bool (\<not> proxy_done s)
     + of_bool (\<not> main_done s) + of_bool (\<not> proxy_deaf s) + of_bool (\<not> client_deaf s)"

lemma relay_step_measure: "relay_step s t \<Longrightarrow> relay_measure t < relay_measure s"
  by (induction rule: relay_step.induct) (auto simp: relay_measure_def)

lemma peer_step_measure: "peer_step s t \<Longrightarrow> relay_measure t < relay_measure s"
  by (induction rule: peer_step.induct) (auto simp: relay_measure_def)

text \<open>The main loop is in the middle of a write that does not return.\<close>

definition main_blocked :: "relay \<Rightarrow> bool" where
  "main_blocked s \<longleftrightarrow> (\<exists>v. main_hold s = Some (FROM_CLIENT, v) \<and> proxy_deaf s)
     \<or> (\<exists>v. main_hold s = Some (FROM_PROXY, v) \<and> client_deaf s)"

lemma main_goes_on:
  assumes "main_hold s \<noteq> None" and "\<not> main_done s" and stuck: "\<And>t. \<not> relay_step s t"
  shows "main_blocked s"
proof -
  from assms(1) obtain src v where h: "main_hold s = Some (src, v)" by auto
  show ?thesis
  proof (cases src)
    case FROM_CLIENT
    with h assms(2) stuck forward_client [of s v] forward_client_error [of s v] show ?thesis
      by (auto simp: main_blocked_def)
  next
    case FROM_PROXY
    with h assms(2) stuck forward_proxy [of s v] forward_proxy_error [of s v] show ?thesis
      by (auto simp: main_blocked_def)
  qed
qed

lemma stuck_main:
  assumes "relay_inv cs ps s" and stuck: "\<And>t. \<not> relay_step s t"
  shows "main_done s \<or> main_blocked s"
proof (rule ccontr)
  assume m: "\<not> (main_done s \<or> main_blocked s)"
  with main_goes_on [of s] stuck have h: "main_hold s = None" by blast
  with m have c: "\<not> cancelled s" using stuck main_stops by blast
  then have d: "\<not> client_done s" using assms(1) by (auto simp: relay_inv_def)
  have e: "chan s = []" using m h stuck by (cases "chan s") (blast intro: main_takes)+
  show False
  proof (cases "client_hold s")
    case None
    with d stuck show False by (cases "client_in s") (blast intro: read_client client_end)+
  next
    case (Some v)
    moreover have "length (chan s) < 32" using e by simp
    ultimately show False using d stuck send_client by blast
  qed
qed

lemma stuck_reader:
  assumes "relay_inv cs ps s" and stuck: "\<And>t. \<not> relay_step s t"
  shows "client_done s \<or> (client_hold s \<noteq> None \<and> 32 \<le> length (chan s))"
    and "proxy_done s \<or> (proxy_hold s \<noteq> None \<and> 32 \<le> length (chan s))"
proof -
  show "client_done s \<or> (client_hold s \<noteq> None \<and> 32 \<le> length (chan s))"
    using stuck by (cases "client_hold s"; cases "client_in s")
      (use stuck in \<open>meson client_end read_client send_client not_less option.distinct(1)\<close>)+
  show "proxy_done s \<or> (proxy_hold s \<noteq> None \<and> 32 \<le> length (chan s))"
    using stuck by (cases "proxy_hold s"; cases "proxy_in s")
      (use stuck in \<open>meson proxy_end read_proxy send_proxy not_less option.distinct(1)\<close>)+
qed

end
