(* ===== verification/Mob_Props.thy ===== *)
theory Mob_Props
  imports Mob
begin

text \<open>
  The properties of the Boguscoin proxy: what it does to a line, that it keeps the order of the
  lines in both directions, how it ends, and what it can leave behind.
\<close>

section \<open>Rewriting\<close>

lemma alnum_chars: "alnum c \<longleftrightarrow> c \<in> set ''abcdefghijklmnopqrstuvwxyzABCDEFGHIJKLMNOPQRSTUVWXYZ0123456789''"
  by (cases c) (auto simp: alnum_def Let_def)

lemma is_address_iff:
  "is_address w \<longleftrightarrow> (\<exists>r. w = CHR ''7'' # r \<and> 25 \<le> length r \<and> length r \<le> 34
     \<and> set r \<subseteq> set ''abcdefghijklmnopqrstuvwxyzABCDEFGHIJKLMNOPQRSTUVWXYZ0123456789'')"
  by (cases w) (auto simp: alnum_chars list_all_iff subset_iff simp del: set_simps)

text \<open>
  C32: the words of a rewritten line, which are separated by single blanks, are the words of the line,
  but the fixed address for each Boguscoin address: a word of a 7 and 25 to 34 more letters and digits.
  Rewriting a second time changes nothing.
\<close>

theorem only_addresses_are_rewritten:
  "list_all2 (\<lambda>w w'. w' =
       (if \<exists>r. w = CHR ''7'' # r \<and> 25 \<le> length r \<and> length r \<le> 34
            \<and> set r \<subseteq> set ''abcdefghijklmnopqrstuvwxyzABCDEFGHIJKLMNOPQRSTUVWXYZ0123456789''
        then ''7YWHMfk9JZe0LM0g1ZauHuiSxhI'' else w))
     (FieldsFunc v) (FieldsFunc (rewrite v))
   \<and> rewrite v = join_strings '' '' (FieldsFunc (rewrite v))
   \<and> rewrite (rewrite v) = rewrite v"
proof -
  have w: "rewrite_word (rewrite_word w) = rewrite_word w" for w
    by (simp add: rewrite_word_def BOGUS_is_address)
  have "list_all2 (\<lambda>w w'. w' = (if is_address w then BOGUS else w)) (FieldsFunc v) (map rewrite_word (FieldsFunc v))"
    by (simp add: list_all2_map2 list_all2_same rewrite_word_def)
  then show ?thesis
    unfolding is_address_iff [symmetric] BOGUS_def [symmetric]
    by (simp add: fields_rewrite rewrite_def [of "rewrite v"] w comp_def) (simp add: rewrite_def)
qed

section \<open>Order\<close>

text \<open>
  C9: at any moment of any interleaving of the three goroutines, the lines that the proxy has
  written to the server are the rewritten lines of a prefix of what the client sent, in its order,
  each once, and likewise from the server to the client; when no write has failed and nothing is
  unread or under way, all lines have been written. When a write has failed, what it has still written is
  the beginning of what comes next.
\<close>

theorem lines_are_relayed_in_order:
  assumes "reachable (mob_start a b) s"
  shows "(\<exists>n. to_proxy s = map (\<lambda>l. out_line (TrimSpace l)) (take n (lines_of LF a)))
    \<and> (\<exists>n. to_client s = map (\<lambda>l. out_line (TrimSpace l)) (take n (lines_of LF b)))
    \<and> (\<not> proxy_err s \<and> client_in s = [] \<and> client_hold s = None \<and> pending FROM_CLIENT s = []
         \<longrightarrow> to_proxy s = map (\<lambda>l. out_line (TrimSpace l)) (lines_of LF a))
    \<and> (\<not> client_err s \<and> proxy_in s = [] \<and> proxy_hold s = None \<and> pending FROM_PROXY s = []
         \<longrightarrow> to_client s = map (\<lambda>l. out_line (TrimSpace l)) (lines_of LF b))
    \<and> prefix (concat (to_proxy s) @ proxy_part s) (concat (map (\<lambda>l. out_line (TrimSpace l)) (lines_of LF a)))
    \<and> prefix (concat (to_client s) @ client_part s) (concat (map (\<lambda>l. out_line (TrimSpace l)) (lines_of LF b)))"
proof -
  have inv: "relay_inv (lines_of LF a) (lines_of LF b) s" using assms by (rule reachable_inv)
  have "direction (lines_of LF a) (client_in s) (to_proxy s) (proxy_err s) (proxy_part s)
      (pending FROM_CLIENT s @ hold_list (client_hold s))"
    and "direction (lines_of LF b) (proxy_in s) (to_client s) (client_err s) (client_part s)
      (pending FROM_PROXY s @ hold_list (proxy_hold s))"
    using inv by (simp_all add: relay_inv_def)
  from direction_prefix [OF this(1)] direction_prefix [OF this(2)]
    direction_complete [OF this(1)] direction_complete [OF this(2)]
    direction_bytes [OF this(1)] direction_bytes [OF this(2)]
  show ?thesis by simp
qed

lemmas mob_eval = lines_of.simps ReadDelim_def runes.simps TrimSpace_def FieldsFunc_def out_line_def rewrite_def
  rewrite_word_def IsSpace_def code_def LF_def CR_def Let_def

text \<open>A concrete run: one line from the client is read, sent to the loop, rewritten and written.\<close>

definition greeting :: string where
  "greeting = '' hi  you'' @ [CR, LF]"

definition one_line :: relay where
  "one_line = \<lparr>client_in = [], proxy_in = [], client_hold = None, proxy_hold = None, chan = [], main_hold = None,
      to_proxy = [''hi you'' @ [LF]], to_client = [], proxy_err = False, client_err = False, proxy_part = [],
      client_part = [], proxy_deaf = False, client_deaf = False,
      cancelled = False, client_done = False, proxy_done = False, main_done = False\<rparr>"

lemma one_line_reachable: "reachable (mob_start greeting []) one_line"
proof -
  let ?s0 = "mob_start greeting []"
  let ?s1 = "?s0\<lparr>client_in := [], client_hold := Some (TrimSpace greeting)\<rparr>"
  let ?s2 = "?s1\<lparr>client_hold := None, chan := chan ?s1 @ [(FROM_CLIENT, ''hi  you'')]\<rparr>"
  have l: "lines_of LF greeting = [greeting]"
    by (simp add: greeting_def lines_of.simps ReadDelim_def LF_def CR_def)
  have t: "TrimSpace greeting = ''hi  you''" by (simp add: greeting_def mob_eval)
  have o: "out_line ''hi  you'' = ''hi you'' @ [LF]" by (simp add: mob_eval)
  let ?s2' = "?s2\<lparr>chan := [], main_hold := Some (FROM_CLIENT, ''hi  you'')\<rparr>"
  let ?s3 = "?s2'\<lparr>main_hold := None, to_proxy := to_proxy ?s2' @ [out_line ''hi  you'']\<rparr>"
  have "relay_step ?s0 ?s1" by (rule read_client) (simp_all add: mob_start_def l)
  with reachable.start have "reachable ?s0 ?s1" by (rule reachable.step)
  moreover have "relay_step ?s1 ?s2" by (rule send_client) (simp_all add: mob_start_def t)
  ultimately have "reachable ?s0 ?s2" by (rule reachable.step)
  moreover have "relay_step ?s2 ?s2'" by (rule main_takes) (simp_all add: mob_start_def)
  ultimately have "reachable ?s0 ?s2'" by (rule reachable.step)
  moreover have "relay_step ?s2' ?s3" by (rule forward_client) (simp_all add: mob_start_def)
  ultimately have "reachable ?s0 ?s3" by (rule reachable.step)
  moreover have "?s3 = one_line" by (simp add: mob_start_def one_line_def o)
  ultimately show ?thesis by simp
qed

theorem lines_are_relayed_in_order_witness:
  "to_proxy one_line = map (\<lambda>l. out_line (TrimSpace l)) (lines_of LF greeting)"
  using lines_are_relayed_in_order [OF one_line_reachable] by (simp add: one_line_def pending_def)

section \<open>The end of a connection\<close>

text \<open>
  C19: for input that ends, every run of the three goroutines is finite, whatever the two ends do, and it
  comes to a halt only in one of two ways: the main loop has returned, or it is in the middle of writing a
  line to an end that has stopped reading. Then each reader has returned as well, or it waits for
  room in a channel that nobody reads any more.
\<close>

theorem the_relay_ends:
  "(\<nexists>f. f 0 = mob_start a b \<and> (\<forall>i. relay_step (f i) (f (Suc i)) \<or> peer_step (f i) (f (Suc i))))
    \<and> (reachable (mob_start a b) s \<and> (\<nexists>t. relay_step s t) \<longrightarrow>
         (main_done s \<or> (\<exists>v. main_hold s = Some (FROM_CLIENT, v) \<and> proxy_deaf s)
            \<or> (\<exists>v. main_hold s = Some (FROM_PROXY, v) \<and> client_deaf s))
       \<and> (client_done s \<or> (client_hold s \<noteq> None \<and> 32 \<le> length (chan s)))
       \<and> (proxy_done s \<or> (proxy_hold s \<noteq> None \<and> 32 \<le> length (chan s))))"
proof (intro conjI impI notI)
  assume "\<exists>f. f 0 = mob_start a b \<and> (\<forall>i. relay_step (f i) (f (Suc i)) \<or> peer_step (f i) (f (Suc i)))"
  then obtain f where "\<And>i. relay_step (f i) (f (Suc i)) \<or> peer_step (f i) (f (Suc i))" by blast
  then have "\<And>i. (f (Suc i), f i) \<in> measure relay_measure"
    by (simp add: in_measure) (blast intro: relay_step_measure peer_step_measure)
  then show False using wf_iff_no_infinite_down_chain [of "measure relay_measure"] by blast
next
  assume s: "reachable (mob_start a b) s \<and> (\<nexists>t. relay_step s t)"
  then have i: "relay_inv (lines_of LF a) (lines_of LF b) s" by (simp add: reachable_inv)
  show "main_done s \<or> (\<exists>v. main_hold s = Some (FROM_CLIENT, v) \<and> proxy_deaf s)
      \<or> (\<exists>v. main_hold s = Some (FROM_PROXY, v) \<and> client_deaf s)"
    using stuck_main [OF i] s by (auto simp: main_blocked_def)
  show "client_done s \<or> (client_hold s \<noteq> None \<and> 32 \<le> length (chan s))"
    using stuck_reader(1) [OF i] s by blast
  show "proxy_done s \<or> (proxy_hold s \<noteq> None \<and> 32 \<le> length (chan s))"
    using stuck_reader(2) [OF i] s by blast
qed

text \<open>A reader can be left behind: a client that sends 33 lines and a server that goes away.\<close>

definition flood :: "nat \<Rightarrow> relay" where
  "flood n = \<lparr>client_in = replicate (33 - n) [LF], proxy_in = [], client_hold = None, proxy_hold = None,
      chan = replicate n (FROM_CLIENT, []), main_hold = None, to_proxy = [], to_client = [], proxy_err = False,
      client_err = False, proxy_part = [], client_part = [], proxy_deaf = False, client_deaf = False, cancelled = False, client_done = False, proxy_done = False, main_done = False\<rparr>"

definition left_behind :: relay where
  "left_behind = \<lparr>client_in = [], proxy_in = [], client_hold = Some [], proxy_hold = None,
      chan = replicate 32 (FROM_CLIENT, []), main_hold = None, to_proxy = [], to_client = [], proxy_err = False,
      client_err = False, proxy_part = [], client_part = [], proxy_deaf = False, client_deaf = False, cancelled = True, client_done = False, proxy_done = True, main_done = True\<rparr>"

lemma lines_of_replicate: "lines_of LF (replicate n LF) = replicate n [LF]"
  by (induction n) (use lines_of_line [of LF "[]"] in simp_all)

lemma flood_0: "mob_start (replicate 33 LF) [] = flood 0"
  by (simp add: mob_start_def flood_def lines_of_replicate)

lemma flood_reachable: "n \<le> 32 \<Longrightarrow> reachable (flood 0) (flood n)"
proof (induction n)
  case 0
  show ?case by (rule reachable.start)
next
  case (Suc n)
  let ?s1 = "(flood n)\<lparr>client_in := replicate (32 - n) [LF], client_hold := Some (TrimSpace [LF])\<rparr>"
  have "33 - n = Suc (32 - n)" using Suc.prems by simp
  then have "relay_step (flood n) ?s1"
    by (intro read_client [where l = "[LF]"]) (simp_all add: flood_def)
  moreover have t: "TrimSpace [LF] = []" by (simp add: mob_eval)
  have "relay_step ?s1 (?s1\<lparr>client_hold := None, chan := chan ?s1 @ [(FROM_CLIENT, [])]\<rparr>)"
    using Suc.prems by (intro send_client) (simp_all add: flood_def t)
  moreover have "?s1\<lparr>client_hold := None, chan := chan ?s1 @ [(FROM_CLIENT, [])]\<rparr> = flood (Suc n)"
    by (simp add: flood_def replicate_append_same)
  ultimately show ?case using Suc by (metis Suc_leD reachable.step)
qed

lemma left_behind_reachable: "reachable (flood 0) left_behind"
proof -
  let ?s1 = "(flood 32)\<lparr>client_in := [], client_hold := Some (TrimSpace [LF])\<rparr>"
  let ?s2 = "?s1\<lparr>proxy_done := True, cancelled := True\<rparr>"
  have t: "TrimSpace [LF] = []" by (simp add: mob_eval)
  have "relay_step (flood 32) ?s1"
    by (intro read_client [where l = "[LF]"]) (simp_all add: flood_def)
  with flood_reachable [of 32] have "reachable (flood 0) ?s1" by (auto intro: reachable.step)
  moreover have "relay_step ?s1 ?s2" by (intro proxy_end) (simp_all add: flood_def)
  ultimately have "reachable (flood 0) ?s2" by (rule reachable.step)
  moreover have "relay_step ?s2 (?s2\<lparr>main_done := True\<rparr>)" by (intro main_stops) (simp_all add: flood_def)
  ultimately have "reachable (flood 0) (?s2\<lparr>main_done := True\<rparr>)" by (rule reachable.step)
  moreover have "?s2\<lparr>main_done := True\<rparr> = left_behind" by (simp add: flood_def left_behind_def t)
  ultimately show ?thesis by simp
qed

lemma left_behind_stuck: "\<not> relay_step left_behind t"
  by (auto simp: left_behind_def elim: relay_stepE)

text \<open>
  the proxy can leave a goroutine behind for ever: when the server goes away while the client
  has 33 lines under way, the handler returns and the client's reader stays blocked on the channel.
\<close>

theorem a_reader_is_left_behind:
  "\<exists>s. reachable (mob_start (replicate 33 LF) []) s \<and> (\<nexists>t. relay_step s t)
     \<and> main_done s \<and> \<not> client_done s"
  using left_behind_reachable left_behind_stuck
  by (intro exI [of _ left_behind]) (simp add: flood_0, simp add: left_behind_def)

theorem the_relay_ends_witness:
  "client_hold left_behind \<noteq> None \<and> 32 \<le> length (chan left_behind)"
proof -
  have "\<not> client_done left_behind" by (simp add: left_behind_def)
  moreover have "reachable (mob_start (replicate 33 LF) []) left_behind \<and> (\<nexists>t. relay_step left_behind t)"
    using left_behind_reachable left_behind_stuck by (simp add: flood_0)
  ultimately show ?thesis using the_relay_ends [of "replicate 33 LF" "[]" left_behind] by blast
qed

text \<open>
  The handler does not return either when one end stops reading, though both connections have ended: it
  is blocked in a write without a deadline and does not look at the context.
\<close>

definition unread :: relay where
  "unread = \<lparr>client_in = [], proxy_in = [], client_hold = None, proxy_hold = None, chan = [],
      main_hold = Some (FROM_PROXY, []), to_proxy = [], to_client = [], proxy_err = False, client_err = False,
      proxy_part = [], client_part = [], proxy_deaf = False, client_deaf = True,
      cancelled = True, client_done = True, proxy_done = True, main_done = False\<rparr>"

lemma unread_reachable: "reachable (mob_start [] [LF]) unread"
proof -
  let ?s0 = "mob_start [] [LF]"
  let ?s1 = "?s0\<lparr>proxy_in := [], proxy_hold := Some (TrimSpace [LF])\<rparr>"
  let ?s2 = "?s1\<lparr>proxy_hold := None, chan := chan ?s1 @ [(FROM_PROXY, [])]\<rparr>"
  let ?s3 = "?s2\<lparr>chan := [], main_hold := Some (FROM_PROXY, [])\<rparr>"
  let ?s4 = "?s3\<lparr>client_deaf := True\<rparr>"
  let ?s5 = "?s4\<lparr>client_done := True, cancelled := True\<rparr>"
  let ?s6 = "?s5\<lparr>proxy_done := True, cancelled := True\<rparr>"
  have t: "TrimSpace [LF] = []" by (simp add: mob_eval)
  have l: "lines_of LF [LF] = [[LF]]" using lines_of_replicate [of 1] by simp
  have "relay_step ?s0 ?s1" by (rule read_proxy) (simp_all add: mob_start_def l)
  with reachable.start have "reachable ?s0 ?s1" by (rule reachable.step)
  moreover have "relay_step ?s1 ?s2" by (rule send_proxy) (simp_all add: mob_start_def t)
  ultimately have "reachable ?s0 ?s2" by (rule reachable.step)
  moreover have "relay_step ?s2 ?s3" by (rule main_takes) (simp_all add: mob_start_def)
  ultimately have "reachable ?s0 ?s3" by (rule reachable.step)
  moreover have "peer_step ?s3 ?s4" by (rule client_stops_reading) (simp add: mob_start_def)
  ultimately have "reachable ?s0 ?s4" by (rule reachable.peer)
  moreover have "relay_step ?s4 ?s5" by (rule client_end) (simp_all add: mob_start_def)
  ultimately have "reachable ?s0 ?s5" by (rule reachable.step)
  moreover have "relay_step ?s5 ?s6" by (rule proxy_end) (simp_all add: mob_start_def)
  ultimately have "reachable ?s0 ?s6" by (rule reachable.step)
  moreover have "?s6 = unread" by (simp add: mob_start_def unread_def)
  ultimately show ?thesis by simp
qed

theorem an_end_that_does_not_read_blocks_the_handler:
  "\<exists>s. reachable (mob_start [] [LF]) s \<and> (\<nexists>t. relay_step s t) \<and> cancelled s \<and> \<not> main_done s"
proof -
  have "\<not> relay_step unread t" for t by (auto simp: unread_def elim: relay_stepE)
  with unread_reachable show ?thesis by (intro exI [of _ unread]) (simp add: unread_def)
qed

end
