(* ===== verification/Go_JSON.thy ===== *)
theory Go_JSON
  imports Go_Text Go_Float
begin

text \<open>
  What the program uses of \<open>encoding/json\<close>: \<open>json.Unmarshal\<close> of a line into a struct. The text is
  checked as a whole first (a syntax error leaves the struct as it was); then the members of the
  object are stored one after the other, and a member of the wrong type is reported at the end but
  does not keep the others from being stored.
\<close>

section \<open>Values and tokens\<close>

datatype json =
    JNull
  | JBool bool
  | JNum string
  | JStr string
  | JArr "json list"
  | JObj "(string \<times> json) list"

datatype token = LBrace | RBrace | LBrack | RBrack | Colon | Comma | Scalar json

section \<open>Strings\<close>

definition char_code :: "nat \<Rightarrow> char" where
  "char_code n = char_of n"

text \<open>\<open>utf8.AppendRune\<close>\<close>

definition encode_rune :: "nat \<Rightarrow> string" where
  "encode_rune r0 =
     (let r = (if r0 > 0x10FFFF \<or> (0xD800 \<le> r0 \<and> r0 \<le> 0xDFFF) then RuneError else r0)
      in if r < 0x80 then [char_code r]
         else if r < 0x800 then [char_code (0xC0 + r div 64), char_code (0x80 + r mod 64)]
         else if r < 0x10000
         then [char_code (0xE0 + r div 4096), char_code (0x80 + r div 64 mod 64), char_code (0x80 + r mod 64)]
         else [char_code (0xF0 + r div 262144), char_code (0x80 + r div 4096 mod 64),
               char_code (0x80 + r div 64 mod 64), char_code (0x80 + r mod 64)])"

definition digit :: "char \<Rightarrow> bool" where
  "digit c \<longleftrightarrow> 0x30 \<le> code c \<and> code c \<le> 0x39"

definition hex_digit :: "char \<Rightarrow> bool" where
  "hex_digit c \<longleftrightarrow> digit c \<or> (0x41 \<le> code c \<and> code c \<le> 0x46) \<or> (0x61 \<le> code c \<and> code c \<le> 0x66)"

definition hex_value :: "char \<Rightarrow> nat" where
  "hex_value c = (if digit c then code c - 0x30 else if code c \<le> 0x46 then code c - 0x37 else code c - 0x57)"

definition hex4 :: "string \<Rightarrow> nat" where
  "hex4 s = foldl (\<lambda>n c. 16 * n + hex_value c) 0 s"

text \<open>The raw contents of a string, up to its closing quote, and what follows it.\<close>

fun scan_string :: "string \<Rightarrow> (string \<times> string) option" where
  "scan_string [] = None"
| "scan_string (c # s) =
     (if c = CHR 0x22 then Some ([], s)
      else if c = CHR 0x5C then
        (case s of
           [] \<Rightarrow> None
         | e # s' \<Rightarrow>
             (if e \<in> set ''bfnrt/u'' \<union> {CHR 0x5C, CHR 0x22}
                 \<and> (e = CHR ''u'' \<longrightarrow> length (takeWhile hex_digit (take 4 s')) = 4)
              then map_option (\<lambda>(raw, r). (c # e # raw, r)) (scan_string s')
              else None))
      else if code c < 0x20 then None
      else map_option (\<lambda>(raw, r). (c # raw, r)) (scan_string s))"

lemma scan_string_length: "scan_string s = Some (raw, r) \<Longrightarrow> length r < length s"
  by (induction s arbitrary: raw r rule: scan_string.induct)
    (force split: if_splits list.splits)+

definition quoted :: "string \<Rightarrow> string" where
  "quoted s = [CHR 0x22] @ s @ [CHR 0x22]"

text \<open>The escapes of one character.\<close>

definition escaped :: "char \<Rightarrow> char" where
  "escaped e = (if e = CHR ''b'' then CHR 0x08 else if e = CHR ''f'' then CHR 0x0C else if e = CHR ''n'' then CHR 0x0A
     else if e = CHR ''r'' then CHR 0x0D else if e = CHR ''t'' then CHR 0x09 else e)"

text \<open>The four digits of a \<open>\\u\<close> escape at the front of a string, as \<open>getu4\<close> finds them.\<close>

definition getu4 :: "string \<Rightarrow> nat option" where
  "getu4 s = (if take 2 s = [CHR 0x5C, CHR ''u''] \<and> length s \<ge> 6 then Some (hex4 (take 4 (drop 2 s))) else None)"

definition surrogate :: "nat \<Rightarrow> bool" where
  "surrogate r \<longleftrightarrow> 0xD800 \<le> r \<and> r < 0xE000"

function unquote :: "string \<Rightarrow> string" where
  "unquote [] = []"
| "unquote (c # s) =
     (if c = CHR 0x5C then
        (case getu4 (c # s) of
           None \<Rightarrow> (case s of [] \<Rightarrow> [] | e # s' \<Rightarrow> escaped e # unquote s')
         | Some r1 \<Rightarrow>
             (if surrogate r1 then
                (case getu4 (drop 5 s) of
                   Some r2 \<Rightarrow>
                     (if r1 < 0xDC00 \<and> 0xDC00 \<le> r2 \<and> r2 < 0xE000
                      then encode_rune ((r1 - 0xD800) * 1024 + (r2 - 0xDC00) + 0x10000) @ unquote (drop 11 s)
                      else encode_rune RuneError @ unquote (drop 5 s))
                 | None \<Rightarrow> encode_rune RuneError @ unquote (drop 5 s))
              else encode_rune r1 @ unquote (drop 5 s)))
      else if code c < 0x80 then c # unquote s
      else encode_rune (fst (DecodeRune (c # s))) @ unquote (drop (snd (DecodeRune (c # s))) (c # s)))"
  by pat_completeness auto
termination
proof (relation "measure length")
  fix c s
  show "(drop (snd (DecodeRune (c # s))) (c # s), c # s) \<in> measure length"
    using DecodeRune_width [of "c # s"] by simp
qed auto

section \<open>Numbers\<close>

text \<open>A character of \<open>cs\<close> at the front, if there is one.\<close>

definition leading :: "string \<Rightarrow> string \<Rightarrow> string" where
  "leading cs s = takeWhile (\<lambda>x. x \<in> set cs) (take 1 s)"

definition scan_int :: "string \<Rightarrow> (string \<times> string) option" where
  "scan_int s =
     (case s of
        [] \<Rightarrow> None
      | c # r \<Rightarrow>
          (if c = CHR ''0'' then Some ([c], r)
           else if digit c then Some (takeWhile digit s, dropWhile digit s) else None))"

definition scan_frac :: "string \<Rightarrow> (string \<times> string) option" where
  "scan_frac s =
     (case s of
        [] \<Rightarrow> Some ([], s)
      | c # r \<Rightarrow>
          (if c \<noteq> CHR ''.'' then Some ([], s)
           else if takeWhile digit r = [] then None
           else Some (c # takeWhile digit r, dropWhile digit r)))"

definition scan_exp :: "string \<Rightarrow> (string \<times> string) option" where
  "scan_exp s =
     (case s of
        [] \<Rightarrow> Some ([], s)
      | c # r \<Rightarrow>
          (if c \<notin> set ''eE'' then Some ([], s)
           else (let sg = leading ''+-'' r; ds = drop (length sg) r
                 in if takeWhile digit ds = [] then None
                    else Some (c # sg @ takeWhile digit ds, dropWhile digit ds))))"

definition scan_number :: "string \<Rightarrow> (string \<times> string) option" where
  "scan_number s =
     (let sg = leading ''-'' s
      in Option.bind (scan_int (drop (length sg) s)) (\<lambda>(i, r1).
         Option.bind (scan_frac r1) (\<lambda>(f, r2).
         Option.bind (scan_exp r2) (\<lambda>(e, r3). Some (sg @ i @ f @ e, r3)))))"

lemma scan_int_append: "scan_int s = Some (i, r) \<Longrightarrow> s = i @ r \<and> i \<noteq> []"
  by (auto simp: scan_int_def split: list.splits if_splits)

lemma scan_frac_append: "scan_frac s = Some (f, r) \<Longrightarrow> s = f @ r"
  by (auto simp: scan_frac_def split: list.splits if_splits)

lemma leading_append: "leading cs s @ drop (length (leading cs s)) s = s"
  by (cases s) (auto simp: leading_def)

lemma scan_exp_append: "scan_exp s = Some (e, r) \<Longrightarrow> s = e @ r"
  by (auto simp: scan_exp_def Let_def leading_append split: list.splits if_splits)

lemma scan_number_append:
  assumes "scan_number s = Some (n, r)"
  shows "s = n @ r \<and> n \<noteq> []"
proof -
  let ?sg = "leading ''-'' s"
  from assms obtain i r1 f r2 e where
    1: "scan_int (drop (length ?sg) s) = Some (i, r1)"
    and 2: "scan_frac r1 = Some (f, r2)" and 3: "scan_exp r2 = Some (e, r)" and n: "n = ?sg @ i @ f @ e"
    unfolding scan_number_def Let_def by (auto simp: bind_eq_Some_conv)
  have "s = ?sg @ drop (length ?sg) s" by (rule leading_append [symmetric])
  with scan_int_append [OF 1] scan_frac_append [OF 2] scan_exp_append [OF 3] n show ?thesis by (metis append.assoc append_is_Nil_conv)
qed

lemma scan_number_length: "scan_number s = Some (n, r) \<Longrightarrow> length r < length s"
  by (auto dest!: scan_number_append)

section \<open>The text\<close>

definition json_space :: "char \<Rightarrow> bool" where
  "json_space c \<longleftrightarrow> c = CHR '' '' \<or> c = CHR 0x09 \<or> c = CHR 0x0A \<or> c = CHR 0x0D"

function lex_json :: "string \<Rightarrow> token list option" where
  "lex_json [] = Some []"
| "lex_json (c # s) =
     (if json_space c then lex_json s
      else if c = CHR ''{'' then map_option ((#) LBrace) (lex_json s)
      else if c = CHR ''}'' then map_option ((#) RBrace) (lex_json s)
      else if c = CHR ''['' then map_option ((#) LBrack) (lex_json s)
      else if c = CHR '']'' then map_option ((#) RBrack) (lex_json s)
      else if c = CHR '':'' then map_option ((#) Colon) (lex_json s)
      else if c = CHR '','' then map_option ((#) Comma) (lex_json s)
      else if c = CHR 0x22 then
        (case scan_string s of
           None \<Rightarrow> None
         | Some (raw, r) \<Rightarrow> map_option ((#) (Scalar (JStr (unquote raw)))) (lex_json r))
      else if take 4 (c # s) = ''null'' then map_option ((#) (Scalar JNull)) (lex_json (drop 3 s))
      else if take 4 (c # s) = ''true'' then map_option ((#) (Scalar (JBool True))) (lex_json (drop 3 s))
      else if take 5 (c # s) = ''false'' then map_option ((#) (Scalar (JBool False))) (lex_json (drop 4 s))
      else
        (case scan_number (c # s) of
           None \<Rightarrow> None
         | Some (n, r) \<Rightarrow> map_option ((#) (Scalar (JNum n))) (lex_json r)))"
  by pat_completeness auto
termination
  by (relation "measure length") (auto dest: scan_string_length scan_number_length)

text \<open>
  The parser is a machine with a stack, at most 10000 deep: the arrays and objects that are open,
  with what they hold so far.
\<close>

datatype frame = FArr "json list" | FObj "(string \<times> json) list" | FKey "(string \<times> json) list" string

datatype expect = EValue | EArrStart | EObjStart | EKey | EColon string | EAfter json

definition maxNestingDepth :: nat where
  "maxNestingDepth = 10000"

definition value_token :: "frame list \<Rightarrow> token \<Rightarrow> (frame list \<times> expect) option" where
  "value_token fs t =
     (case t of
        Scalar v \<Rightarrow> Some (fs, EAfter v)
      | LBrace \<Rightarrow> (if length fs < maxNestingDepth then Some (FObj [] # fs, EObjStart) else None)
      | LBrack \<Rightarrow> (if length fs < maxNestingDepth then Some (FArr [] # fs, EArrStart) else None)
      | _ \<Rightarrow> None)"

definition key_token :: "frame list \<Rightarrow> token \<Rightarrow> (frame list \<times> expect) option" where
  "key_token fs t = (case t of Scalar (JStr k) \<Rightarrow> Some (fs, EColon k) | _ \<Rightarrow> None)"

fun after_token :: "frame list \<Rightarrow> json \<Rightarrow> token \<Rightarrow> (frame list \<times> expect) option" where
  "after_token (FArr vs # fs) v Comma = Some (FArr (vs @ [v]) # fs, EValue)"
| "after_token (FArr vs # fs) v RBrack = Some (fs, EAfter (JArr (vs @ [v])))"
| "after_token (FKey ms k # fs) v Comma = Some (FObj (ms @ [(k, v)]) # fs, EKey)"
| "after_token (FKey ms k # fs) v RBrace = Some (fs, EAfter (JObj (ms @ [(k, v)])))"
| "after_token fs v t = None"

fun json_step :: "frame list \<times> expect \<Rightarrow> token \<Rightarrow> (frame list \<times> expect) option" where
  "json_step (fs, EValue) t = value_token fs t"
| "json_step (fs, EArrStart) t =
     (if t = RBrack then Some (tl fs, EAfter (JArr [])) else value_token fs t)"
| "json_step (fs, EObjStart) t =
     (if t = RBrace then Some (tl fs, EAfter (JObj [])) else key_token fs t)"
| "json_step (fs, EKey) t = key_token fs t"
| "json_step (FObj ms # fs, EColon k) t = (if t = Colon then Some (FKey ms k # fs, EValue) else None)"
| "json_step (fs, EColon k) t = None"
| "json_step (fs, EAfter v) t = after_token fs v t"

fun parse_tokens :: "frame list \<times> expect \<Rightarrow> token list \<Rightarrow> json option" where
  "parse_tokens (fs, e) [] = (case (fs, e) of ([], EAfter v) \<Rightarrow> Some v | _ \<Rightarrow> None)"
| "parse_tokens st (t # ts) = (case json_step st t of None \<Rightarrow> None | Some st' \<Rightarrow> parse_tokens st' ts)"

definition parse_json :: "string \<Rightarrow> json option" where
  "parse_json s = Option.bind (lex_json s) (parse_tokens ([], EValue))"

section \<open>Unmarshalling\<close>

text \<open>Keys are compared without regard to case, as \<open>foldName\<close> does it.\<close>

definition fold_rune :: "nat \<Rightarrow> nat" where
  "fold_rune r = (if 0x61 \<le> r \<and> r \<le> 0x7A then r - 0x20 else if r = 0x17F then 0x53 else if r = 0x212A then 0x4B else r)"

definition fold_name :: "string \<Rightarrow> nat list" where
  "fold_name s = map (\<lambda>x. fold_rune (fst x)) (runes s)"

datatype json_error = SyntaxError | UnmarshalTypeError

text \<open>
  \<open>store k v r\<close> stores the member \<open>k\<close> of an object in the struct \<open>r\<close>, and says whether it had a
  wrong type.
\<close>

fun store_members :: "(string \<Rightarrow> json \<Rightarrow> 'r \<Rightarrow> 'r \<times> bool) \<Rightarrow> (string \<times> json) list \<Rightarrow> 'r \<Rightarrow> 'r \<times> bool" where
  "store_members store [] r = (r, False)"
| "store_members store ((k, v) # ms) r =
     (let (r1, e1) = store k v r; (r2, e2) = store_members store ms r1 in (r2, e1 \<or> e2))"

definition Unmarshal_json ::
  "(string \<Rightarrow> json \<Rightarrow> 'r \<Rightarrow> 'r \<times> bool) \<Rightarrow> string \<Rightarrow> 'r \<Rightarrow> 'r \<times> json_error option" where
  "Unmarshal_json store data r =
     (case parse_json data of
        None \<Rightarrow> (r, Some SyntaxError)
      | Some (JObj ms) \<Rightarrow>
          (let (r', e) = store_members store ms r in (r', if e then Some UnmarshalTypeError else None))
      | Some JNull \<Rightarrow> (r, None)
      | Some _ \<Rightarrow> (r, Some UnmarshalTypeError))"

definition store_string :: "json \<Rightarrow> string \<Rightarrow> string \<times> bool" where
  "store_string v x = (case v of JStr s \<Rightarrow> (s, False) | JNull \<Rightarrow> (x, False) | _ \<Rightarrow> (x, True))"

section \<open>Numbers as Go values\<close>

definition digits_value :: "string \<Rightarrow> nat" where
  "digits_value s = foldl (\<lambda>n c. 10 * n + (code c - 0x30)) 0 s"

text \<open>The value of a number: its sign, its digits, and its power of ten.\<close>

definition exp_value :: "string \<Rightarrow> int" where
  "exp_value s =
     (if s = [] then 0
      else if take 1 s = ''-'' then - int (digits_value (drop 1 s))
      else if take 1 s = ''+'' then int (digits_value (drop 1 s))
      else int (digits_value s))"

definition num_value :: "string \<Rightarrow> rat" where
  "num_value lit =
     (let body = (if take 1 lit = ''-'' then drop 1 lit else lit);
          mant = takeWhile (\<lambda>c. c \<notin> set ''eE'') body;
          ex = drop (length mant + 1) body;
          ip = takeWhile (\<lambda>c. c \<noteq> CHR ''.'') mant;
          fp = drop (length ip + 1) mant;
          v = of_nat (digits_value (ip @ fp)) * 10 powi (exp_value ex - int (length fp))
      in if take 1 lit = ''-'' then - v else v)"

text \<open>
  \<open>strconv.ParseFloat(lit, 64)\<close>: the nearest \<open>float64\<close>, with the smallest exponent -1074; a value
  that rounds to 2^1024 or more is out of range.
\<close>

definition float64_abs :: "rat \<Rightarrow> rat" where
  "float64_abs x =
     (if x \<le> 0 then 0
      else let e = max (expo x - 52) (- 1074) in of_int (round_half_even (x / 2 powi e)) * 2 powi e)"

definition ParseFloat64 :: "string \<Rightarrow> rat option" where
  "ParseFloat64 lit =
     (let x = num_value lit; v = float64_abs \<bar>x\<bar>
      in if v \<ge> 2 ^ 1024 then None else Some (if x < 0 then - v else v))"

text \<open>\<open>strconv.ParseInt(lit, 10, 64)\<close> and \<open>strconv.ParseUint(lit, 10, 64)\<close>\<close>

definition ParseInt64 :: "string \<Rightarrow> int option" where
  "ParseInt64 lit =
     (let neg = take 1 lit = ''-''; ds = (if neg then drop 1 lit else lit);
          n = (if neg then - int (digits_value ds) else int (digits_value ds))
      in if ds \<noteq> [] \<and> list_all digit ds \<and> - (2 ^ 63) \<le> n \<and> n < 2 ^ 63 then Some n else None)"

definition ParseUint64 :: "string \<Rightarrow> 64 word option" where
  "ParseUint64 lit =
     (if lit \<noteq> [] \<and> list_all digit lit \<and> digits_value lit < 2 ^ 64
      then Some (of_nat (digits_value lit)) else None)"

end
