(* ===== verification/Go_Utf8.thy ===== *)
theory Go_Utf8
  imports Go_JSON
begin

text \<open>
  UTF-8: the encoding of a rune is decoded to this rune, and a string is valid if it is made of
  encodings of runes. What \<open>json.Unmarshal\<close> stores is valid.
\<close>

section \<open>Encoding and decoding a rune\<close>

definition scalar :: "nat \<Rightarrow> bool" where
  "scalar r \<longleftrightarrow> r \<le> 0x10FFFF \<and> \<not> surrogate r"

lemma scalar_RuneError [simp]: "scalar RuneError"
  by (simp add: scalar_def surrogate_def RuneError_def)

lemma code_char_code [simp]: "n < 256 \<Longrightarrow> code (char_code n) = n"
  by (simp add: code_def char_code_def)

lemma char_code_code [simp]: "char_code (code c) = c"
  by (simp add: code_def char_code_def)

lemma code_less: "code c < 256"
  unfolding code_def by (metis char_of_char of_char_of mod_less_divisor zero_less_numeral)

lemma parts2:
  assumes "b < 64"
  shows "((a :: nat) * 64 + b) div 64 = a" "(a * 64 + b) mod 64 = b"
  using assms by simp_all

lemma parts3:
  assumes "b < 64" "c < 64"
  shows "((a :: nat) * 4096 + b * 64 + c) div 4096 = a" "(a * 4096 + b * 64 + c) div 64 mod 64 = b"
    "(a * 4096 + b * 64 + c) mod 64 = c"
proof -
  have e: "a * 4096 + b * 64 + c = (a * 64 + b) * 64 + c" by simp
  show "(a * 4096 + b * 64 + c) mod 64 = c" unfolding e by (rule parts2 [OF assms(2)])
  have d: "(a * 4096 + b * 64 + c) div 64 = a * 64 + b" unfolding e by (rule parts2 [OF assms(2)])
  show "(a * 4096 + b * 64 + c) div 64 mod 64 = b" unfolding d by (rule parts2 [OF assms(1)])
  have "(a * 4096 + b * 64 + c) div (64 * 64) = a"
    unfolding div_mult2_eq d by (rule parts2 [OF assms(1)])
  then show "(a * 4096 + b * 64 + c) div 4096 = a" by simp
qed

lemma parts4:
  assumes "b < 64" "c < 64" "d < 64"
  shows "((a :: nat) * 262144 + b * 4096 + c * 64 + d) div 262144 = a"
    "(a * 262144 + b * 4096 + c * 64 + d) div 4096 mod 64 = b"
    "(a * 262144 + b * 4096 + c * 64 + d) div 64 mod 64 = c"
    "(a * 262144 + b * 4096 + c * 64 + d) mod 64 = d"
proof -
  let ?r = "a * 262144 + b * 4096 + c * 64 + d"
  have e: "?r = (a * 64 + b) * 4096 + c * 64 + d" by simp
  show "?r div 64 mod 64 = c" "?r mod 64 = d" unfolding e by (rule parts3 [OF assms(2,3)])+
  have f: "?r div 4096 = a * 64 + b" unfolding e by (rule parts3 [OF assms(2,3)])
  show "?r div 4096 mod 64 = b" unfolding f by (rule parts2 [OF assms(1)])
  have "?r div (4096 * 64) = a" unfolding div_mult2_eq f by (rule parts2 [OF assms(1)])
  then show "?r div 262144 = a" by simp
qed

lemma join3: "(r :: nat) div 4096 * 4096 + r div 64 mod 64 * 64 + r mod 64 = r"
proof -
  have "r div 64 div 64 = r div 4096" using div_mult2_eq [of r 64 64] by simp
  moreover note div_mult_mod_eq [of r 64] div_mult_mod_eq [of "r div 64" 64]
  ultimately show ?thesis by linarith
qed

lemma join4: "(r :: nat) div 262144 * 262144 + r div 4096 mod 64 * 4096 + r div 64 mod 64 * 64 + r mod 64 = r"
proof -
  have "r div 4096 div 64 = r div 262144" using div_mult2_eq [of r 4096 64] by simp
  moreover note join3 [of r] div_mult_mod_eq [of "r div 4096" 64]
  ultimately show ?thesis by linarith
qed

lemma encode_rune_not_Nil [simp]: "encode_rune r \<noteq> []"
  by (simp add: encode_rune_def Let_def)

lemma decode_encode:
  assumes "scalar r"
  shows "DecodeRune (encode_rune r @ t) = (r, length (encode_rune r))"
proof -
  have r: "r \<le> 0x10FFFF" "\<not> (0xD800 \<le> r \<and> r \<le> 0xDFFF)"
    using assms by (auto simp: scalar_def surrogate_def)
  consider "r < 0x80" | "0x80 \<le> r" "r < 0x800" | "0x800 \<le> r" "r < 0x10000" | "0x10000 \<le> r" by linarith
  then show ?thesis
  proof cases
    case 1
    then show ?thesis using r by (simp add: encode_rune_def Let_def)
  next
    case 2
    define a b where "a = r div 64" and "b = r mod 64"
    have e: "r = a * 64 + b" "b < 64" by (simp_all add: a_def b_def)
    have "encode_rune r = [char_code (0xC0 + a), char_code (0x80 + b)]"
      using 2 r by (simp add: encode_rune_def Let_def a_def b_def)
    moreover have "2 \<le> a" "a < 32" using 2 e by linarith+
    ultimately show ?thesis using e by (simp add: Let_def cont_def)
  next
    case 3
    define a b c where "a = r div 4096" and "b = r div 64 mod 64" and "c = r mod 64"
    have e: "r = a * 4096 + b * 64 + c" "b < 64" "c < 64"
      unfolding a_def b_def c_def by (simp_all add: join3)
    have "encode_rune r = [char_code (0xE0 + a), char_code (0x80 + b), char_code (0x80 + c)]"
      using 3 r by (auto simp: encode_rune_def Let_def a_def b_def c_def)
    moreover have "a < 16" "a = 0 \<Longrightarrow> 32 \<le> b" "a = 13 \<Longrightarrow> b < 32" using 3 r e by linarith+
    ultimately show ?thesis using e by (auto simp: Let_def cont_def)
  next
    case 4
    define a b c d where "a = r div 262144" and "b = r div 4096 mod 64" and "c = r div 64 mod 64" and "d = r mod 64"
    have e: "r = a * 262144 + b * 4096 + c * 64 + d" "b < 64" "c < 64" "d < 64"
      unfolding a_def b_def c_def d_def by (simp_all add: join4)
    have "encode_rune r = [char_code (0xF0 + a), char_code (0x80 + b), char_code (0x80 + c), char_code (0x80 + d)]"
      using 4 r by (simp add: encode_rune_def Let_def a_def b_def c_def d_def)
    moreover have "a < 5" "a = 0 \<Longrightarrow> 16 \<le> b" "a = 4 \<Longrightarrow> b < 16" using 4 r e by linarith+
    ultimately show ?thesis using e by (auto simp: Let_def cont_def)
  qed
qed

lemma encode_decode:
  assumes "s \<noteq> []" and "\<not> (fst (DecodeRune s) = RuneError \<and> snd (DecodeRune s) = 1)"
  shows "encode_rune (fst (DecodeRune s)) = take (snd (DecodeRune s)) s \<and> scalar (fst (DecodeRune s))"
proof -
  obtain c0 t where s: "s = c0 # t" using assms(1) by (cases s) auto
  consider (one) "code c0 < 0x80" "DecodeRune s = (code c0, 1)"
    | (two) c1 u where "t = c1 # u" "0xC2 \<le> code c0" "code c0 \<le> 0xDF" "cont 0x80 0xBF c1"
        "DecodeRune s = ((code c0 - 0xC0) * 64 + (code c1 - 0x80), 2)"
    | (three) c1 c2 u where "t = c1 # c2 # u" "0xE0 \<le> code c0" "code c0 \<le> 0xEF"
        "cont (if code c0 = 0xE0 then 0xA0 else 0x80) (if code c0 = 0xED then 0x9F else 0xBF) c1" "cont 0x80 0xBF c2"
        "DecodeRune s = ((code c0 - 0xE0) * 4096 + (code c1 - 0x80) * 64 + (code c2 - 0x80), 3)"
    | (four) c1 c2 c3 u where "t = c1 # c2 # c3 # u" "0xF0 \<le> code c0" "code c0 \<le> 0xF4"
        "cont (if code c0 = 0xF0 then 0x90 else 0x80) (if code c0 = 0xF4 then 0x8F else 0xBF) c1"
        "cont 0x80 0xBF c2" "cont 0x80 0xBF c3"
        "DecodeRune s = ((code c0 - 0xF0) * 262144 + (code c1 - 0x80) * 4096 + (code c2 - 0x80) * 64 + (code c3 - 0x80), 4)"
    using assms unfolding s by (auto simp: Let_def split: list.splits if_splits)
  then show ?thesis
  proof cases
    case one
    then show ?thesis by (simp add: s encode_rune_def scalar_def surrogate_def)
  next
    case two
    define a b where "a = code c0 - 0xC0" and "b = code c1 - 0x80"
    have ab: "2 \<le> a" "a < 32" "b < 64" "code c0 = 0xC0 + a" "code c1 = 0x80 + b"
      using two by (auto simp: a_def b_def cont_def)
    then have c: "char_code (0xC0 + a) = c0" "char_code (0x80 + b) = c1" by (metis char_code_code)+
    show ?thesis
      using ab parts2 [OF ab(3), of a] two(1,5)
      by (simp add: s encode_rune_def Let_def scalar_def surrogate_def c flip: a_def b_def)
  next
    case three
    define a b c where "a = code c0 - 0xE0" and "b = code c1 - 0x80" and "c = code c2 - 0x80"
    have ab: "a < 16" "b < 64" "c < 64" "code c0 = 0xE0 + a" "code c1 = 0x80 + b" "code c2 = 0x80 + c"
      "a = 0 \<Longrightarrow> 32 \<le> b" "a = 13 \<Longrightarrow> b < 32"
      using three by (auto simp: a_def b_def c_def cont_def split: if_splits)
    then have e: "char_code (0xE0 + a) = c0" "char_code (0x80 + b) = c1" "char_code (0x80 + c) = c2"
      by (metis char_code_code)+
    let ?r = "a * 4096 + b * 64 + c"
    have "0x800 \<le> ?r" "?r < 0x10000" using ab by linarith+
    moreover have "\<not> (0xD800 \<le> ?r \<and> ?r \<le> 0xDFFF)" using ab by (cases a "13 :: nat" rule: linorder_cases) auto
    ultimately have "encode_rune ?r = [c0, c1, c2]" "scalar ?r"
      using parts3 [OF ab(2,3), of a] by (auto simp: encode_rune_def Let_def scalar_def surrogate_def e)
    then show ?thesis using three(1,6) by (simp add: s flip: a_def b_def c_def)
  next
    case four
    define a b c d where "a = code c0 - 0xF0" and "b = code c1 - 0x80" and "c = code c2 - 0x80" and "d = code c3 - 0x80"
    have ab: "a < 5" "b < 64" "c < 64" "d < 64" "code c0 = 0xF0 + a" "code c1 = 0x80 + b" "code c2 = 0x80 + c"
      "code c3 = 0x80 + d" "a = 0 \<Longrightarrow> 16 \<le> b" "a = 4 \<Longrightarrow> b < 16"
      using four by (auto simp: a_def b_def c_def d_def cont_def split: if_splits)
    then have e: "char_code (0xF0 + a) = c0" "char_code (0x80 + b) = c1" "char_code (0x80 + c) = c2" "char_code (0x80 + d) = c3"
      by (metis char_code_code)+
    let ?r = "a * 262144 + b * 4096 + c * 64 + d"
    have "0x10000 \<le> ?r" "?r \<le> 0x10FFFF" using ab by linarith+
    then have "encode_rune ?r = [c0, c1, c2, c3]" "scalar ?r"
      using parts4 [OF ab(2-4), of a] by (auto simp: encode_rune_def Let_def scalar_def surrogate_def e)
    then show ?thesis using four(1,7) by (simp add: s flip: a_def b_def c_def d_def)
  qed
qed


section \<open>Valid strings\<close>

text \<open>A string with each byte that is no part of an encoding replaced by the encoding of U+FFFD.\<close>

definition to_valid :: "string \<Rightarrow> string" where
  "to_valid s = concat (map (\<lambda>x. encode_rune (fst x)) (runes s))"

definition valid_utf8 :: "string \<Rightarrow> bool" where
  "valid_utf8 s \<longleftrightarrow> (\<exists>rs. list_all scalar rs \<and> s = concat (map encode_rune rs))"

lemma runes_encoded:
  "list_all scalar rs \<Longrightarrow> runes (concat (map encode_rune rs)) = map (\<lambda>r. (r, encode_rune r)) rs"
  by (induction rs) (simp_all add: runes_step decode_encode)

lemma to_valid_valid: "valid_utf8 s \<Longrightarrow> to_valid s = s"
  by (auto simp: valid_utf8_def to_valid_def runes_encoded comp_def)

text \<open>\<open>encode_rune\<close> makes valid strings only.\<close>

lemma encode_scalar: "\<exists>r'. scalar r' \<and> encode_rune r = encode_rune r'"
proof (cases "scalar r")
  case False
  then have "encode_rune r = encode_rune RuneError"
    by (auto simp: scalar_def surrogate_def encode_rune_def RuneError_def)
  then show ?thesis by (intro exI [of _ RuneError]) simp
qed auto

lemma valid_Nil [simp]: "valid_utf8 []"
  unfolding valid_utf8_def by (intro exI [of _ "[]"]) simp

lemma valid_append: "valid_utf8 s \<Longrightarrow> valid_utf8 t \<Longrightarrow> valid_utf8 (s @ t)"
  unfolding valid_utf8_def by (metis concat_append list_all_append map_append)

lemma valid_encode [simp]: "valid_utf8 (encode_rune r)"
proof -
  obtain r' where "scalar r'" "encode_rune r = encode_rune r'" using encode_scalar by blast
  then show ?thesis unfolding valid_utf8_def by (intro exI [of _ "[r']"]) simp
qed

lemma encode_ascii: "code c < 0x80 \<Longrightarrow> encode_rune (code c) = [c]"
  by (simp add: encode_rune_def Let_def)

lemma valid_ascii: "code c < 0x80 \<Longrightarrow> valid_utf8 [c]"
  using valid_encode [of "code c"] by (simp add: encode_ascii)

lemma valid_Cons: "code c < 0x80 \<Longrightarrow> valid_utf8 s \<Longrightarrow> valid_utf8 (c # s)"
  using valid_append [OF valid_ascii] by simp

lemma valid_concat: "valid_utf8 (concat (map (\<lambda>x. encode_rune (f x)) xs))"
  by (induction xs) (simp_all add: valid_append)

lemma to_valid_is_valid [simp]: "valid_utf8 (to_valid s)"
  unfolding to_valid_def by (rule valid_concat)

section \<open>Strings of JSON texts\<close>

text \<open>What \<open>scan_string\<close> lets through; the digits of an escape are ordinary characters.\<close>

definition four_digits :: "string \<Rightarrow> bool" where
  "four_digits s \<longleftrightarrow> length (takeWhile hex_digit (take 4 s)) = 4"

fun raw_ok :: "string \<Rightarrow> bool" where
  "raw_ok [] = True"
| "raw_ok (c # s) =
     (if c = CHR 0x5C then
        (case s of [] \<Rightarrow> False
         | e # s' \<Rightarrow> e \<in> set ''bfnrt/u'' \<union> {CHR 0x5C, CHR 0x22} \<and> (e = CHR ''u'' \<longrightarrow> four_digits s') \<and> raw_ok s')
      else raw_ok s)"

lemma four_digits_split:
  assumes "four_digits s"
  obtains u t where "s = u @ t" "length u = 4" "list_all hex_digit u"
proof
  show "s = take 4 s @ drop 4 s" by simp
  have "length (take 4 s) \<le> 4" by simp
  moreover have "length (takeWhile hex_digit (take 4 s)) \<le> length (take 4 s)" by (rule length_takeWhile_le)
  ultimately show l: "length (take 4 s) = 4" using assms unfolding four_digits_def by linarith
  have "takeWhile hex_digit (take 4 s) = take 4 s"
    using assms l unfolding four_digits_def by (metis takeWhile_eq_take take_all_iff order_refl)
  then show "list_all hex_digit (take 4 s)" by (metis list_all_iff set_takeWhileD)
qed

lemma hex_digit_plain: "hex_digit c \<Longrightarrow> c \<noteq> CHR 0x22 \<and> c \<noteq> CHR 0x5C \<and> 0x20 \<le> code c \<and> code c < 0x80"
  by (auto simp: hex_digit_def digit_def code_def)

lemma scan_hex: "list_all hex_digit u \<Longrightarrow>
    scan_string (u @ s) = map_option (\<lambda>(raw, r). (u @ raw, r)) (scan_string s)"
proof (induction u)
  case Nil
  then show ?case by (cases "scan_string s") auto
next
  case (Cons c u)
  then show ?case using hex_digit_plain [of c] by (cases "scan_string s") auto
qed

lemma four_digits_append: "length u = 4 \<Longrightarrow> list_all hex_digit u \<Longrightarrow> four_digits (u @ s)"
proof -
  assume u: "length u = 4" "list_all hex_digit u"
  then have w: "takeWhile hex_digit u = u" by (simp add: takeWhile_eq_all_conv list_all_iff)
  have "take 4 (u @ s) = u" using u(1) by simp
  then show "four_digits (u @ s)" unfolding four_digits_def by (simp only: w u(1))
qed

lemma scan_string_raw: "scan_string s = Some (raw, r) \<Longrightarrow> raw_ok raw"
proof (induction s arbitrary: raw r rule: scan_string.induct)
  case (2 c s)
  show ?case
  proof (cases "c = CHR 0x5C")
    case False
    with 2 show ?thesis by (auto split: if_splits)
  next
    case True
    with 2(3) obtain e s' raw' where s: "s = e # s'" "e \<in> set ''bfnrt/u'' \<union> {CHR 0x5C, CHR 0x22}"
      "e = CHR ''u'' \<Longrightarrow> four_digits s'" "scan_string s' = Some (raw', r)" "raw = c # e # raw'"
      by (auto simp: four_digits_def split: list.splits if_splits)
    have "four_digits raw'" if u: "e = CHR ''u''"
    proof -
      obtain v t where v: "s' = v @ t" "length v = 4" "list_all hex_digit v"
        using four_digits_split [OF s(3) [OF u]] by blast
      with s(4) scan_hex [OF v(3), of t] obtain raw'' where "raw' = v @ raw''" by auto
      with v four_digits_append show ?thesis by blast
    qed
    moreover have "raw_ok raw'"
      using 2(1) [OF _ True s(1) _ s(4)] s(2,3) True by (auto simp: four_digits_def)
    ultimately show ?thesis using s True by simp
  qed
qed simp

lemma raw_ok_drop: "raw_ok (u @ s) \<Longrightarrow> CHR 0x5C \<notin> set u \<Longrightarrow> raw_ok s"
  by (induction u) auto


lemma encode_high:
  assumes "0x80 \<le> r" and "scalar r" and "x \<in> set (encode_rune r)"
  shows "0x80 \<le> code x"
proof -
  have r: "r \<le> 0x10FFFF" "\<not> (r > 0x10FFFF \<or> (0xD800 \<le> r \<and> r \<le> 0xDFFF))"
    using assms(2) by (auto simp: scalar_def surrogate_def)
  have "r div 64 < 64" if "r < 0x800" using that by linarith
  moreover have "r div 4096 < 16" if "r < 0x10000" using that by linarith
  moreover have "r div 262144 < 8" using r by linarith
  ultimately show ?thesis
    using assms(1,3) unfolding encode_rune_def Let_def if_not_P [OF r(2)]
    by (auto split: if_splits)
qed

lemma DecodeRune_high: "0x80 \<le> code c \<Longrightarrow> 0x80 \<le> fst (DecodeRune (c # s))"
proof (rule ccontr)
  assume c: "0x80 \<le> code c" and n: "\<not> 0x80 \<le> fst (DecodeRune (c # s))"
  then have "\<not> (fst (DecodeRune (c # s)) = RuneError \<and> snd (DecodeRune (c # s)) = 1)"
    by (auto simp: RuneError_def)
  from encode_decode [OF _ this] have "encode_rune (fst (DecodeRune (c # s))) = take (snd (DecodeRune (c # s))) (c # s)" by simp
  moreover have "encode_rune (fst (DecodeRune (c # s))) = [char_code (fst (DecodeRune (c # s)))]"
    using n by (simp add: encode_rune_def Let_def)
  ultimately have "c = char_code (fst (DecodeRune (c # s)))"
    using DecodeRune_width [of "c # s"] by (cases "snd (DecodeRune (c # s))") (auto simp del: DecodeRune.simps)
  moreover have "code (char_code (fst (DecodeRune (c # s)))) = fst (DecodeRune (c # s))"
    using n by (intro code_char_code) linarith
  ultimately show False using c n by metis
qed

lemma DecodeRune_no_escape:
  assumes "0x80 \<le> code c"
  shows "CHR 0x5C \<notin> set (take (snd (DecodeRune (c # s))) (c # s))"
proof (cases "fst (DecodeRune (c # s)) = RuneError \<and> snd (DecodeRune (c # s)) = 1")
  case True
  then show ?thesis using assms by (auto simp: code_def)
next
  case False
  from encode_decode [OF _ this] DecodeRune_high [OF assms, of s] encode_high
  show ?thesis by (fastforce simp: code_def)
qed

lemma escaped_valid: "e \<in> set ''bfnrt/u'' \<union> {CHR 0x5C, CHR 0x22} \<Longrightarrow> code (escaped e) < 0x80"
proof -
  have "\<forall>e \<in> set ''bfnrt/u'' \<union> {CHR 0x5C, CHR 0x22}. code (escaped e) < 0x80" by code_simp
  then show "e \<in> set ''bfnrt/u'' \<union> {CHR 0x5C, CHR 0x22} \<Longrightarrow> code (escaped e) < 0x80" by blast
qed

lemma valid_unquote: "raw_ok raw \<Longrightarrow> valid_utf8 (unquote raw)"
proof (induction raw rule: unquote.induct)
  case (2 c s)
  show ?case
  proof (cases "c = CHR 0x5C")
    case False
    show ?thesis
    proof (cases "code c < 0x80")
      case True
      with 2(6) [OF False True] 2(8) False show ?thesis by (simp add: valid_Cons)
    next
      case high: False
      let ?n = "snd (DecodeRune (c # s))"
      have "raw_ok (drop ?n (c # s))"
        using raw_ok_drop [of "take ?n (c # s)" "drop ?n (c # s)"] 2(8) DecodeRune_no_escape [of c s] high
        by (simp del: DecodeRune.simps raw_ok.simps)
      with 2(7) [OF False high] False high show ?thesis
        by (simp add: valid_append del: DecodeRune.simps raw_ok.simps)
    qed
  next
    case True
    with 2(8) obtain e s' where s: "s = e # s'" "e \<in> set ''bfnrt/u'' \<union> {CHR 0x5C, CHR 0x22}"
      "e = CHR ''u'' \<Longrightarrow> four_digits s'" "raw_ok s'" by (auto split: list.splits)
    show ?thesis
    proof (cases "getu4 (c # s)")
      case None
      with 2(1) [OF True None s(1)] s True escaped_valid [OF s(2)] show ?thesis by (auto intro: valid_Cons)
    next
      case (Some r1)
      then have u: "e = CHR ''u''" using s by (auto simp: getu4_def split: if_splits)
      then obtain v t where v: "s' = v @ t" "length v = 4" "list_all hex_digit v"
        using four_digits_split [OF s(3)] by blast
      have no: "CHR 0x5C \<notin> set v" using v(3) hex_digit_plain by (auto simp: list_all_iff)
      have t: "drop 5 s = t" "raw_ok t"
        using v(1,2) s(1,4) raw_ok_drop [of v t] no by auto
      show ?thesis
      proof (cases "\<exists>r2. getu4 t = Some r2")
        case False
        then show ?thesis
          using 2(2-5) [OF True Some] True Some t by (auto simp: valid_append split: option.splits)
      next
        case r2: True
        then obtain r2 where r2: "getu4 t = Some r2" by blast
        then have "take 2 t = [CHR 0x5C, CHR ''u'']" by (auto simp: getu4_def split: if_splits)
        then have "t = [CHR 0x5C, CHR ''u''] @ drop 2 t" by (metis append_take_drop_id)
        moreover have "drop 11 s = drop 4 (drop 2 t)" unfolding t(1) [symmetric] by simp
        ultimately obtain w where w: "t = CHR 0x5C # CHR ''u'' # w" "drop 11 s = drop 4 w" by simp
        with t(2) have "four_digits w" "raw_ok w" by auto
        then obtain v2 t2 where v2: "w = v2 @ t2" "length v2 = 4" "list_all hex_digit v2"
          using four_digits_split by blast
        have "CHR 0x5C \<notin> set v2" using v2(3) hex_digit_plain by (auto simp: list_all_iff)
        with \<open>raw_ok w\<close> v2 raw_ok_drop have "raw_ok (drop 11 s)" using w(2) by auto
        then show ?thesis
          using 2(2-5) [OF True Some] True Some t r2 by (auto simp: valid_append)
      qed
    qed
  qed
qed simp

end
