(* ===== verification/Go_JSON_Text.thy ===== *)
theory Go_JSON_Text
  imports Go_Utf8
begin

text \<open>
  What the program uses of \<open>json.Marshal\<close>: the text of a string, with the escapes that keep it safe in
  HTML, and the texts of numbers; and that reading them gives them back.
\<close>

section \<open>Strings\<close>

definition hexd :: "nat \<Rightarrow> char" where
  "hexd n = ''0123456789abcdef'' ! n"

definition quote_byte :: "char \<Rightarrow> string" where
  "quote_byte c =
     (if c = CHR 0x5C \<or> c = CHR 0x22 then [CHR 0x5C, c]
      else if code c = 0x08 then [CHR 0x5C, CHR ''b'']
      else if code c = 0x0C then [CHR 0x5C, CHR ''f'']
      else if code c = 0x0A then [CHR 0x5C, CHR ''n'']
      else if code c = 0x0D then [CHR 0x5C, CHR ''r'']
      else if code c = 0x09 then [CHR 0x5C, CHR ''t'']
      else if code c < 0x20 \<or> c \<in> set ''<>&''
      then [CHR 0x5C, CHR ''u'', CHR ''0'', CHR ''0'', hexd (code c div 16), hexd (code c mod 16)]
      else [c])"

definition quote_rune :: "nat \<times> string \<Rightarrow> string" where
  "quote_rune x =
     (case x of (r, b) \<Rightarrow>
        if r < 0x80 then quote_byte (hd b)
        else if r = RuneError \<and> length b = 1 then CHR 0x5C # ''ufffd''
        else if r = 0x2028 \<or> r = 0x2029 then CHR 0x5C # ''u202'' @ [hexd (r mod 16)]
        else b)"

definition string_text :: "string \<Rightarrow> string" where
  "string_text s = quoted (concat (map quote_rune (runes s)))"

lemma hexd_digits: "n < 16 \<Longrightarrow> hex_digit (hexd n) \<and> hex_value (hexd n) = n"
proof -
  have "\<forall>n \<in> set [0..<16]. hex_digit (hexd n) \<and> hex_value (hexd n) = n" by code_simp
  then show "n < 16 \<Longrightarrow> hex_digit (hexd n) \<and> hex_value (hexd n) = n" by auto
qed

text \<open>The runes of a string are encodings, or single bytes that are none.\<close>

definition good_rune :: "nat \<times> string \<Rightarrow> bool" where
  "good_rune x \<longleftrightarrow> scalar (fst x) \<and> (snd x = encode_rune (fst x) \<or> fst x = RuneError \<and> length (snd x) = 1)"

lemma runes_good: "list_all good_rune (runes s)"
proof (induction s rule: runes.induct)
  case (1 s)
  show ?case
  proof (cases "s = []")
    case False
    have "good_rune (fst (DecodeRune s), take (snd (DecodeRune s)) s)"
    proof (cases "fst (DecodeRune s) = RuneError \<and> snd (DecodeRune s) = 1")
      case True
      with False show ?thesis by (cases s) (simp_all add: good_rune_def del: DecodeRune.simps)
    next
      case no: False
      show ?thesis using encode_decode [OF False no] by (simp add: good_rune_def)
    qed
    with 1 False show ?thesis by (simp add: runes_step)
  qed simp
qed

text \<open>Characters that a string may contain as they are.\<close>

definition ordinary :: "char \<Rightarrow> bool" where
  "ordinary c \<longleftrightarrow> c \<noteq> CHR 0x22 \<and> c \<noteq> CHR 0x5C \<and> 0x20 \<le> code c"

lemma scan_ordinary: "list_all ordinary u \<Longrightarrow>
    scan_string (u @ s) = map_option (\<lambda>(raw, r). (u @ raw, r)) (scan_string s)"
proof (induction u)
  case Nil
  then show ?case by (cases "scan_string s") auto
next
  case (Cons c u)
  then show ?case by (cases "scan_string s") (auto simp: ordinary_def)
qed

lemma scan_escape: "e \<in> set ''bfnrt/'' \<union> {CHR 0x5C, CHR 0x22} \<Longrightarrow>
    scan_string (CHR 0x5C # e # s) = map_option (\<lambda>(raw, r). (CHR 0x5C # e # raw, r)) (scan_string s)"
  by auto

lemma scan_unicode:
  assumes "list_all hex_digit u" and "length u = 4"
  shows "scan_string (CHR 0x5C # CHR ''u'' # u @ s)
    = map_option (\<lambda>(raw, r). (CHR 0x5C # CHR ''u'' # u @ raw, r)) (scan_string s)"
proof -
  have "length (takeWhile hex_digit (take 4 (u @ s))) = 4"
    using four_digits_append [OF assms(2,1)] by (simp only: four_digits_def)
  then show ?thesis using scan_hex [OF assms(1), of s] by (cases "scan_string s") (simp_all add: case_prod_beta)
qed

lemma unquote_unicode:
  assumes "length u = 4" and "\<not> surrogate (hex4 u)"
  shows "unquote (CHR 0x5C # CHR ''u'' # u @ s) = encode_rune (hex4 u) @ unquote s"
  using assms by (simp add: getu4_def)

lemma unquote_escape: "e \<noteq> CHR ''u'' \<Longrightarrow> unquote (CHR 0x5C # e # s) = escaped e # unquote s"
  by (simp add: getu4_def)

lemma quote_controls:
  "quote_byte (char_code 8) = [CHR 0x5C, CHR ''b'']" "escaped (CHR ''b'') = char_code 8"
  "quote_byte (char_code 12) = [CHR 0x5C, CHR ''f'']" "escaped (CHR ''f'') = char_code 12"
  "quote_byte (char_code 10) = [CHR 0x5C, CHR ''n'']" "escaped (CHR ''n'') = char_code 10"
  "quote_byte (char_code 13) = [CHR 0x5C, CHR ''r'']" "escaped (CHR ''r'') = char_code 13"
  "quote_byte (char_code 9) = [CHR 0x5C, CHR ''t'']" "escaped (CHR ''t'') = char_code 9"
  by code_simp+

text \<open>The four shapes of a quoted rune.\<close>

lemma quote_rune_cases [consumes 1, case_names escape unicode byte bytes]:
  assumes "good_rune x"
  obtains (escape) e where "quote_rune x = [CHR 0x5C, e]" "e \<in> set ''bfnrt'' \<union> {CHR 0x5C, CHR 0x22}"
      "encode_rune (fst x) = [escaped e]"
    | (unicode) u where "quote_rune x = CHR 0x5C # CHR ''u'' # u" "list_all hex_digit u" "length u = 4"
      "hex4 u = fst x"
    | (byte) c where "quote_rune x = [c]" "ordinary c" "code c < 0x80" "encode_rune (fst x) = [c]"
    | (bytes) "quote_rune x = encode_rune (fst x)" "0x80 \<le> fst x"
proof -
  obtain r b where x: "x = (r, b)" by (cases x)
  show thesis
  proof (cases "r < 0x80")
    case False
    then consider "r = RuneError \<and> length b = 1" | "r = 0x2028 \<or> r = 0x2029"
      | "\<not> (r = RuneError \<and> length b = 1)" "r \<noteq> 0x2028" "r \<noteq> 0x2029" by blast
    then show thesis
    proof cases
      case 1
      with x show thesis
        by (intro unicode [of "''fffd''"])
          (simp_all add: quote_rune_def RuneError_def hex_digit_def digit_def code_def hex4_def hex_value_def)
    next
      case 2
      then show thesis
        by (intro unicode [of "''202'' @ [hexd (r mod 16)]"])
          (auto simp: x quote_rune_def RuneError_def hex_digit_def digit_def code_def hex4_def hex_value_def hexd_def)
    next
      case 3
      with False assms show thesis by (intro bytes) (auto simp: x good_rune_def quote_rune_def)
    qed
  next
    case True
    define c where "c = hd b"
    have e: "encode_rune r = [char_code r]" using True by (simp add: encode_rune_def Let_def)
    have "b = [char_code r]" using assms True e by (auto simp: x good_rune_def RuneError_def)
    then have c: "code c = r" "encode_rune r = [c]" using True e by (simp_all add: c_def)
    have q: "quote_rune (r, b) = quote_byte c" using True by (simp add: quote_rune_def c_def)
    consider "c = CHR 0x5C \<or> c = CHR 0x22" | "code c \<in> {0x08, 0x0C, 0x0A, 0x0D, 0x09}"
      | "c \<noteq> CHR 0x5C" "c \<noteq> CHR 0x22" "code c \<notin> {0x08, 0x0C, 0x0A, 0x0D, 0x09}" "code c < 0x20 \<or> c \<in> set ''<>&''"
      | "ordinary c" "c \<notin> set ''<>&''" unfolding ordinary_def by (meson not_le)
    then show thesis
    proof cases
      case 1
      then show thesis
        by (intro escape [of c]) (auto simp: q quote_byte_def x c escaped_def)
    next
      case 2
      then obtain y where y: "code c = y" "y \<in> {0x08, 0x0C, 0x0A, 0x0D, 0x09}" by blast
      then have cy: "c = char_code y" by (metis char_code_code)
      obtain e where "quote_byte c = [CHR 0x5C, e]" "e \<in> set ''bfnrt''" "escaped e = c"
        using y(2) unfolding cy by (auto simp: quote_controls)
      then show thesis using c by (intro escape [of e]) (simp_all add: q x)
    next
      case 3
      have lt: "code c div 16 < 16" "code c mod 16 < 16" using c True by auto
      have z: "hex_digit (CHR ''0'')" "hex_value (CHR ''0'') = 0" by (simp_all add: hex_digit_def digit_def hex_value_def code_def)
      have "quote_byte c = CHR 0x5C # CHR ''u'' # [CHR ''0'', CHR ''0'', hexd (code c div 16), hexd (code c mod 16)]"
        using 3 by (auto simp: quote_byte_def)
      then show thesis
        using hexd_digits [OF lt(1)] hexd_digits [OF lt(2)] z c(1)
        by (intro unicode [of "[CHR ''0'', CHR ''0'', hexd (code c div 16), hexd (code c mod 16)]"])
          (simp_all add: q x hex4_def)
    next
      case 4
      then have "quote_byte c = [c]" by (auto simp: quote_byte_def ordinary_def)
      with 4 show thesis using True c by (intro byte [of c]) (simp_all add: q x)
    qed
  qed
qed


text \<open>The text of a string is scanned as a whole, and gives the string back.\<close>

lemma scan_quoted_rune:
  assumes "good_rune x"
  shows "scan_string (quote_rune x @ s) = map_option (\<lambda>(raw, r). (quote_rune x @ raw, r)) (scan_string s)"
  using assms
proof (cases rule: quote_rune_cases)
  case (escape e)
  then have "e \<in> set ''bfnrt/'' \<union> {CHR 0x5C, CHR 0x22}" by auto
  from scan_escape [OF this, of s] escape show ?thesis by (simp only: append.simps)
next
  case (unicode u)
  from scan_unicode [OF unicode(2,3), of s] show ?thesis by (simp only: unicode(1) append.simps)
next
  case (byte c)
  then show ?thesis using scan_ordinary [of "[c]" s] by simp
next
  case bytes
  have "ordinary c" if "c \<in> set (encode_rune (fst x))" for c
    using encode_high [OF bytes(2) _ that] assms by (auto simp: ordinary_def good_rune_def code_def)
  then have "list_all ordinary (encode_rune (fst x))" by (simp add: list_all_iff)
  then show ?thesis unfolding bytes(1) by (rule scan_ordinary)
qed

lemma unquote_quoted_rune:
  assumes g: "good_rune x"
  shows "unquote (quote_rune x @ s) = encode_rune (fst x) @ unquote s"
  using assms
proof (cases rule: quote_rune_cases)
  case (escape e)
  then have "e \<noteq> CHR ''u''" by auto
  from unquote_escape [OF this, of s] escape show ?thesis by (simp only: append.simps)
next
  case (unicode u)
  then have "\<not> surrogate (hex4 u)" using g by (simp add: good_rune_def scalar_def)
  from unquote_unicode [OF unicode(3) this, of s] unicode show ?thesis by (simp only: append.simps)
next
  case (byte c)
  then show ?thesis by (auto simp: ordinary_def)
next
  case bytes
  let ?r = "fst x"
  obtain c b where b: "encode_rune ?r = c # b" by (cases "encode_rune ?r") auto
  have c: "0x80 \<le> code c" using encode_high [OF bytes(2), of c] g b by (simp add: good_rune_def)
  have "DecodeRune ((c # b) @ s) = (?r, length (c # b))"
    unfolding b [symmetric] using g by (intro decode_encode) (simp add: good_rune_def)
  then have "unquote ((c # b) @ s) = encode_rune ?r @ unquote s"
    using c by (auto simp: code_def simp del: DecodeRune.simps)
  then show ?thesis by (simp only: bytes(1) b)
qed

lemma scan_quoted:
  "list_all good_rune xs \<Longrightarrow> scan_string (concat (map quote_rune xs) @ CHR 0x22 # r) = Some (concat (map quote_rune xs), r)"
  by (induction xs) (simp_all add: scan_quoted_rune del: scan_string.simps, simp)

lemma unquote_quoted:
  "list_all good_rune xs \<Longrightarrow> unquote (concat (map quote_rune xs)) = concat (map (\<lambda>x. encode_rune (fst x)) xs)"
  by (induction xs) (simp_all add: unquote_quoted_rune del: unquote.simps, simp)

lemma lex_string_text:
  "lex_json (string_text s @ r) = map_option ((#) (Scalar (JStr (to_valid s)))) (lex_json r)"
  using scan_quoted [OF runes_good, of s r] unquote_quoted [OF runes_good, of s]
  by (simp add: string_text_def quoted_def to_valid_def json_space_def)

end
