(* ===== verification/Go_JSON_Numbers.thy ===== *)
theory Go_JSON_Numbers
  imports Go_JSON
begin

text \<open>
  The texts of numbers in JSON: integers in decimal, and a \<open>float64\<close> as \<open>encoding/json\<close> prints it, with
  the fewest digits that read back as the number.
\<close>

section \<open>Decimal digits\<close>

lemma code_char_of: "n < 256 \<Longrightarrow> code (char_of n) = n"
  by (simp add: code_def)

lemma digit_char_of: "(n :: nat) < 10 \<Longrightarrow> digit (char_of (48 + n))"
  by (simp add: digit_def code_char_of)

lemma Itoa_digits: "list_all digit (Itoa n)"
  by (induction n rule: Itoa.induct) (subst Itoa.simps, simp add: digit_char_of)

lemma Itoa_no_zero: "0 < n \<Longrightarrow> hd (Itoa n) \<noteq> CHR ''0''"
proof (induction n rule: Itoa.induct)
  case (1 n)
  show ?case
  proof (cases "n < 10")
    case True
    then have "code (char_of (48 + n)) \<noteq> code (CHR ''0'')" using 1 by (simp add: code_char_of) (simp add: code_def)
    with True show ?thesis by (subst Itoa.simps) auto
  next
    case False
    with 1 show ?thesis by (subst Itoa.simps) simp
  qed
qed

lemma digits_value_snoc: "digits_value (s @ [c]) = 10 * digits_value s + (code c - 0x30)"
  by (simp add: digits_value_def)

lemma digits_value_Itoa [simp]: "digits_value (Itoa n) = n"
proof (induction n rule: Itoa.induct)
  case (1 n)
  show ?case
  proof (cases "n < 10")
    case True
    then show ?thesis by (subst Itoa.simps) (simp add: digits_value_def code_char_of)
  next
    case False
    with 1 show ?thesis by (subst Itoa.simps) (simp add: digits_value_snoc code_char_of)
  qed
qed

lemma digits_value_zeros: "digits_value (s @ replicate n (CHR ''0'')) = digits_value s * 10 ^ n"
proof (induction n)
  case (Suc n)
  have "s @ replicate (Suc n) (CHR ''0'') = (s @ replicate n (CHR ''0'')) @ [CHR ''0'']"
    by (simp add: replicate_append_same)
  then show ?case unfolding \<open>s @ _ = _\<close> digits_value_snoc Suc by (simp add: code_def)
qed simp

lemma digits_value_leading: "digits_value (replicate n (CHR ''0'') @ s) = digits_value s"
  by (induction n) (simp_all add: digits_value_def code_def)

section \<open>The literals of numbers\<close>

text \<open>
  The text of a number from its parts: the sign, the digits before and behind the point, and the
  exponent, which is printed with its sign.
\<close>

definition literal :: "bool \<Rightarrow> string \<Rightarrow> string \<Rightarrow> int option \<Rightarrow> string" where
  "literal neg ip fp ex =
     (if neg then ''-'' else []) @ ip @ (if fp = [] then [] else CHR ''.'' # fp)
     @ (case ex of None \<Rightarrow> []
        | Some e \<Rightarrow> CHR ''e'' # (if e < 0 then CHR ''-'' else CHR ''+'') # Itoa (nat \<bar>e\<bar>))"

definition proper :: "string \<Rightarrow> string \<Rightarrow> bool" where
  "proper ip fp \<longleftrightarrow> list_all digit ip \<and> list_all digit fp \<and> ip \<noteq> [] \<and> (hd ip = CHR ''0'' \<longrightarrow> ip = ''0'')"

text \<open>The characters that cannot follow a number.\<close>

definition ends_number :: "string \<Rightarrow> bool" where
  "ends_number s \<longleftrightarrow> s = [] \<or> (\<not> digit (hd s) \<and> hd s \<notin> set ''.eE'')"

lemma takeWhile_run: "list_all P u \<Longrightarrow> s = [] \<or> \<not> P (hd s) \<Longrightarrow> takeWhile P (u @ s) = u \<and> dropWhile P (u @ s) = s"
  by (induction u) (cases s; auto)+

lemma digit_not: "\<not> digit (CHR ''.'')" "\<not> digit (CHR ''e'')" "\<not> digit (CHR ''E'')" "\<not> digit (CHR ''-'')" "\<not> digit (CHR ''+'')"
  by (simp_all add: digit_def code_def)

lemma scan_int_proper:
  assumes "proper ip fp" and "s = [] \<or> \<not> digit (hd s)"
  shows "scan_int (ip @ s) = Some (ip, s)"
proof -
  obtain d ds where ip: "ip = d # ds" using assms(1) by (cases ip) (auto simp: proper_def)
  show ?thesis
  proof (cases "d = CHR ''0''")
    case True
    with assms(1) ip have "ds = []" by (auto simp: proper_def)
    with True ip show ?thesis by (simp add: scan_int_def)
  next
    case False
    with takeWhile_run [of digit ip s] assms ip show ?thesis by (simp add: scan_int_def proper_def)
  qed
qed

lemma leading_minus: "proper ip fp \<Longrightarrow> leading ''-'' ((if neg then ''-'' else []) @ ip @ s) = (if neg then ''-'' else [])"
  using digit_not by (cases ip) (auto simp: leading_def proper_def)

lemma scan_frac_literal:
  assumes "list_all digit fp" and "s = [] \<or> (\<not> digit (hd s) \<and> hd s \<noteq> CHR ''.'')"
  shows "scan_frac ((if fp = [] then [] else CHR ''.'' # fp) @ s) = Some (if fp = [] then [] else CHR ''.'' # fp, s)"
proof (cases "fp = []")
  case True
  then show ?thesis using assms(2) by (cases s) (auto simp: scan_frac_def)
next
  case False
  have "takeWhile digit (fp @ s) = fp" "dropWhile digit (fp @ s) = s"
    using takeWhile_run [OF assms(1), of s] assms(2) by blast+
  with False show ?thesis by (simp add: scan_frac_def)
qed

lemma scan_exp_literal:
  assumes "ends_number s"
  shows "scan_exp ((case ex of None \<Rightarrow> []
        | Some e \<Rightarrow> CHR ''e'' # (if e < 0 then CHR ''-'' else CHR ''+'') # Itoa (nat \<bar>e\<bar>)) @ s)
    = Some (case ex of None \<Rightarrow> []
        | Some e \<Rightarrow> CHR ''e'' # (if e < 0 then CHR ''-'' else CHR ''+'') # Itoa (nat \<bar>e\<bar>), s)"
proof (cases ex)
  case None
  then show ?thesis using assms by (cases s) (auto simp: scan_exp_def ends_number_def)
next
  case (Some e)
  have t: "takeWhile digit (Itoa n @ s) = Itoa n" "dropWhile digit (Itoa n @ s) = s" for n
    using takeWhile_run [OF Itoa_digits] assms unfolding ends_number_def by blast+
  show ?thesis by (simp add: Some scan_exp_def leading_def Let_def t)
qed

lemma scan_literal:
  assumes "proper ip fp" and "ends_number s"
  shows "scan_number (literal neg ip fp ex @ s) = Some (literal neg ip fp ex, s)"
proof -
  let ?sg = "if neg then ''-'' else []"
  let ?fp = "if fp = [] then [] else CHR ''.'' # fp"
  let ?ex = "case ex of None \<Rightarrow> []
        | Some e \<Rightarrow> CHR ''e'' # (if e < 0 then CHR ''-'' else CHR ''+'') # Itoa (nat \<bar>e\<bar>)"
  have e: "?ex @ s = [] \<or> (\<not> digit (hd (?ex @ s)) \<and> hd (?ex @ s) \<noteq> CHR ''.'')"
    using assms(2) digit_not by (auto simp: ends_number_def split: option.split)
  then have f: "?fp @ ?ex @ s = [] \<or> \<not> digit (hd (?fp @ ?ex @ s))"
    using digit_not by (cases "fp = []") auto
  have l: "literal neg ip fp ex @ s = ?sg @ ip @ ?fp @ ?ex @ s" by (simp add: literal_def)
  have d: "drop (length ?sg) (?sg @ ip @ ?fp @ ?ex @ s) = ip @ ?fp @ ?ex @ s" by simp
  have fp: "list_all digit fp" using assms(1) by (simp add: proper_def)
  show ?thesis
    unfolding l scan_number_def Let_def leading_minus [OF assms(1)] d scan_int_proper [OF assms(1) f]
      scan_frac_literal [OF fp e] scan_exp_literal [OF assms(2)] Option.bind.simps prod.case
    by (simp add: literal_def)
qed

section \<open>Their values\<close>

lemma exp_value_literal:
  "exp_value (drop 1 (case ex of None \<Rightarrow> []
        | Some e \<Rightarrow> CHR ''e'' # (if e < 0 then CHR ''-'' else CHR ''+'') # Itoa (nat \<bar>e\<bar>)))
    = (case ex of None \<Rightarrow> 0 | Some e \<Rightarrow> e)"
  by (auto simp: exp_value_def split: option.split)

lemma value_literal:
  assumes "proper ip fp"
  shows "num_value (literal neg ip fp ex) =
    (let v = of_nat (digits_value (ip @ fp)) * 10 powi ((case ex of None \<Rightarrow> 0 | Some e \<Rightarrow> e) - int (length fp))
     in if neg then - v else v)"
proof -
  let ?fp = "if fp = [] then [] else CHR ''.'' # fp"
  let ?ex = "case ex of None \<Rightarrow> []
        | Some e \<Rightarrow> CHR ''e'' # (if e < 0 then CHR ''-'' else CHR ''+'') # Itoa (nat \<bar>e\<bar>)"
  have d: "list_all digit ip" "list_all digit fp" "ip \<noteq> []" using assms by (simp_all add: proper_def)
  have m: "take 1 (literal neg ip fp ex) = ''-'' \<longleftrightarrow> neg"
    using d(1,3) digit_not by (cases ip) (auto simp: literal_def)
  have b: "(if neg then drop 1 (literal neg ip fp ex) else literal neg ip fp ex) = (ip @ ?fp) @ ?ex"
    by (simp add: literal_def)
  have dne: "c \<notin> set ''eE''" "c \<noteq> CHR ''.''" if "digit c" for c using that digit_not by auto
  have "list_all (\<lambda>c. c \<notin> set ''eE'') (ip @ ?fp)" using d dne by (auto simp: list_all_iff)
  moreover have "?ex = [] \<or> \<not> (hd ?ex \<notin> set ''eE'')" by (cases ex) auto
  ultimately have mant: "takeWhile (\<lambda>c. c \<notin> set ''eE'') ((ip @ ?fp) @ ?ex) = ip @ ?fp"
    using takeWhile_run by blast
  have ex: "drop (length (ip @ ?fp) + 1) ((ip @ ?fp) @ ?ex) = drop 1 ?ex" by simp
  have "list_all (\<lambda>c. c \<noteq> CHR ''.'') ip" using d(1) dne by (auto simp: list_all_iff)
  moreover have "?fp = [] \<or> \<not> (hd ?fp \<noteq> CHR ''.'')" by simp
  ultimately have i: "takeWhile (\<lambda>c. c \<noteq> CHR ''.'') (ip @ ?fp) = ip" using takeWhile_run by blast
  have f: "drop (length ip + 1) (ip @ ?fp) = fp" by simp
  show ?thesis
    unfolding num_value_def Let_def m b mant ex i f exp_value_literal by simp
qed


section \<open>The digits of a \<open>float64\<close>\<close>

text \<open>A positive number is a \<open>float64\<close> if it is its own rounding.\<close>

lemma float64_abs_exact:
  assumes "0 \<le> m" and "m \<le> 2 ^ 53" and "- 1074 \<le> e"
  shows "float64_abs (of_int m * 2 powi e) = of_int m * 2 powi e"
proof -
  have small: "float64_abs (of_int m * 2 powi e) = of_int m * 2 powi e"
    if m: "0 < m" "m < 2 ^ 53" and e: "- 1074 \<le> e" for m e
  proof -
    let ?x = "of_int m * 2 powi e :: rat"
    let ?E = "max (expo ?x - 52) (- 1074)"
    have x: "0 < ?x" using m by simp
    have "?x < 2 ^ 53 * 2 powi e" using m(2) of_int_less_iff [of m "2 ^ 53", where 'a = rat] by simp
    also have "\<dots> = 2 powi (53 + e)" by (simp add: power_int_add)
    finally have "(2 :: rat) powi expo ?x < 2 powi (53 + e)" using expo_bounds [OF x] by linarith
    then have "\<not> (2 :: rat) powi (53 + e) \<le> 2 powi expo ?x" by linarith
    then have le: "?E \<le> e" using e by (simp only: powi_le_iff)
    have "?x / 2 powi ?E = of_int m * 2 powi (e - ?E)" by (simp add: power_int_diff)
    also have "(2 :: rat) powi (e - ?E) = of_int (2 ^ nat (e - ?E))" using le by (simp add: power_int_def)
    finally have "?x / 2 powi ?E = of_int (m * 2 ^ nat (e - ?E))" by simp
    then have "of_int (round_half_even (?x / 2 powi ?E)) = ?x / 2 powi ?E" by (simp only: round_half_even_int)
    then have "of_int (round_half_even (?x / 2 powi ?E)) * 2 powi ?E = ?x" by simp
    then show ?thesis using x by (simp add: float64_abs_def Let_def)
  qed
  consider "m = 0" | "0 < m" "m < 2 ^ 53" | "m = 2 ^ 53" using assms by fastforce
  then show ?thesis
  proof cases
    case 1
    then show ?thesis by (simp add: float64_abs_def)
  next
    case 2
    then show ?thesis by (rule small [OF _ _ assms(3)])
  next
    case 3
    have "(of_int m * 2 powi e :: rat) = of_int (2 ^ 52) * 2 powi (e + 1)"
      using 3 by (simp add: power_int_add)
    then show ?thesis using small [of "2 ^ 52" "e + 1"] assms(3) by simp
  qed
qed

lemma float64_abs_form:
  obtains m e where "float64_abs x = of_int m * 2 powi e" "0 \<le> m" "m \<le> 2 ^ 53" "- 1074 \<le> e"
proof (cases "0 < x")
  case True
  define e where "e = max (expo x - 52) (- 1074)"
  define m where "m = round_half_even (x / 2 powi e)"
  have P: "(0 :: rat) < 2 powi e" by simp
  have "expo x + 1 \<le> 53 + e" by (simp add: e_def)
  then have "(2 :: rat) powi (expo x + 1) \<le> 2 powi (53 + e)" by (rule powi_le_powiI)
  with expo_bounds [OF True] have "x \<le> 2 powi (53 + e)" by linarith
  also have "(2 :: rat) powi (53 + e) = 2 ^ 53 * 2 powi e" by (simp add: power_int_add)
  finally have "x / 2 powi e \<le> of_int (2 ^ 53)" using P by (simp add: divide_le_eq)
  then have "m \<le> 2 ^ 53" unfolding m_def by (metis round_half_even_int round_half_even_mono)
  moreover have "0 \<le> m"
    unfolding m_def using True round_half_even_mono [of 0 "x / 2 powi e"] round_half_even_int [of 0] by simp
  moreover have "float64_abs x = of_int m * 2 powi e"
    using True by (simp add: float64_abs_def e_def m_def Let_def)
  moreover have "- 1074 \<le> e" by (simp add: e_def)
  ultimately show thesis using that by blast
next
  case False
  then show thesis by (intro that [of 0 0]) (simp_all add: float64_abs_def)
qed

lemma float64_abs_idem [simp]: "float64_abs (float64_abs x) = float64_abs x"
proof -
  obtain m e where "float64_abs x = of_int m * 2 powi e" "0 \<le> m" "m \<le> 2 ^ 53" "- 1074 \<le> e"
    by (rule float64_abs_form)
  then show ?thesis using float64_abs_exact by simp
qed

lemma float64_abs_nonneg: "0 \<le> float64_abs x"
  using float64_abs_form [of x] by (metis mult_nonneg_nonneg of_int_0_le_iff zero_le_power_int zero_le_numeral)

text \<open>
  \<open>strconv.AppendFloat(b, x, fmt, -1, 64)\<close>: the decimal with \<open>k\<close> digits behind the point below or above
  \<open>x\<close> that is read as \<open>x\<close>, the nearer one if both are; and the first \<open>k\<close> for which there is one,
  beginning with one significant digit. Every \<open>float64\<close> has a decimal with 1074 digits behind the
  point, so that the fuel is enough.
\<close>

definition decimal_at :: "rat \<Rightarrow> int \<Rightarrow> int option" where
  "decimal_at x k =
     (let y = x * 10 powi k; ok = (\<lambda>m. float64_abs (of_int m * 10 powi (- k)) = x)
      in if ok \<lfloor>y\<rfloor> \<and> ok (\<lfloor>y\<rfloor> + 1) then Some (round_half_even y)
         else if ok \<lfloor>y\<rfloor> then Some \<lfloor>y\<rfloor>
         else if ok (\<lfloor>y\<rfloor> + 1) then Some (\<lfloor>y\<rfloor> + 1) else None)"

fun digits_from :: "nat \<Rightarrow> rat \<Rightarrow> int \<Rightarrow> int \<times> int" where
  "digits_from 0 x k = (0, 0)"
| "digits_from (Suc n) x k = (case decimal_at x k of Some m \<Rightarrow> (m, k) | None \<Rightarrow> digits_from n x (k + 1))"

definition dec_exp :: "rat \<Rightarrow> int" where
  "dec_exp x = (case find (\<lambda>e. 10 powi e \<le> x) (rev [- 330..310]) of None \<Rightarrow> - 330 | Some e \<Rightarrow> e)"

function strip_zeros :: "nat \<Rightarrow> int \<Rightarrow> nat \<times> int" where
  "strip_zeros m k = (if m \<noteq> 0 \<and> m mod 10 = 0 then strip_zeros (m div 10) (k - 1) else (m, k))"
  by pat_completeness auto
termination
  by (relation "measure fst") auto

declare strip_zeros.simps [simp del]

definition float_digits :: "rat \<Rightarrow> nat \<times> int" where
  "float_digits x = (case digits_from 1400 x (- dec_exp x) of (m, k) \<Rightarrow> strip_zeros (nat m) k)"

lemma decimal_at_ok:
  assumes "decimal_at x k = Some m"
  shows "float64_abs (of_int m * 10 powi (- k)) = x"
proof -
  have "round_half_even y = \<lfloor>y\<rfloor> \<or> round_half_even y = \<lfloor>y\<rfloor> + 1" for y
    by (auto simp: round_half_even_def Let_def)
  then show ?thesis using assms unfolding decimal_at_def Let_def by (metis option.distinct(1) option.inject)
qed

lemma decimal_int:
  assumes "x = of_int m * 2 powi e" and "- K \<le> e" and "0 \<le> K"
  shows "of_int \<lfloor>x * 10 powi K\<rfloor> = x * (10 :: rat) powi K"
proof -
  have "(10 :: rat) powi K = (2 * 5) powi K" by simp
  also have "\<dots> = 2 powi K * 5 powi K" by (rule power_int_mult_distrib)
  finally have "x * 10 powi K = of_int m * (2 powi e * 2 powi K) * 5 powi K" using assms(1) by simp
  also have "(2 :: rat) powi e * 2 powi K = 2 powi (e + K)" by (subst power_int_add) simp_all
  also have "(2 :: rat) powi (e + K) = of_int (2 ^ nat (e + K))" using assms(2) by (simp add: power_int_def)
  also have "(5 :: rat) powi K = of_int (5 ^ nat K)" using assms(3) by (simp add: power_int_def)
  finally have "x * 10 powi K = of_int (m * 2 ^ nat (e + K) * 5 ^ nat K)" by (simp only: of_int_mult)
  then show ?thesis by (simp only: floor_of_int)
qed

lemma decimal_at_exact:
  assumes "float64_abs x = x" and "x = of_int m * 2 powi e" and "- K \<le> e" and "0 \<le> K"
  shows "decimal_at x K \<noteq> None"
proof -
  have "of_int \<lfloor>x * 10 powi K\<rfloor> * 10 powi (- K) = x * (10 powi K * 10 powi (- K))"
    unfolding decimal_int [OF assms(2-4)] by (simp only: mult.assoc)
  also have "(10 :: rat) powi K * 10 powi (- K) = 1" by (subst power_int_add [symmetric]) simp_all
  finally have "float64_abs (of_int \<lfloor>x * 10 powi K\<rfloor> * 10 powi (- K)) = x" using assms(1) by simp
  then show ?thesis by (simp add: decimal_at_def Let_def)
qed

lemma decimal_at_1074: "float64_abs x = x \<Longrightarrow> decimal_at x 1074 \<noteq> None"
proof -
  assume x: "float64_abs x = x"
  obtain m e where "x = of_int m * 2 powi e" "- 1074 \<le> e"
    using float64_abs_form [of x] unfolding x by blast
  then show ?thesis by (intro decimal_at_exact [OF x]) simp_all
qed

lemma digits_from_ok:
  "decimal_at x (k + int j) \<noteq> None \<Longrightarrow> j < n \<Longrightarrow> digits_from n x k = (m, k') \<Longrightarrow>
   float64_abs (of_int m * 10 powi (- k')) = x"
proof (induction n arbitrary: j k)
  case (Suc n)
  show ?case
  proof (cases "decimal_at x k")
    case (Some m')
    with Suc.prems(3) decimal_at_ok [OF Some] show ?thesis by simp
  next
    case None
    then obtain i where "j = Suc i" using Suc.prems(1) by (cases j) auto
    with None Suc show ?thesis by (intro Suc.IH [of "k + 1" i]) (simp_all add: algebra_simps)
  qed
qed simp

lemma dec_exp_bounds: "- 330 \<le> dec_exp x" "dec_exp x \<le> 310"
proof -
  have "e \<in> set [- 330..310]" if "find P (rev [- 330..310]) = Some e" for P :: "int \<Rightarrow> bool" and e
    using that unfolding find_Some_iff by (metis nth_mem set_rev)
  then have "- 330 \<le> e \<and> e \<le> 310" if "find P (rev [- 330..310]) = Some e" for P :: "int \<Rightarrow> bool" and e
    using that by (simp only: set_upto atLeastAtMost_iff)
  then have "- 330 \<le> dec_exp x \<and> dec_exp x \<le> 310"
    unfolding dec_exp_def by (cases "find (\<lambda>e. 10 powi e \<le> x) (rev [- 330..310])") (simp_all only: option.case, simp)
  then show "- 330 \<le> dec_exp x" "dec_exp x \<le> 310" by blast+
qed


lemma strip_zeros_value:
  "0 < m \<Longrightarrow> strip_zeros m k = (m', k') \<Longrightarrow>
   0 < m' \<and> (of_nat m' * 10 powi (- k') :: rat) = of_nat m * 10 powi (- k)"
proof (induction m k rule: strip_zeros.induct)
  case (1 m k)
  show ?case
  proof (cases "m mod 10 = 0")
    case True
    with 1(2) have d: "0 < m div 10" "m = m div 10 * 10" by auto
    have "0 < m' \<and> (of_nat m' * 10 powi (- k') :: rat) = of_nat (m div 10) * 10 powi (- (k - 1))"
      using 1(1) [OF _ d(1)] 1(2,3) True by (simp add: strip_zeros.simps [of m k])
    also have "(of_nat (m div 10) * 10 powi (- (k - 1)) :: rat) = of_nat (m div 10) * (10 powi 1 * 10 powi (- k))"
      by (subst power_int_add [symmetric]) simp_all
    also have "\<dots> = of_nat (m div 10 * 10) * 10 powi (- k)" by simp
    finally show ?thesis using d(2) by simp
  next
    case False
    with 1(2,3) show ?thesis by (simp add: strip_zeros.simps [of m k])
  qed
qed

lemma float_digits_value:
  assumes "0 < x" and "float64_abs x = x" and "float_digits x = (m, k)"
  shows "0 < m \<and> float64_abs (of_nat m * 10 powi (- k)) = x"
proof -
  obtain m0 k0 where d: "digits_from 1400 x (- dec_exp x) = (m0, k0)" by fastforce
  have "decimal_at x (- dec_exp x + int (nat (1074 + dec_exp x))) \<noteq> None"
    using decimal_at_1074 [OF assms(2)] dec_exp_bounds [of x] by simp
  then have f: "float64_abs (of_int m0 * 10 powi (- k0)) = x"
    by (rule digits_from_ok [OF _ _ d]) (use dec_exp_bounds [of x] in simp)
  have "0 < m0"
  proof (rule ccontr)
    assume "\<not> 0 < m0"
    then have "(of_int m0 * 10 powi (- k0) :: rat) \<le> 0" by (intro mult_nonpos_nonneg) simp_all
    with f assms(1) show False by (simp add: float64_abs_def)
  qed
  moreover have "strip_zeros (nat m0) k0 = (m, k)" using assms(3) d by (simp add: float_digits_def)
  ultimately have "0 < m \<and> (of_nat m * 10 powi (- k) :: rat) = of_nat (nat m0) * 10 powi (- k0)"
    by (intro strip_zeros_value) simp_all
  with f \<open>0 < m0\<close> show ?thesis by simp
qed

section \<open>The text of a \<open>float64\<close>\<close>

text \<open>
  The verbs \<open>%e\<close> and \<open>%f\<close> with the digits \<open>ds\<close>, of which \<open>dp\<close> are before the point; the encoder takes
  \<open>%e\<close> below \<open>10 ^ -6\<close> and from \<open>10 ^ 21\<close> on, and drops the leading zero of its exponent.
\<close>

definition float_text :: "bool \<Rightarrow> rat \<Rightarrow> string" where
  "float_text neg x =
     (if x = 0 then literal neg ''0'' [] None
      else
        (let (m, k) = float_digits x; ds = Itoa m; dp = int (length ds) - k
         in if x < 1 / 10 ^ 6 \<or> x \<ge> 10 ^ 21 then literal neg [hd ds] (tl ds) (Some (dp - 1))
            else if dp \<le> 0 then literal neg ''0'' (replicate (nat (- dp)) (CHR ''0'') @ ds) None
            else if dp < int (length ds) then literal neg (take (nat dp) ds) (drop (nat dp) ds) None
            else literal neg (ds @ replicate (nat (- k)) (CHR ''0'')) [] None))"

lemma float_text_form:
  assumes "0 \<le> x" and "float64_abs x = x"
  obtains ip fp ex where "float_text neg x = literal neg ip fp ex" "proper ip fp"
    "float64_abs (of_nat (digits_value (ip @ fp)) * 10 powi ((case ex of None \<Rightarrow> 0 | Some e \<Rightarrow> e) - int (length fp))) = x"
proof (cases "x = 0")
  case True
  then show thesis
    by (intro that [of "''0''" "[]" None]) (simp_all add: float_text_def proper_def digit_def code_def digits_value_def float64_abs_def)
next
  case False
  obtain m k where mk: "float_digits x = (m, k)" by fastforce
  with float_digits_value [of x m k] assms False have m: "0 < m" "float64_abs (of_nat m * 10 powi (- k)) = x" by auto
  let ?ds = "Itoa m"
  let ?dp = "int (length ?ds) - k"
  have d: "list_all digit ?ds" by (rule Itoa_digits)
  have z: "list_all digit (replicate n (CHR ''0''))" for n by (simp add: list_all_iff digit_def code_def)
  have h: "?ds \<noteq> []" "hd ?ds \<noteq> CHR ''0''" using Itoa_no_zero [OF m(1)] by simp_all
  then obtain c cs where cs: "?ds = c # cs" "c \<noteq> CHR ''0''" by (cases ?ds) auto
  consider (exp) "x < 1 / 10 ^ 6 \<or> x \<ge> 10 ^ 21"
    | (below) "\<not> (x < 1 / 10 ^ 6 \<or> x \<ge> 10 ^ 21)" "?dp \<le> 0"
    | (inside) "\<not> (x < 1 / 10 ^ 6 \<or> x \<ge> 10 ^ 21)" "0 < ?dp" "?dp < int (length ?ds)"
    | (above) "\<not> (x < 1 / 10 ^ 6 \<or> x \<ge> 10 ^ 21)" "0 < ?dp" "int (length ?ds) \<le> ?dp" by linarith
  then show thesis
  proof cases
    case exp
    have "float_text neg x = literal neg [c] cs (Some (?dp - 1))"
      using False exp by (simp only: float_text_def mk Let_def prod.case if_False if_True cs list.sel)
    moreover have "?dp - 1 - int (length cs) = - k" using cs(1) by simp
    moreover have "digits_value ([c] @ cs) = m" using cs(1) digits_value_Itoa [of m] by simp
    ultimately show thesis using d cs m(2)
      by (intro that [of "[c]" cs "Some (?dp - 1)"]) (simp_all add: proper_def)
  next
    case below
    have "float_text neg x = literal neg ''0'' (replicate (nat (- ?dp)) (CHR ''0'') @ ?ds) None"
      using False below by (simp only: float_text_def mk Let_def prod.case if_False if_True)
    moreover have "digits_value (''0'' @ replicate (nat (- ?dp)) (CHR ''0'') @ ?ds) = m"
      using digits_value_leading [of "Suc (nat (- ?dp))" ?ds] by simp
    moreover have "0 - int (length (replicate (nat (- ?dp)) (CHR ''0'') @ ?ds)) = - k" using below(2) by simp
    ultimately show thesis using d z [of 1] z m(2)
      by (intro that [of "''0''" "replicate (nat (- ?dp)) (CHR ''0'') @ ?ds" None]) (simp_all add: proper_def)
  next
    case inside
    have "float_text neg x = literal neg (take (nat ?dp) ?ds) (drop (nat ?dp) ?ds) None"
      using inside(1,3) False
      by (simp only: float_text_def mk Let_def prod.case if_False if_True if_not_P [OF inside(2) [folded not_le]])
    moreover have "0 - int (length (drop (nat ?dp) ?ds)) = - k" using inside by simp
    moreover have "proper (take (nat ?dp) ?ds) (drop (nat ?dp) ?ds)"
    proof -
      have "list_all digit (take (nat ?dp) ?ds) \<and> list_all digit (drop (nat ?dp) ?ds)"
        using d by (metis append_take_drop_id list_all_append)
      moreover have "0 < nat ?dp" using inside(2) by simp
      then obtain n where "nat ?dp = Suc n" using gr0_implies_Suc by blast
      ultimately show ?thesis using cs by (simp add: proper_def)
    qed
    ultimately show thesis using m(2) by (intro that [of "take (nat ?dp) ?ds" "drop (nat ?dp) ?ds" None]) simp_all
  next
    case above
    have "float_text neg x = literal neg (?ds @ replicate (nat (- k)) (CHR ''0'')) [] None"
      using above(1) False
      by (simp only: float_text_def mk Let_def prod.case if_False if_True
          if_not_P [OF above(2) [folded not_le]] if_not_P [OF above(3) [folded not_less]])
    moreover have "(10 :: rat) ^ nat (- k) = 10 powi (- k)"
      using above(3) by (simp add: power_int_def)
    moreover have "proper (?ds @ replicate (nat (- k)) (CHR ''0'')) []"
      using d z cs by (auto simp: proper_def)
    ultimately show thesis using m(2)
      by (intro that [of "?ds @ replicate (nat (- k)) (CHR ''0'')" "[]" None]) (simp_all add: digits_value_zeros)
  qed
qed

text \<open>The text is a number of JSON, and is read back as the number it was made from.\<close>

definition float_ok :: "rat \<Rightarrow> bool" where
  "float_ok x \<longleftrightarrow> 0 \<le> x \<and> float64_abs x = x \<and> x < 2 ^ 1024"

lemma scan_float_text:
  assumes "float_ok x" and "ends_number s"
  shows "scan_number (float_text neg x @ s) = Some (float_text neg x, s)"
proof -
  obtain ip fp ex where "float_text neg x = literal neg ip fp ex" "proper ip fp"
    using float_text_form [of x neg] assms(1) unfolding float_ok_def by metis
  then show ?thesis using scan_literal [OF _ assms(2)] by simp
qed

lemma ParseFloat64_float_text:
  assumes "float_ok x"
  shows "ParseFloat64 (float_text neg x) = Some (if neg then - x else x)
    \<and> (take 1 (float_text neg x) = ''-'' \<longleftrightarrow> neg)"
proof -
  obtain ip fp ex where t: "float_text neg x = literal neg ip fp ex" "proper ip fp"
    and v: "float64_abs (of_nat (digits_value (ip @ fp)) * 10 powi ((case ex of None \<Rightarrow> 0 | Some e \<Rightarrow> e) - int (length fp))) = x"
    using float_text_form [of x neg] assms unfolding float_ok_def by metis
  let ?v = "of_nat (digits_value (ip @ fp)) * 10 powi ((case ex of None \<Rightarrow> 0 | Some e \<Rightarrow> e) - int (length fp)) :: rat"
  have n: "num_value (float_text neg x) = (if neg then - ?v else ?v)"
    unfolding t(1) value_literal [OF t(2)] Let_def by simp
  have w: "\<bar>if neg then - w else w\<bar> = w" "(if neg then - w else w) < 0 \<longleftrightarrow> neg \<and> w \<noteq> 0" if "0 \<le> w" for w :: rat
    using that by auto
  have "0 \<le> ?v" by simp
  note w = w [OF this]
  have "x = 0" if "?v = 0" using v that unfolding that by (simp add: float64_abs_def)
  then have "ParseFloat64 (float_text neg x) = Some (if neg then - x else x)"
    using assms unfolding ParseFloat64_def Let_def n w v float_ok_def by (cases "?v = 0") (simp_all only:, auto)
  moreover have "take 1 (literal neg ip fp ex) = ''-'' \<longleftrightarrow> neg"
    using t(2) digit_not by (cases ip) (auto simp: literal_def proper_def)
  ultimately show ?thesis by (simp add: t(1))
qed

lemma ParseFloat64_ok: "ParseFloat64 lit = Some x \<Longrightarrow> float_ok \<bar>x\<bar>"
  using float64_abs_nonneg [of "\<bar>num_value lit\<bar>"]
  by (auto simp: ParseFloat64_def Let_def float_ok_def split: if_splits)

end
