(* ===== verification/Primetime.thy ===== *)
theory Primetime
  imports Go_JSON Go_IO "HOL-Library.Signed_Division"
begin

text \<open>
  \<^verbatim>\<open>primetime/server.go\<close>: the server that is asked in JSON whether numbers are prime. An \<open>int\<close> is a
  word of 64 bits that is read as signed, and its arithmetic wraps; a \<open>float64\<close> is its value, a
  rational number.
\<close>

section \<open>Primality\<close>

text \<open>\<open>n%i\<close>, with the sign of \<open>n\<close>.\<close>

definition smod64 :: "64 word \<Rightarrow> 64 word \<Rightarrow> 64 word" where
  "smod64 n i = word_of_int (sint n smod sint i)"

text \<open>\<^const>\<open>None\<close> is a loop that does not end.\<close>

partial_function (option) isPrime_loop :: "64 word \<Rightarrow> 64 word \<Rightarrow> (go_panic + bool) option" where
  "isPrime_loop n i =
     (if i * i <=s n
      then (if i = 0 then Some (Inl IntegerDivideByZero)
            else if smod64 n i = 0 then Some (Inr False)
            else isPrime_loop n (i + 1))
      else Some (Inr True))"

definition isPrime :: "64 word \<Rightarrow> (go_panic + bool) option" where
  "isPrime n = (if n <=s 1 then Some (Inr False) else isPrime_loop n 2)"

section \<open>A request\<close>

record step_one_request =
  Method :: string
  Number :: "rat option"

definition store_step_one :: "string \<Rightarrow> json \<Rightarrow> step_one_request \<Rightarrow> step_one_request \<times> bool" where
  "store_step_one k v r =
     (if fold_name k = fold_name ''method''
      then (let (m, e) = store_string v (Method r) in (r\<lparr>Method := m\<rparr>, e))
      else if fold_name k = fold_name ''number''
      then (case v of
              JNull \<Rightarrow> (r\<lparr>Number := None\<rparr>, False)
            | JNum lit \<Rightarrow>
                (case ParseFloat64 lit of
                   Some x \<Rightarrow> (r\<lparr>Number := Some x\<rparr>, False)
                 | None \<Rightarrow> (r\<lparr>Number := Some 0\<rparr>, True))
            | _ \<Rightarrow> (r, True))
      else (r, False))"

text \<open>
  \<open>int(x)\<close> of a \<open>float64\<close> truncates; what it gives for a value that does not fit is left to the
  implementation by the Go specification: the parameter \<open>ovf\<close>.
\<close>

definition truncate_rat :: "rat \<Rightarrow> int" where
  "truncate_rat x = (if 0 \<le> x then \<lfloor>x\<rfloor> else - \<lfloor>- x\<rfloor>)"

definition int_of_float :: "(rat \<Rightarrow> 64 word) \<Rightarrow> rat \<Rightarrow> 64 word" where
  "int_of_float ovf x =
     (let t = truncate_rat x in if - (2 ^ 63) \<le> t \<and> t < 2 ^ 63 then word_of_int t else ovf x)"

definition float_of_int :: "64 word \<Rightarrow> rat" where
  "float_of_int n = (let v = float64 (of_int \<bar>sint n\<bar>) in if sint n < 0 then - v else v)"

datatype step_one_error =
    CouldNotParse json_error
  | UnsupportedMethod string
  | NoMethod
  | NilNumber

text \<open>\<open>json.Marshal(responseData)\<close>\<close>

definition step_one_response :: "bool \<Rightarrow> string" where
  "step_one_response b =
     ''{'' @ quoted ''method'' @ '':'' @ quoted ''isPrime'' @ '','' @ quoted ''prime'' @ '':''
     @ (if b then ''true'' else ''false'') @ ''}''"

definition handle_step_one ::
  "(rat \<Rightarrow> 64 word) \<Rightarrow> string \<Rightarrow> (go_panic + step_one_error + string) option" where
  "handle_step_one ovf request =
     (case Unmarshal_json store_step_one request \<lparr>Method = [], Number = None\<rparr> of
        (r, Some err) \<Rightarrow> Some (Inr (Inl (CouldNotParse err)))
      | (r, None) \<Rightarrow>
          (if Method r \<noteq> ''isPrime''
           then Some (Inr (Inl (if Method r \<noteq> [] then UnsupportedMethod (Method r) else NoMethod)))
           else (case Number r of
                   None \<Rightarrow> Some (Inr (Inl NilNumber))
                 | Some x \<Rightarrow>
                     (if x = float_of_int (int_of_float ovf x)
                      then (case isPrime (int_of_float ovf x) of
                              None \<Rightarrow> None
                            | Some (Inl p) \<Rightarrow> Some (Inl p)
                            | Some (Inr b) \<Rightarrow> Some (Inr (Inr (step_one_response b))))
                      else Some (Inr (Inr (step_one_response False)))))))"

section \<open>The handler\<close>

text \<open>\<open>NewLineWriter.Write\<close>: the writes it makes, when the first one has the result \<open>err\<close>.\<close>

definition NewLineWriter_Write :: "go_error option \<Rightarrow> string \<Rightarrow> string list" where
  "NewLineWriter_Write err p = (if err \<noteq> None then [p] else [p, [LF]])"

datatype primetime_result = Closed | ReadError go_error | RequestError step_one_error | Panic go_panic

text \<open>
  The loop over the lines of the client, whose connection ends with \<open>e\<close>, while its writes succeed:
  what it writes, and how it ends.
\<close>

fun primetime_lines ::
  "(rat \<Rightarrow> 64 word) \<Rightarrow> go_error \<Rightarrow> string list \<Rightarrow> (string list \<times> primetime_result) option" where
  "primetime_lines ovf e [] = Some ([], if e = EOF then Closed else ReadError e)"
| "primetime_lines ovf e (l # ls) =
     (case handle_step_one ovf l of
        None \<Rightarrow> None
      | Some (Inl p) \<Rightarrow> Some ([], Panic p)
      | Some (Inr (Inl err)) \<Rightarrow> Some ([''bye, bye'' @ [LF]], RequestError err)
      | Some (Inr (Inr data)) \<Rightarrow>
          map_option (\<lambda>(ws, r). (NewLineWriter_Write None data @ ws, r)) (primetime_lines ovf e ls))"

definition primetime_Handler ::
  "(rat \<Rightarrow> 64 word) \<Rightarrow> go_error \<Rightarrow> string \<Rightarrow> (string list \<times> primetime_result) option" where
  "primetime_Handler ovf e input = primetime_lines ovf e (lines_of LF input)"

section \<open>The loop of \<open>isPrime\<close>\<close>

definition is_prime :: "int \<Rightarrow> bool" where
  "is_prime n \<longleftrightarrow> 1 < n \<and> (\<forall>d. 1 < d \<and> d < n \<longrightarrow> \<not> d dvd n)"

lemma sint64: "- (2 ^ 63) \<le> k \<Longrightarrow> k < 2 ^ 63 \<Longrightarrow> sint (word_of_int k :: 64 word) = k"
  by (simp add: sint_sbintrunc' signed_take_bit_int_eq_self)

lemma sint64_bounds: "- (2 ^ 63) \<le> sint (n :: 64 word)" "sint (n :: 64 word) < 2 ^ 63"
  using sint_greater_eq [of n] sint_lt [of n] by simp_all

lemma word_of_int_eq_0: "- (2 ^ 63) \<le> k \<Longrightarrow> k < 2 ^ 63 \<Longrightarrow> (word_of_int k :: 64 word) = 0 \<longleftrightarrow> k = 0"
  by (metis sint64 signed_0 of_int_0)

lemma smod64_eq_0:
  assumes "0 \<le> sint n" and "0 < k" "k < 2 ^ 63"
  shows "smod64 n (word_of_int k) = 0 \<longleftrightarrow> k dvd sint n"
proof -
  have s: "sint (word_of_int k :: 64 word) = k" using assms by (intro sint64) auto
  have "sint n smod k = sint n mod k" using assms by (simp add: smod_mod_positive)
  moreover have "0 \<le> sint n mod k" "sint n mod k < k" using assms by simp_all
  moreover from this have "(word_of_int (sint n mod k) :: 64 word) = 0 \<longleftrightarrow> sint n mod k = 0"
    using assms(3) by (intro word_of_int_eq_0) linarith+
  ultimately show ?thesis by (simp add: smod64_def s dvd_eq_mod_eq_0)
qed

lemma square_word:
  assumes "0 \<le> k" and "k * k < 2 ^ 63"
  shows "(word_of_int k * word_of_int k :: 64 word) <=s n \<longleftrightarrow> k * k \<le> sint n"
proof -
  have "sint (word_of_int (k * k) :: 64 word) = k * k"
    using assms mult_nonneg_nonneg [of k k] by (intro sint64) linarith+
  then show ?thesis by (simp add: word_sle_eq)
qed

lemma small_divisor:
  assumes "1 < n" and "d dvd n" "1 < d" "d < n"
  shows "\<exists>c. c dvd n \<and> 1 < c \<and> c * c \<le> (n :: int)"
proof -
  from assms(2) obtain e where e: "n = d * e" by auto
  have "0 < e" using zero_less_mult_pos [of d e] e assms by simp
  moreover have "e \<noteq> 1" using e assms by auto
  ultimately have "1 < e" by simp
  show ?thesis
  proof (cases "d \<le> e")
    case True
    then have "d * d \<le> d * e" using assms by (intro mult_left_mono) auto
    with e assms show ?thesis by blast
  next
    case False
    then have "e * e \<le> d * e" using \<open>1 < e\<close> by (intro mult_right_mono) auto
    with e \<open>1 < e\<close> show ?thesis by (intro exI [of _ e]) auto
  qed
qed

lemma no_small_divisor:
  assumes "1 < n" and "\<forall>d. 1 < d \<and> d < k \<longrightarrow> \<not> d dvd n" and "n < k * k" and "0 \<le> k"
  shows "is_prime n"
  unfolding is_prime_def
proof (intro conjI allI impI notI)
  show "1 < n" by (rule assms(1))
  fix d
  assume d: "1 < d \<and> d < n" "d dvd n"
  then obtain c where c: "c dvd n" "1 < c" "c * c \<le> n" using small_divisor [of n d] assms(1) by blast
  then have "c * c < k * k" using assms(3) by simp
  have "c < k"
  proof (rule ccontr)
    assume "\<not> c < k"
    then have "k * k \<le> c * c" using assms(4) by (intro mult_mono) auto
    with \<open>c * c < k * k\<close> show False by simp
  qed
  with c assms(2) show False by blast
qed

lemma isPrime_loop_ends:
  assumes "1 < sint n" and "sint n < 2 ^ 62" and "1 < k" and "(k - 1) * (k - 1) \<le> sint n"
    and "\<forall>d. 1 < d \<and> d < k \<longrightarrow> \<not> d dvd sint n"
  shows "isPrime_loop n (word_of_int k) = Some (Inr (is_prime (sint n)))"
  using assms
proof (induction "nat (sint n + 2 - k)" arbitrary: k rule: less_induct)
  case less
  have k31: "k - 1 < 2 ^ 31"
  proof (rule ccontr)
    assume "\<not> k - 1 < 2 ^ 31"
    then have "(2 ^ 31) * (2 ^ 31) \<le> (k - 1) * (k - 1)" by (intro mult_mono) auto
    with less.prems show False by simp
  qed
  then have "k \<le> 2 ^ 31" by simp
  then have "k * k \<le> 2 ^ 31 * 2 ^ 31" using less.prems(3) by (intro mult_mono) auto
  then have kk: "k * k < 2 ^ 63" by simp
  have sq: "(word_of_int k * word_of_int k :: 64 word) <=s n \<longleftrightarrow> k * k \<le> sint n"
    using less.prems kk by (intro square_word) auto
  have k0: "(word_of_int k :: 64 word) \<noteq> 0" "0 < k" "k < 2 ^ 63"
    using word_of_int_eq_0 [of k] less.prems k31 by auto
  show ?case
  proof (cases "k * k \<le> sint n")
    case False
    with sq have "isPrime_loop n (word_of_int k) = Some (Inr True)"
      by (simp add: isPrime_loop.simps [of n "word_of_int k"])
    moreover have "is_prime (sint n)"
      using False less.prems by (intro no_small_divisor [of _ k]) auto
    ultimately show ?thesis by simp
  next
    case True
    show ?thesis
    proof (cases "k dvd sint n")
      case dv: True
      have "k < k * k" using less.prems(3) by simp
      with True have "k < sint n" by linarith
      with dv less.prems have "\<not> is_prime (sint n)" by (auto simp: is_prime_def)
      with True dv sq k0 less.prems show ?thesis
        by (simp add: isPrime_loop.simps [of n "word_of_int k"] smod64_eq_0)
    next
      case dv: False
      have "isPrime_loop n (word_of_int k) = isPrime_loop n (word_of_int k + 1)"
        using True dv sq k0 less.prems
        by (simp add: isPrime_loop.simps [of n "word_of_int k"] smod64_eq_0)
      moreover have "(word_of_int k + 1 :: 64 word) = word_of_int (k + 1)" by simp
      moreover have "isPrime_loop n (word_of_int (k + 1)) = Some (Inr (is_prime (sint n)))"
      proof (rule less.hyps)
        have "k \<le> k * k" using less.prems(3) by simp
        with True have "k \<le> sint n" by linarith
        then show "nat (sint n + 2 - (k + 1)) < nat (sint n + 2 - k)" by simp
        show "\<forall>d. 1 < d \<and> d < k + 1 \<longrightarrow> \<not> d dvd sint n"
        proof (intro allI impI)
          fix d
          assume "1 < d \<and> d < k + 1"
          then show "\<not> d dvd sint n" using dv less.prems(5) by (cases "d = k") auto
        qed
        show "(k + 1 - 1) * (k + 1 - 1) \<le> sint n" unfolding add_diff_cancel_right' by (rule True)
        show "1 < k + 1" using less.prems(3) by simp
      qed (rule less.prems(1), rule less.prems(2))
      ultimately show ?thesis by (simp only:)
    qed
  qed
qed

end
