(* ===== verification/Primetime_Props.thy ===== *)
theory Primetime_Props
  imports Primetime
begin

text \<open>
  The answers of the prime server are right for every number a request can contain, although the
  square in the loop of \<open>isPrime\<close> can overflow: from 2^53 on a \<open>float64\<close> is an integer, and from
  2^54 on an even one.
\<close>

section \<open>\<open>isPrime\<close>\<close>

lemma isPrime_small: "sint n < 2 ^ 62 \<Longrightarrow> isPrime n = Some (Inr (is_prime (sint n)))"
proof (cases "1 < sint n")
  case True
  assume "sint n < 2 ^ 62"
  with True have "isPrime_loop n (word_of_int 2) = Some (Inr (is_prime (sint n)))"
    by (intro isPrime_loop_ends) auto
  with True show ?thesis by (simp add: isPrime_def word_sle_eq)
next
  case False
  then show ?thesis by (simp add: isPrime_def word_sle_eq is_prime_def)
qed

lemma isPrime_loop_next:
  assumes "1 < k" and "k < 2 ^ 31" and "k * k \<le> sint n"
  shows "isPrime_loop n (word_of_int k) =
    (if k dvd sint n then Some (Inr False) else isPrime_loop n (word_of_int (k + 1)))"
proof -
  have "k * k \<le> 2 ^ 31 * 2 ^ 31" using assms by (intro mult_mono) auto
  then have "(word_of_int k * word_of_int k :: 64 word) <=s n"
    using assms square_word [of k n] by simp
  moreover have "(word_of_int k :: 64 word) \<noteq> 0" using assms word_of_int_eq_0 [of k] by auto
  moreover have "0 \<le> sint n" using assms mult_nonneg_nonneg [of k k] by linarith
  ultimately show ?thesis
    using assms by (simp add: isPrime_loop.simps [of n "word_of_int k"] smod64_eq_0)
qed

lemma isPrime_even:
  assumes "even (sint n)" and "2 < sint n"
  shows "isPrime n = Some (Inr False)"
proof -
  have "4 \<le> sint n" using assms by presburger
  then have "isPrime_loop n (word_of_int 2) = Some (Inr False)"
    using isPrime_loop_next [of 2 n] assms by simp
  with assms show ?thesis by (simp add: isPrime_def word_sle_eq)
qed

lemma isPrime_max:
  assumes "sint n = 2 ^ 63 - 1"
  shows "isPrime n = Some (Inr False)"
proof -
  have l: "isPrime_loop n (word_of_int k) = isPrime_loop n (word_of_int (k + 1))" if "k \<in> {2, 3, 4, 5, 6}" for k
    using isPrime_loop_next [of k n] that assms by auto
  have "isPrime_loop n (word_of_int 7) = Some (Inr False)"
    using isPrime_loop_next [of 7 n] assms by simp
  with l [of 2] l [of 3] l [of 4] l [of 5] l [of 6] show ?thesis
    by (simp add: isPrime_def word_sle_eq assms)
qed

section \<open>Numbers of requests\<close>

definition representable :: "rat \<Rightarrow> bool" where
  "representable x \<longleftrightarrow> (\<exists>(m :: int) e. 0 \<le> m \<and> m \<le> 2 ^ 53 \<and> \<bar>x\<bar> = of_int m * 2 powi e)"

lemma float64_abs_representable: "representable (float64_abs x)"
proof (cases "0 < x")
  case True
  define e where "e = max (expo x - 52) (- 1074)"
  define m where "m = round_half_even (x / 2 powi e)"
  have P: "(0 :: rat) < 2 powi e" by simp
  have "expo x + 1 \<le> 53 + e" by (simp add: e_def)
  then have "(2 :: rat) powi (expo x + 1) \<le> 2 powi (53 + e)" by (rule powi_le_powiI)
  with expo_bounds [OF True] have "x \<le> 2 powi (53 + e)" by linarith
  also have "(2 :: rat) powi (53 + e) = 2 ^ 53 * 2 powi e" by (simp add: power_int_add)
  finally have "x / 2 powi e \<le> of_int (2 ^ 53)" using P by (simp add: divide_le_eq)
  then have "m \<le> 2 ^ 53" unfolding m_def by (metis round_half_even_int round_half_even_mono)
  moreover have "0 \<le> m"
    unfolding m_def using True round_half_even_mono [of 0 "x / 2 powi e"] round_half_even_int [of 0] by simp
  moreover have "float64_abs x = of_int m * 2 powi e"
    using True by (simp add: float64_abs_def e_def m_def Let_def)
  ultimately show ?thesis unfolding representable_def by (metis P abs_of_nonneg less_imp_le mult_nonneg_nonneg of_int_0_le_iff)
next
  case False
  then show ?thesis by (auto simp: representable_def float64_abs_def intro!: exI [of _ 0])
qed

lemma representable_minus [simp]: "representable (- x) \<longleftrightarrow> representable x"
  by (simp add: representable_def)

lemma ParseFloat64_representable: "ParseFloat64 lit = Some x \<Longrightarrow> representable x"
  by (auto simp: ParseFloat64_def Let_def float64_abs_representable split: if_splits)

text \<open>A representable number that is large is an integer, and an even one.\<close>

lemma powi_split: "0 \<le> e \<Longrightarrow> (2 :: rat) powi e = of_int (2 ^ nat e)"
  by (simp add: power_int_def)

lemma representable_cases:
  assumes "representable x"
  obtains (fraction) "\<bar>x\<bar> < 2 ^ 53" "x \<notin> \<int>" | (small) n where "x = of_int n" "\<bar>n\<bar> < 2 ^ 62"
    | (large) n where "x = of_int n" "2 ^ 62 \<le> \<bar>n\<bar>" "even n"
proof -
  obtain m e where m: "0 \<le> m" "m \<le> 2 ^ 53" and x: "\<bar>x\<bar> = of_int m * 2 powi e"
    using assms by (auto simp: representable_def)
  show thesis
  proof (cases "x \<in> \<int>")
    case False
    have "e < 0"
    proof (rule ccontr)
      assume "\<not> e < 0"
      then have "\<bar>x\<bar> = of_int (m * 2 ^ nat e)" using x powi_split [of e] by simp
      then have "\<bar>x\<bar> \<in> \<int>" by (metis Ints_of_int)
      with False show False by (metis Ints_minus abs_if minus_minus)
    qed
    then have "(2 :: rat) powi e \<le> 2 powi (- 1)" by (intro powi_le_powiI) simp
    moreover have "(2 :: rat) powi (- 1) = 1 / 2" by (simp add: power_int_minus)
    ultimately have "(2 :: rat) powi e \<le> 1 / 2" by simp
    then have "\<bar>x\<bar> \<le> of_int m * (1 / 2)" unfolding x using m(1) by (intro mult_left_mono) auto
    also have "\<dots> \<le> 2 ^ 53 * (1 / 2)" using m(2) of_int_le_iff [of m "2 ^ 53", where 'a = rat] by simp
    finally have "\<bar>x\<bar> < 2 ^ 53" by simp
    with False fraction show thesis by blast
  next
    case True
    then obtain n where n: "x = of_int n" by (auto elim: Ints_cases)
    show thesis
    proof (cases "\<bar>n\<bar> < 2 ^ 62")
      case True
      with n small show thesis by blast
    next
      case large': False
      have "8 < e"
      proof (rule ccontr)
        assume "\<not> 8 < e"
        then have "(2 :: rat) powi e \<le> 2 powi 8" by (intro powi_le_powiI) simp
        then have "of_int m * (2 :: rat) powi e \<le> 2 ^ 53 * 2 powi 8"
          using m of_int_le_iff [of m "2 ^ 53", where 'a = rat] by (intro mult_mono) auto
        with x n have "of_int \<bar>n\<bar> \<le> (of_int (2 ^ 61) :: rat)" by simp
        then have "\<bar>n\<bar> \<le> 2 ^ 61" by (simp only: of_int_le_iff)
        with large' show False by simp
      qed
      then have "of_int \<bar>n\<bar> = (of_int (m * 2 ^ nat e) :: rat)" using x n powi_split [of e] by simp
      then have "\<bar>n\<bar> = m * 2 ^ nat e" by (simp only: of_int_eq_iff)
      moreover have "nat e \<noteq> 0" using \<open>8 < e\<close> by simp
      ultimately have "even \<bar>n\<bar>" by simp
      with n large' large show thesis by simp
    qed
  qed
qed

text \<open>A representable number is its own rounding.\<close>

lemma fl_scaled:
  assumes "0 < m" and "m < 2 ^ p"
  shows "fl p (of_int m * 2 powi e) = of_int m * 2 powi e"
proof -
  let ?v = "of_int m * 2 powi e :: rat"
  have v: "0 < ?v" using assms by simp
  have "(of_int m :: rat) < of_int (2 ^ p)" using assms by (simp only: of_int_less_iff)
  then have "?v < 2 ^ p * 2 powi e" by simp
  also have "(2 :: rat) ^ p * 2 powi e = 2 powi (int p + e)" by (simp add: power_int_add)
  finally have "2 powi expo ?v < (2 :: rat) powi (int p + e)" using expo_bounds [OF v] by linarith
  then have d: "expo ?v < int p + e" by (simp add: powi_le_iff flip: linorder_not_le)
  define E where "E = expo ?v - int p + 1"
  define k where "k = nat (e - E)"
  have e: "e = E + int k" using d by (simp add: k_def E_def)
  have s: "?v = of_int (m * 2 ^ k) * 2 powi E" unfolding e by (simp add: power_int_add)
  have "?v / 2 powi E = of_int (m * 2 ^ k) * 2 powi E / 2 powi E" by (subst s) (rule refl)
  then have "?v / 2 powi E = of_int (m * 2 ^ k)" by simp
  then have q: "round_half_even (?v / 2 powi E) = m * 2 ^ k" by (simp only: round_half_even_int)
  have "fl p ?v = of_int (round_half_even (?v / 2 powi E)) * 2 powi E"
    using v by (simp add: fl_def Let_def E_def)
  then show ?thesis unfolding q s [symmetric] .
qed

lemma fl_representable:
  assumes "representable x"
  shows "float64 \<bar>x\<bar> = \<bar>x\<bar>"
proof -
  obtain m e where m: "0 \<le> m" "m \<le> 2 ^ 53" and x: "\<bar>x\<bar> = of_int m * 2 powi e"
    using assms by (auto simp: representable_def)
  consider "m = 0" | "0 < m" "m < 2 ^ 53" | "m = 2 ^ 53" using m by fastforce
  then show ?thesis
  proof cases
    case 1
    then show ?thesis using x by (simp add: float64_def fl_def)
  next
    case 2
    then show ?thesis unfolding x float64_def by (rule fl_scaled)
  next
    case 3
    have "\<bar>x\<bar> = of_int (2 ^ 52) * 2 powi (e + 1)" using x 3 by (simp add: power_int_add)
    then show ?thesis using fl_scaled [of "2 ^ 52" 53 "e + 1"] by (simp add: float64_def)
  qed
qed

section \<open>Answers\<close>

lemma float_of_int_exact:
  assumes "representable (of_int t)" and "- (2 ^ 63) \<le> t" "t < 2 ^ 63"
  shows "float_of_int (word_of_int t) = of_int t"
  using fl_representable [OF assms(1)] sint64 [OF assms(2,3)] by (simp add: float_of_int_def Let_def)

lemma representable_of_int: "\<bar>t\<bar> \<le> 2 ^ 53 \<Longrightarrow> representable (of_int t)"
  unfolding representable_def by (intro exI [of _ "\<bar>t\<bar>"] exI [of _ 0]) simp

lemma truncate_of_int [simp]: "truncate_rat (of_int n) = n"
  by (simp add: truncate_rat_def)

lemma truncate_bound: "\<bar>of_int (truncate_rat x)\<bar> \<le> \<bar>x\<bar>"
proof (cases "0 \<le> x")
  case True
  then have "0 \<le> \<lfloor>x\<rfloor>" "of_int \<lfloor>x\<rfloor> \<le> x" by simp_all
  with True show ?thesis by (simp add: truncate_rat_def)
next
  case False
  then have "0 \<le> \<lfloor>- x\<rfloor>" "of_int \<lfloor>- x\<rfloor> \<le> - x" by (simp, linarith)
  with False show ?thesis by (simp add: truncate_rat_def)
qed

text \<open>The number that is asked about: \<open>float64(int(x)) == x\<close>, and then \<open>isPrime(int(x))\<close>.\<close>

definition answer :: "(rat \<Rightarrow> 64 word) \<Rightarrow> rat \<Rightarrow> (go_panic + bool) option" where
  "answer ovf x = (if x = float_of_int (int_of_float ovf x) then isPrime (int_of_float ovf x) else Some (Inr False))"

lemma answer_correct:
  assumes ovf: "ovf x = word_of_int (- (2 ^ 63)) \<or> ovf x = word_of_int (2 ^ 63 - 1)" and r: "representable x"
  shows "answer ovf x = Some (Inr (\<exists>n. x = of_int n \<and> is_prime n))"
  using r
proof (cases x rule: representable_cases)
  case fraction
  let ?t = "truncate_rat x"
  have "of_int \<bar>?t\<bar> < (of_int (2 ^ 53) :: rat)" using truncate_bound [of x] fraction(1) by simp
  then have t: "\<bar>?t\<bar> < 2 ^ 53" by (simp only: of_int_less_iff)
  then have "- (2 ^ 63) \<le> ?t" "?t < 2 ^ 63" by (auto simp: abs_less_iff)
  then have "int_of_float ovf x = word_of_int ?t" by (simp add: int_of_float_def Let_def)
  moreover have "float_of_int (word_of_int ?t) = of_int ?t"
    using t by (intro float_of_int_exact representable_of_int) auto
  moreover have "x \<noteq> of_int ?t" using fraction(2) by (metis Ints_of_int)
  ultimately show ?thesis using fraction(2) by (auto simp: answer_def)
next
  case (small n)
  then have "- (2 ^ 63) \<le> n" "n < 2 ^ 63" by (auto simp: abs_less_iff)
  with small have "int_of_float ovf x = word_of_int n" by (simp add: int_of_float_def Let_def)
  moreover have "float_of_int (word_of_int n) = of_int n"
    using r small by (intro float_of_int_exact) auto
  moreover have "sint (word_of_int n :: 64 word) = n" using small by (intro sint64) auto
  ultimately show ?thesis using small isPrime_small [of "word_of_int n"] by (simp add: answer_def)
next
  case (large n)
  have np: "\<not> (\<exists>m. x = of_int m \<and> is_prime m)"
  proof
    assume "\<exists>m. x = of_int m \<and> is_prime m"
    then have "is_prime n" using large by auto
    then show False using large by (auto simp: is_prime_def dest: spec [of _ 2])
  qed
  have "isPrime (int_of_float ovf x) = Some (Inr False)"
  proof (cases "- (2 ^ 63) \<le> n \<and> n < 2 ^ 63")
    case True
    then have i: "int_of_float ovf x = word_of_int n" "sint (word_of_int n :: 64 word) = n"
      using large sint64 [of n] by (simp_all add: int_of_float_def Let_def)
    show ?thesis
    proof (cases "2 < n")
      case True
      with i large isPrime_even [of "word_of_int n"] show ?thesis by simp
    next
      case False
      with large have "n \<le> 1" by (auto simp: abs_if split: if_splits)
      with i isPrime_small [of "word_of_int n"] show ?thesis by (simp add: is_prime_def)
    qed
  next
    case False
    then have i: "int_of_float ovf x = ovf x" using large by (auto simp: int_of_float_def Let_def)
    from ovf show ?thesis
    proof
      assume o: "ovf x = word_of_int (- (2 ^ 63))"
      then have "sint (ovf x) = - (2 ^ 63)" using sint64 [of "- (2 ^ 63)"] by simp
      with i isPrime_small [of "ovf x"] show ?thesis by (simp add: is_prime_def)
    next
      assume o: "ovf x = word_of_int (2 ^ 63 - 1)"
      then have "sint (ovf x) = 2 ^ 63 - 1" using sint64 [of "2 ^ 63 - 1"] by simp
      with i isPrime_max show ?thesis by simp
    qed
  qed
  with np show ?thesis by (auto simp: answer_def)
qed

text \<open>A number that has been stored is one that was parsed.\<close>

lemma store_representable:
  "store_members store_step_one ms r = (r', False) \<Longrightarrow> (\<And>x. Number r = Some x \<Longrightarrow> representable x) \<Longrightarrow>
   Number r' = Some x \<Longrightarrow> representable x"
proof (induction ms arbitrary: r)
  case Nil
  then show ?case by auto
next
  case (Cons m ms)
  obtain k v where m: "m = (k, v)" by fastforce
  obtain r1 e1 where 1: "store_step_one k v r = (r1, e1)" by fastforce
  with Cons.prems(1) m have 2: "store_members store_step_one ms r1 = (r', False)" "\<not> e1"
    by (auto split: prod.splits)
  have "representable y" if "Number r1 = Some y" for y
    using 1 2(2) that Cons.prems(2) ParseFloat64_representable
    by (auto simp: store_step_one_def Let_def split: if_splits json.splits option.splits prod.splits)
  from Cons.IH [OF 2(1) this Cons.prems(3)] show ?case .
qed

text \<open>
  C12: A request of the method isPrime for a number is answered, without a panic and after a finite
  loop, with the truth about the number: it is an integer and a prime. This is so for every number
  that a JSON text can contain, whatever its size, on a machine on which the conversion of a number
  that does not fit gives the least or the greatest \<open>int\<close> (as on amd64 and on arm64).
\<close>

theorem prime_requests_are_answered:
  assumes "\<forall>x. ovf x = word_of_int (- (2 ^ 63)) \<or> ovf x = word_of_int (2 ^ 63 - 1)"
    and "Unmarshal_json store_step_one request \<lparr>Method = [], Number = None\<rparr>
      = (\<lparr>Method = ''isPrime'', Number = Some x\<rparr>, None)"
  shows "handle_step_one ovf request
    = Some (Inr (Inr (step_one_response (\<exists>n. x = of_int n \<and> is_prime n))))"
proof -
  have "representable x"
    using assms(2) store_representable [of _ "\<lparr>Method = [], Number = None\<rparr>" "\<lparr>Method = ''isPrime'', Number = Some x\<rparr>" x]
    by (auto simp: Unmarshal_json_def Let_def split: option.splits json.splits prod.splits if_splits)
  with assms(1) have a: "answer ovf x = Some (Inr (\<exists>n. x = of_int n \<and> is_prime n))" by (simp add: answer_correct)
  define b where "b = (\<exists>n. x = of_int n \<and> is_prime n)"
  show ?thesis
    using a unfolding b_def [symmetric]
    by (auto simp: handle_step_one_def assms(2) answer_def split: if_splits)
qed

definition ex_request :: string where
  "ex_request = ''{'' @ quoted ''number'' @ '':1e1, '' @ quoted ''Method'' @ '':'' @ quoted ''isPrime'' @ '',''
     @ quoted ''number'' @ '':7.00}'' @ [LF]"

lemma ex_request_lex: "lex_json ex_request = Some [LBrace, Scalar (JStr ''number''), Colon, Scalar (JNum ''1e1''),
   Comma, Scalar (JStr ''Method''), Colon, Scalar (JStr ''isPrime''), Comma, Scalar (JStr ''number''), Colon, 
   Scalar (JNum ''7.00''), RBrace]"
  by (simp add: ex_request_def quoted_def json_space_def LF_def code_def digit_def scan_number_def scan_int_def scan_frac_def scan_exp_def
     leading_def getu4_def)

lemma float64_abs_of_nat:
  assumes "0 < m" and "m < 2 ^ 53"
  shows "float64_abs (of_nat m) = of_nat m"
proof -
  have "expo 1 = 0" by (rule expo_unique) simp_all
  with expo_mono [of 1 "of_nat m"] assms have "0 \<le> expo (of_nat m)" by simp
  then have "float64_abs (of_nat m) = fl 53 (of_nat m)"
    using assms by (simp add: float64_abs_def fl_def Let_def max_def)
  with fl_of_nat [of m 53] assms show ?thesis by simp
qed

lemma ex_request_numbers: "ParseFloat64 ''1e1'' = Some 10" "ParseFloat64 ''7.00'' = Some 7"
proof -
  have v: "num_value ''1e1'' = of_nat 10" "num_value ''7.00'' = of_nat 7"
    by (simp_all add: num_value_def digits_value_def exp_value_def code_def Let_def power_int_minus)
  have f: "float64_abs (of_nat 10) = of_nat 10" "float64_abs (of_nat 7) = of_nat 7"
    by (rule float64_abs_of_nat; simp)+
  show "ParseFloat64 ''1e1'' = Some 10" "ParseFloat64 ''7.00'' = Some 7"
    using f by (simp_all add: ParseFloat64_def v Let_def)
qed

lemma ex_request_parse: "Unmarshal_json store_step_one ex_request \<lparr>Method = [], Number = None\<rparr>
      = (\<lparr>Method = ''isPrime'', Number = Some 7\<rparr>, None)"
proof -
  have "parse_json ex_request = Some (JObj [(''number'', JNum ''1e1''), (''Method'', JStr ''isPrime''),
      (''number'', JNum ''7.00'')])"
    by (simp add: parse_json_def ex_request_lex value_token_def key_token_def maxNestingDepth_def)
  moreover have "fold_name ''Method'' = fold_name ''method''" "fold_name ''number'' \<noteq> fold_name ''method''"
    by (simp_all add: fold_name_def runes.simps code_def fold_rune_def Let_def)
  ultimately show ?thesis
    by (simp add: Unmarshal_json_def store_step_one_def store_string_def ex_request_numbers Let_def)
qed

theorem prime_requests_are_answered_witness:
  "handle_step_one (\<lambda>x. word_of_int (- (2 ^ 63))) ex_request = Some (Inr (Inr (step_one_response True)))"
proof -
  have "is_prime 7"
  proof -
    have "\<not> d dvd 7" if "1 < d" "d < 7" for d :: int
    proof -
      have "d \<in> {2, 3, 4, 5, 6}" using that by auto
      then show ?thesis by auto
    qed
    then show ?thesis by (simp add: is_prime_def)
  qed
  then have p: "(\<exists>n. 7 = (of_int n :: rat) \<and> is_prime n) = True" by (auto intro: exI [of _ 7])
  show ?thesis
    using prime_requests_are_answered [OF _ ex_request_parse, of "\<lambda>x. word_of_int (- (2 ^ 63))"] unfolding p by simp
qed

text \<open>
  C24: \<open>isPrime\<close> is right, and its loop ends, for every \<open>int\<close> below 2^62; the square in its loop condition
  does not overflow there.
\<close>

theorem isPrime_is_primality:
  assumes "sint n < 2 ^ 62"
  shows "isPrime n = Some (Inr (is_prime (sint n)))"
  by (rule isPrime_small [OF assms])

theorem isPrime_is_primality_witness: "isPrime 15 = Some (Inr (is_prime 15))"
  using isPrime_is_primality [of 15] by simp

text \<open>
  C37: The connection is served line by line: each request is answered with a response and a line feed,
  until the first one that is not well-formed, which ends the conversation; nothing is answered
  after it.
\<close>

theorem the_first_bad_request_is_the_last:
  assumes "\<forall>l \<in> set good. LF \<notin> set l \<and> handle_step_one ovf (l @ [LF]) = Some (Inr (Inr (r l)))"
    and "LF \<notin> set bad" and "handle_step_one ovf (bad @ [LF]) = Some (Inr (Inl err))"
  shows "primetime_Handler ovf e (concat (map (\<lambda>l. l @ [LF]) (good @ [bad])) @ later)
    = Some (concat (map (\<lambda>l. [r l, [LF]]) good) @ [''bye, bye'' @ [LF]], RequestError err)"
proof -
  have l: "lines_of LF (concat (map (\<lambda>l. l @ [LF]) (good @ [bad])) @ later)
      = map (\<lambda>l. l @ [LF]) (good @ [bad]) @ lines_of LF later"
    using assms(1,2) by (induction good) auto
  have "primetime_lines ovf e (map (\<lambda>l. l @ [LF]) (good @ [bad]) @ ls)
      = Some (concat (map (\<lambda>l. [r l, [LF]]) good) @ [''bye, bye'' @ [LF]], RequestError err)" for ls
    using assms(1,3) by (induction good) (simp_all add: NewLineWriter_Write_def)
  then show ?thesis by (simp only: primetime_Handler_def l)
qed

theorem the_first_bad_request_is_the_last_witness:
  "primetime_Handler (\<lambda>x. word_of_int (- (2 ^ 63))) EOF ([LF] @ ''null'' @ [LF])
    = Some ([''bye, bye'' @ [LF]], RequestError (CouldNotParse SyntaxError))"
proof -
  have h: "handle_step_one (\<lambda>x. word_of_int (- (2 ^ 63))) ([] @ [LF]) = Some (Inr (Inl (CouldNotParse SyntaxError)))"
    by (simp add: handle_step_one_def Unmarshal_json_def parse_json_def json_space_def LF_def)
  have "\<forall>l \<in> set []. LF \<notin> set l \<and> handle_step_one (\<lambda>x. word_of_int (- (2 ^ 63))) (l @ [LF]) = Some (Inr (Inr []))"
    "LF \<notin> set []" by simp_all
  from the_first_bad_request_is_the_last [OF this h, of EOF "''null'' @ [LF]"] show ?thesis by simp
qed

end
