(* ===== verification/Jobcentre_Data.thy ===== *)
theory Jobcentre_Data
  imports Go_JSON_Text Go_JSON_Numbers "HOL-Library.Char_ord" "HOL-Library.List_Lexorder"
begin

text \<open>
  \<^verbatim>\<open>jobcentre/jobcentre.go\<close>: the data of a job, \<open>JobData = map[string]any\<close>, as \<open>json.Unmarshal\<close> stores it
  and \<open>json.Marshal\<close> prints it; and that the text of job data is read back as these data.
\<close>

section \<open>The data of a job\<close>

text \<open>
  The values of JSON as Go has them, with \<open>float64\<close> numbers: the sign and the absolute value. A map is
  the list of its entries in the order of their keys, which is the order \<open>json.Marshal\<close> visits them.
\<close>

datatype any = ANil | ABool bool | ANumber bool rat | AString string | AArray "any list" | AMap "(string \<times> any) list"

fun put_entry :: "string \<Rightarrow> 'v \<Rightarrow> (string \<times> 'v) list \<Rightarrow> (string \<times> 'v) list" where
  "put_entry k v [] = [(k, v)]"
| "put_entry k v ((k', v') # m) =
     (if k = k' then (k, v) # m else if k < k' then (k, v) # (k', v') # m else (k', v') # put_entry k v m)"

definition update_all :: "(string \<times> any) list \<Rightarrow> (string \<times> any) list \<Rightarrow> (string \<times> any) list" where
  "update_all ms m = foldl (\<lambda>m x. put_entry (fst x) (snd x) m) m ms"

fun any_of :: "json \<Rightarrow> any \<times> bool" where
  "any_of JNull = (ANil, False)"
| "any_of (JBool b) = (ABool b, False)"
| "any_of (JNum lit) =
     (case ParseFloat64 lit of Some x \<Rightarrow> (ANumber (take 1 lit = ''-'') \<bar>x\<bar>, False) | None \<Rightarrow> (ANil, True))"
| "any_of (JStr s) = (AString s, False)"
| "any_of (JArr vs) = (AArray (map (\<lambda>v. fst (any_of v)) vs), list_ex (\<lambda>v. snd (any_of v)) vs)"
| "any_of (JObj ms) =
     (AMap (update_all (map (\<lambda>x. (fst x, fst (any_of (snd x)))) ms) []), list_ex (\<lambda>x. snd (any_of (snd x))) ms)"

type_synonym job_map = "(string \<times> any) list option"

text \<open>A member of type \<open>JobData\<close>: the entries of an object are added to a map that is there already.\<close>

definition store_map :: "json \<Rightarrow> job_map \<Rightarrow> job_map \<times> bool" where
  "store_map v x =
     (case v of
        JNull \<Rightarrow> (None, False)
      | JObj ms \<Rightarrow>
          (Some (update_all (map (\<lambda>m. (fst m, fst (any_of (snd m)))) ms) (case x of None \<Rightarrow> [] | Some m \<Rightarrow> m)),
           list_ex (\<lambda>m. snd (any_of (snd m))) ms)
      | _ \<Rightarrow> (x, True))"

section \<open>Its text\<close>

definition object_text :: "(string \<times> string) list \<Rightarrow> string" where
  "object_text ms = ''{'' @ join_strings '','' (map (\<lambda>x. string_text (fst x) @ '':'' @ snd x) ms) @ ''}''"

fun any_text :: "any \<Rightarrow> string" where
  "any_text ANil = ''null''"
| "any_text (ABool b) = (if b then ''true'' else ''false'')"
| "any_text (ANumber neg x) = float_text neg x"
| "any_text (AString s) = string_text s"
| "any_text (AArray vs) = ''['' @ join_strings '','' (map any_text vs) @ '']''"
| "any_text (AMap ms) = object_text (map (\<lambda>x. (fst x, any_text (snd x))) ms)"

definition job_text :: "job_map \<Rightarrow> string" where
  "job_text d = (case d of None \<Rightarrow> ''null'' | Some m \<Rightarrow> any_text (AMap m))"

section \<open>Texts and tokens\<close>

fun join_tokens :: "token list list \<Rightarrow> token list" where
  "join_tokens [] = []"
| "join_tokens [t] = t"
| "join_tokens (t # ts) = t @ Comma # join_tokens ts"

fun json_tokens :: "json \<Rightarrow> token list" where
  "json_tokens (JArr vs) = LBrack # join_tokens (map json_tokens vs) @ [RBrack]"
| "json_tokens (JObj ms) =
     LBrace # join_tokens (map (\<lambda>x. Scalar (JStr (fst x)) # Colon # json_tokens (snd x)) ms) @ [RBrace]"
| "json_tokens v = [Scalar v]"

text \<open>A text that is lexed as these tokens, whatever follows that ends a number.\<close>

definition lexes :: "string \<Rightarrow> token list \<Rightarrow> bool" where
  "lexes t ts \<longleftrightarrow> (\<forall>s. ends_number s \<longrightarrow> lex_json (t @ s) = map_option ((@) ts) (lex_json s))"

lemma lexesD: "lexes t ts \<Longrightarrow> ends_number s \<Longrightarrow> lex_json (t @ s) = map_option ((@) ts) (lex_json s)"
  by (simp add: lexes_def)

lemma ends_number_symbols [simp]:
  "ends_number []" "ends_number (CHR '','' # s)" "ends_number (CHR '']'' # s)" "ends_number (CHR ''}'' # s)"
  "ends_number (CHR '':'' # s)" "ends_number (CHR 0x0A # s)"
  by (simp_all add: ends_number_def digit_def code_def)

lemma lex_symbols [simp]:
  "lex_json (CHR ''{'' # s) = map_option ((#) LBrace) (lex_json s)"
  "lex_json (CHR ''}'' # s) = map_option ((#) RBrace) (lex_json s)"
  "lex_json (CHR ''['' # s) = map_option ((#) LBrack) (lex_json s)"
  "lex_json (CHR '']'' # s) = map_option ((#) RBrack) (lex_json s)"
  "lex_json (CHR '':'' # s) = map_option ((#) Colon) (lex_json s)"
  "lex_json (CHR '','' # s) = map_option ((#) Comma) (lex_json s)"
  "lex_json (CHR 0x0A # s) = lex_json s"
  by (simp_all add: json_space_def)

lemma lexes_number:
  assumes "\<And>s. ends_number s \<Longrightarrow> scan_number (n @ s) = Some (n, s)" and "n \<noteq> []" and "hd n = CHR ''-'' \<or> digit (hd n)"
  shows "lexes n [Scalar (JNum n)]"
  unfolding lexes_def
proof (intro allI impI)
  fix s assume s: "ends_number s"
  obtain d ds where n: "n = d # ds" using assms(2) by (cases n) auto
  have ne: "d \<noteq> x" if "x \<noteq> CHR ''-''" "\<not> digit x" for x using assms(3) that n by auto
  have nd: "\<not> digit (CHR ''{'')" "\<not> digit (CHR ''}'')" "\<not> digit (CHR ''['')" "\<not> digit (CHR '']'')" "\<not> digit (CHR '':'')"
    "\<not> digit (CHR '','')" "\<not> digit (CHR 0x22)" "\<not> digit (CHR ''n'')" "\<not> digit (CHR ''t'')" "\<not> digit (CHR ''f'')"
    "\<not> digit (CHR '' '')" "\<not> digit (CHR 0x09)" "\<not> digit (CHR 0x0A)" "\<not> digit (CHR 0x0D)"
    by (simp_all add: digit_def code_def)
  have sc: "scan_number (d # ds @ s) = Some (d # ds, s)" using assms(1) [OF s] n by simp
  show "lex_json (n @ s) = map_option ((@) [Scalar (JNum n)]) (lex_json s)"
    using ne nd sc unfolding n by (cases "lex_json s") (simp_all add: json_space_def)
qed

declare lex_json.simps(2) [simp del]

lemma lexes_string: "lexes (string_text s) [Scalar (JStr (to_valid s))]"
proof -
  have "map_option ((#) x) y = map_option ((@) [x]) y" for x :: token and y by (cases y) simp_all
  then show ?thesis unfolding lexes_def lex_string_text by blast
qed

lemma lexes_float: "float_ok x \<Longrightarrow> lexes (float_text neg x) [Scalar (JNum (float_text neg x))]"
proof -
  assume x: "float_ok x"
  then obtain ip fp ex where t: "float_text neg x = literal neg ip fp ex" "proper ip fp"
    using float_text_form [of x neg] unfolding float_ok_def by metis
  then have "float_text neg x \<noteq> []" "hd (float_text neg x) = CHR ''-'' \<or> digit (hd (float_text neg x))"
    by (cases ip; auto simp: literal_def proper_def)+
  with x show ?thesis by (intro lexes_number scan_float_text)
qed

lemma lexes_join:
  assumes "list_all2 lexes ts us" and "ends_number s"
  shows "lex_json (join_strings '','' ts @ s) = map_option ((@) (join_tokens us)) (lex_json s)"
  using assms
proof (induction ts us rule: list_all2_induct)
  case Nil
  then show ?case by (cases "lex_json s") simp_all
next
  case (Cons t ts u us)
  show ?case
  proof (cases "ts = []")
    case True
    with Cons show ?thesis by (simp add: lexesD)
  next
    case False
    then obtain a as where ts: "ts = a # as" by (cases ts) auto
    from False Cons(2) obtain b bs where us: "us = b # bs" by (cases us) auto
    have "lex_json (t @ '','' @ join_strings '','' ts @ s) = map_option ((@) u) (lex_json ('','' @ join_strings '','' ts @ s))"
      using Cons(1) by (intro lexesD) simp_all
    then show ?thesis using Cons(3) [OF Cons.prems] by (cases "lex_json s") (simp_all add: ts us)
  qed
qed


lemma lexes_words: "lexes ''null'' [Scalar JNull]" "lexes ''true'' [Scalar (JBool True)]" "lexes ''false'' [Scalar (JBool False)]"
proof -
  have "map_option ((#) x) y = map_option ((@) [x]) y" for x :: token and y by (cases y) simp_all
  then show "lexes ''null'' [Scalar JNull]" "lexes ''true'' [Scalar (JBool True)]" "lexes ''false'' [Scalar (JBool False)]"
    unfolding lexes_def by (simp_all add: lex_json.simps(2) json_space_def)
qed

lemma lexes_append: "lexes t ts \<Longrightarrow> lexes u us \<Longrightarrow> (\<And>s. ends_number (u @ s)) \<Longrightarrow> lexes (t @ u) (ts @ us)"
proof -
  assume "lexes t ts" "lexes u us" "\<And>s. ends_number (u @ s)"
  moreover have "map_option ((@) ts) (map_option ((@) us) y) = map_option ((@) (ts @ us)) y" for y
    by (cases y) simp_all
  ultimately show "lexes (t @ u) (ts @ us)" unfolding lexes_def by simp
qed

lemma lexes_symbol:
  "lexes ''['' [LBrack]" "lexes '']'' [RBrack]" "lexes ''{'' [LBrace]" "lexes ''}'' [RBrace]" "lexes '':'' [Colon]"
proof -
  have "map_option ((#) x) y = map_option ((@) [x]) y" for x :: token and y by (cases y) simp_all
  then show "lexes ''['' [LBrack]" "lexes '']'' [RBrack]" "lexes ''{'' [LBrace]" "lexes ''}'' [RBrace]" "lexes '':'' [Colon]"
    unfolding lexes_def by simp_all
qed

lemma lexes_list:
  assumes "list_all2 lexes ts us"
  shows "lexes (''['' @ join_strings '','' ts @ '']'') (LBrack # join_tokens us @ [RBrack])"
  unfolding lexes_def
proof (intro allI impI)
  fix s
  show "lex_json ((''['' @ join_strings '','' ts @ '']'') @ s) = map_option ((@) (LBrack # join_tokens us @ [RBrack])) (lex_json s)"
    using lexes_join [OF assms, of "CHR '']'' # s"] by (cases "lex_json s") simp_all
qed

lemma lexes_object:
  assumes "list_all2 (\<lambda>x u. lexes (snd x) u) ms us"
  shows "lexes (object_text ms)
    (LBrace # join_tokens (map2 (\<lambda>x u. Scalar (JStr (to_valid (fst x))) # Colon # u) ms us) @ [RBrace])"
  unfolding lexes_def
proof (intro allI impI)
  fix s
  have kv: "lexes (string_text k @ CHR '':'' # v) (Scalar (JStr (to_valid k)) # Colon # u)" if "lexes v u" for k v u
  proof -
    have "lex_json ('':'' @ v @ s) = map_option ((@) (Colon # u)) (lex_json s)" if "ends_number s" for s
      using lexesD [OF \<open>lexes v u\<close> that] by (cases "lex_json s") simp_all
    then have "lexes ('':'' @ v) (Colon # u)" by (simp add: lexes_def)
    from lexes_append [OF lexes_string this] show ?thesis by simp
  qed
  have "list_all2 lexes (map (\<lambda>x. string_text (fst x) @ '':'' @ snd x) ms)
      (map2 (\<lambda>x u. Scalar (JStr (to_valid (fst x))) # Colon # u) ms us)"
    using assms by (induction ms us rule: list_all2_induct) (simp_all add: kv)
  from lexes_join [OF this, of "CHR ''}'' # s"]
  show "lex_json (object_text ms @ s) = map_option ((@)
      (LBrace # join_tokens (map2 (\<lambda>x u. Scalar (JStr (to_valid (fst x))) # Colon # u) ms us) @ [RBrace])) (lex_json s)"
    by (cases "lex_json s") (simp_all add: object_text_def)
qed

section \<open>The data as JSON\<close>

fun any_json :: "any \<Rightarrow> json" where
  "any_json ANil = JNull"
| "any_json (ABool b) = JBool b"
| "any_json (ANumber neg x) = JNum (float_text neg x)"
| "any_json (AString s) = JStr s"
| "any_json (AArray vs) = JArr (map any_json vs)"
| "any_json (AMap ms) = JObj (map (\<lambda>x. (fst x, any_json (snd x))) ms)"

text \<open>Values that \<open>json.Unmarshal\<close> makes: valid strings, and maps whose keys are in order.\<close>

fun any_ok :: "any \<Rightarrow> bool" where
  "any_ok ANil = True"
| "any_ok (ABool b) = True"
| "any_ok (ANumber neg x) = float_ok x"
| "any_ok (AString s) = valid_utf8 s"
| "any_ok (AArray vs) = list_all any_ok vs"
| "any_ok (AMap ms) = (list_all (\<lambda>x. valid_utf8 (fst x) \<and> any_ok (snd x)) ms \<and> sorted_wrt (<) (map fst ms))"

lemma lexes_any: "any_ok v \<Longrightarrow> lexes (any_text v) (json_tokens (any_json v))"
proof (induction v)
  case (AArray vs)
  then have "list_all2 lexes (map any_text vs) (map (\<lambda>v. json_tokens (any_json v)) vs)"
    by (simp add: list_all2_map1 list_all2_map2 list_all2_same list_all_iff)
  from lexes_list [OF this] show ?case by (simp add: comp_def)
next
  case (AMap ms)
  have "lexes (any_text (snd x)) (json_tokens (any_json (snd x)))" if "x \<in> set ms" for x
    using AMap(1) [OF that, of "snd x"] AMap(2) that by (cases x) (auto simp: list_all_iff)
  then have "list_all2 (\<lambda>x u. lexes (snd x) u) (map (\<lambda>x. (fst x, any_text (snd x))) ms)
      (map (\<lambda>x. json_tokens (any_json (snd x))) ms)"
    by (simp add: list_all2_map1 list_all2_map2 list_all2_same list_all_iff)
  from lexes_object [OF this] show ?case
    using AMap(2) by (simp add: comp_def zip_map1 zip_map2 zip_same_conv_map to_valid_valid list_all_iff cong: map_cong)
next
  case (AString s)
  with lexes_string [of s] show ?case by (simp add: to_valid_valid)
qed (simp_all add: lexes_words lexes_float)


section \<open>Parsing the tokens of a value\<close>

fun depth :: "json \<Rightarrow> nat" where
  "depth (JArr vs) = Suc (foldr max (map depth vs) 0)"
| "depth (JObj ms) = Suc (foldr max (map (\<lambda>x. depth (snd x)) ms) 0)"
| "depth v = 0"

lemma foldr_max_le: "foldr max ns 0 \<le> (n :: nat) \<longleftrightarrow> list_all (\<lambda>m. m \<le> n) ns"
  by (induction ns) auto

lemma json_tokens_hd: "\<exists>t ts. json_tokens v = t # ts \<and> t \<noteq> RBrack"
  by (cases v) simp_all

lemma parse_value:
  "length fs + depth v \<le> maxNestingDepth \<Longrightarrow>
   parse_tokens (fs, EValue) (json_tokens v @ ts) = parse_tokens (fs, EAfter v) ts"
proof (induction v arbitrary: fs ts)
  case (JArr vs)
  have d: "length fs < maxNestingDepth" "\<forall>v \<in> set vs. Suc (length fs) + depth v \<le> maxNestingDepth"
    using JArr(2) foldr_max_le [of "map depth vs" "maxNestingDepth - Suc (length fs)"]
    by (auto simp: list_all_iff)
  have items: "ws \<noteq> [] \<Longrightarrow> set ws \<subseteq> set vs \<Longrightarrow>
    parse_tokens (FArr us # fs, EValue) (join_tokens (map json_tokens ws) @ RBrack # ts)
      = parse_tokens (fs, EAfter (JArr (us @ ws))) ts" for us ws
  proof (induction ws arbitrary: us)
    case (Cons w ws)
    have w: "parse_tokens (FArr us # fs, EValue) (json_tokens w @ ts') = parse_tokens (FArr us # fs, EAfter w) ts'" for ts'
      using Cons.prems(2) d(2) by (intro JArr(1)) auto
    show ?case
    proof (cases "ws = []")
      case True
      then show ?thesis by (simp add: w)
    next
      case False
      then have "join_tokens (map json_tokens (w # ws)) = json_tokens w @ Comma # join_tokens (map json_tokens ws)"
        by (cases ws) simp_all
      with False Cons show ?thesis by (simp add: w)
    qed
  qed simp
  have start: "parse_tokens (FArr [] # fs, EArrStart) (join_tokens (map json_tokens vs) @ RBrack # ts)
      = parse_tokens (FArr [] # fs, EValue) (join_tokens (map json_tokens vs) @ RBrack # ts)" if ne: "vs \<noteq> []"
  proof -
    obtain v ws where vs: "vs = v # ws" using ne by (cases vs) auto
    obtain t us where t: "json_tokens v = t # us" "t \<noteq> RBrack" using json_tokens_hd by blast
    then have "\<exists>us. join_tokens (map json_tokens vs) = t # us" by (cases ws) (auto simp: vs)
    with t(2) show ?thesis by auto
  qed
  show ?case
  proof (cases "vs = []")
    case True
    with d show ?thesis by (simp add: value_token_def)
  next
    case False
    with items [OF False subset_refl, of "[]"] start d(1) show ?thesis by (simp add: value_token_def)
  qed
next
  case (JObj ms)
  have d: "length fs < maxNestingDepth" "\<forall>x \<in> set ms. Suc (length fs) + depth (snd x) \<le> maxNestingDepth"
    using JObj(2) foldr_max_le [of "map (\<lambda>x. depth (snd x)) ms" "maxNestingDepth - Suc (length fs)"]
    by (auto simp: list_all_iff)
  let ?f = "\<lambda>x. Scalar (JStr (fst x)) # Colon # json_tokens (snd x)"
  have items: "ws \<noteq> [] \<Longrightarrow> set ws \<subseteq> set ms \<Longrightarrow>
    parse_tokens (FObj us # fs, EKey) (join_tokens (map ?f ws) @ RBrace # ts)
      = parse_tokens (fs, EAfter (JObj (us @ ws))) ts" for us ws
  proof (induction ws arbitrary: us)
    case (Cons w ws)
    have w: "parse_tokens (FKey us k # fs, EValue) (json_tokens (snd w) @ ts') = parse_tokens (FKey us k # fs, EAfter (snd w)) ts'" for ts' k
      using Cons.prems(2) d(2) by (intro JObj(1) [of w]) (auto simp: prod_set_defs)
    show ?case
    proof (cases "ws = []")
      case True
      then show ?thesis by (simp add: w key_token_def)
    next
      case False
      then have "join_tokens (map ?f (w # ws)) = ?f w @ Comma # join_tokens (map ?f ws)"
        by (cases ws) simp_all
      with False Cons show ?thesis by (simp add: w key_token_def)
    qed
  qed simp
  have start: "parse_tokens (FObj [] # fs, EObjStart) (join_tokens (map ?f ms) @ RBrace # ts)
      = parse_tokens (FObj [] # fs, EKey) (join_tokens (map ?f ms) @ RBrace # ts)" if ne: "ms \<noteq> []"
  proof -
    obtain x xs where ms: "ms = x # xs" using ne by (cases ms) auto
    obtain us where "join_tokens (map ?f ms) = Scalar (JStr (fst x)) # us" by (cases xs) (auto simp: ms)
    then show ?thesis by simp
  qed
  show ?case
  proof (cases "ms = []")
    case True
    with d show ?thesis by (simp add: value_token_def)
  next
    case False
    with items [OF False subset_refl, of "[]"] start d(1) show ?thesis by (simp add: value_token_def)
  qed
qed (simp_all add: value_token_def)

end
