(* ===== verification/Jobcentre_Data_Props.thy ===== *)
theory Jobcentre_Data_Props
  imports Jobcentre_Data
begin

text \<open>
  The data of a job are read back from their text; and the data that \<open>json.Unmarshal\<close> stores are such
  that this holds for them: the strings of a parsed text are valid, and it is not nested too deep.
\<close>

section \<open>Reading back\<close>

lemma put_entry_last: "list_all (\<lambda>x. fst x < k) m \<Longrightarrow> put_entry k v m = m @ [(k, v)]"
  by (induction k v m rule: put_entry.induct) (auto simp: less_le_not_le)

lemma update_all_sorted: "sorted_wrt (<) (map fst (m @ ms)) \<Longrightarrow> update_all ms m = m @ ms"
proof (induction ms arbitrary: m)
  case (Cons x ms)
  then have "put_entry (fst x) (snd x) m = m @ [x]"
    by (intro trans [OF put_entry_last]) (auto simp: sorted_wrt_append list_all_iff)
  then show ?case using Cons by (simp add: update_all_def)
qed (simp add: update_all_def)

lemma any_of_json: "any_ok v \<Longrightarrow> any_of (any_json v) = (v, False)"
proof (induction v)
  case (ANumber neg x)
  then show ?case using ParseFloat64_float_text [of x neg] by (simp add: float_ok_def)
next
  case (AArray vs)
  then have v: "\<forall>v \<in> set vs. any_of (any_json v) = (v, False)" by (auto simp: list_all_iff)
  then have "map (\<lambda>v. fst (any_of (any_json v))) vs = vs" by (intro map_idI) simp
  with v show ?case by (simp add: comp_def list_ex_iff)
next
  case (AMap ms)
  have v: "any_of (any_json (snd x)) = (snd x, False)" if "x \<in> set ms" for x
    using AMap(1) [OF that, of "snd x"] AMap(2) that by (cases x) (auto simp: list_all_iff)
  then have "map (\<lambda>x. (fst x, fst (any_of (any_json (snd x))))) ms = ms" by (intro map_idI) simp
  moreover have "update_all ms [] = ms" using AMap(2) by (intro trans [OF update_all_sorted]) simp_all
  ultimately show ?case using v by (simp add: comp_def list_ex_iff)
qed simp_all

lemma store_map_json: "any_ok (AMap m) \<Longrightarrow> store_map (any_json (AMap m)) None = (Some m, False)"
  using any_of_json [of "AMap m"] by (simp add: store_map_def)

section \<open>What is stored\<close>

fun json_ok :: "json \<Rightarrow> bool" where
  "json_ok (JStr s) = valid_utf8 s"
| "json_ok (JArr vs) = list_all json_ok vs"
| "json_ok (JObj ms) = list_all (\<lambda>x. valid_utf8 (fst x) \<and> json_ok (snd x)) ms"
| "json_ok v = True"

lemma put_entry_keys: "set (map fst (put_entry k v m)) = insert k (set (map fst m))"
  by (induction k v m rule: put_entry.induct) auto

lemma put_entry_set: "set (put_entry k v m) \<subseteq> insert (k, v) (set m)"
  by (induction k v m rule: put_entry.induct) auto

lemma put_entry_sorted: "sorted_wrt (<) (map fst m) \<Longrightarrow> sorted_wrt (<) (map fst (put_entry k v m))"
proof (induction k v m rule: put_entry.induct)
  case (2 k v k' v' m)
  show ?case
  proof (cases "k = k' \<or> k < k'")
    case True
    with 2(2) show ?thesis by auto
  next
    case False
    then have "k' < k" by auto
    then have "\<forall>y \<in> set (map fst (put_entry k v m)). k' < y" unfolding put_entry_keys using 2(2) by auto
    with 2 False show ?thesis by auto
  qed
qed simp

lemma update_all_inv:
  assumes "\<forall>x \<in> set ms \<union> set m. P x" and "sorted_wrt (<) (map fst m)"
  shows "(\<forall>x \<in> set (update_all ms m). P x) \<and> sorted_wrt (<) (map fst (update_all ms m))"
  using assms
proof (induction ms arbitrary: m)
  case (Cons x ms)
  have "\<forall>y \<in> set ms \<union> set (put_entry (fst x) (snd x) m). P y"
    using Cons.prems(1) put_entry_set [of "fst x" "snd x" m] by auto
  from Cons.IH [OF this put_entry_sorted [OF Cons.prems(2)]] show ?case by (simp add: update_all_def)
qed (simp add: update_all_def)

lemma any_of_ok: "json_ok v \<Longrightarrow> any_ok (fst (any_of v)) \<and> depth (any_json (fst (any_of v))) \<le> depth v"
proof (induction v)
  case (JNum lit)
  then show ?case by (auto simp: ParseFloat64_ok split: option.split)
next
  case (JArr vs)
  then have "\<forall>v \<in> set vs. any_ok (fst (any_of v)) \<and> depth (any_json (fst (any_of v))) \<le> depth v"
    by (auto simp: list_all_iff)
  moreover have "depth v \<le> foldr max (map depth vs) 0" if "v \<in> set vs" for v
    using foldr_max_le [of "map depth vs" "foldr max (map depth vs) 0"] that by (simp add: list_all_iff)
  ultimately show ?case by (fastforce simp: list_all_iff foldr_max_le comp_def)
next
  case (JObj ms)
  let ?ns = "map (\<lambda>x. (fst x, fst (any_of (snd x)))) ms"
  let ?D = "foldr max (map (\<lambda>x. depth (snd x)) ms) 0"
  have D: "depth (snd x) \<le> ?D" if "x \<in> set ms" for x
    using foldr_max_le [of "map (\<lambda>x. depth (snd x)) ms" ?D] that by (simp add: list_all_iff)
  have "valid_utf8 (fst x) \<and> any_ok (fst (any_of (snd x))) \<and> depth (any_json (fst (any_of (snd x)))) \<le> ?D"
    if "x \<in> set ms" for x
    using JObj(1) [OF that, of "snd x"] JObj(2) D [OF that] that by (cases x) (auto simp: list_all_iff intro: order_trans)
  then have "\<forall>x \<in> set ?ns \<union> set []. valid_utf8 (fst x) \<and> any_ok (snd x) \<and> depth (any_json (snd x)) \<le> ?D" by auto
  from update_all_inv [OF this] show ?case by (auto simp: list_all_iff foldr_max_le)
qed simp_all

text \<open>The data of a job, and how deep they are nested.\<close>

definition job_ok :: "nat \<Rightarrow> job_map \<Rightarrow> bool" where
  "job_ok n d \<longleftrightarrow> (case d of None \<Rightarrow> True | Some m \<Rightarrow> any_ok (AMap m) \<and> depth (any_json (AMap m)) \<le> n)"

lemma store_map_ok:
  assumes "json_ok v" and "depth v \<le> n" and "job_ok n x"
  shows "job_ok n (fst (store_map v x))"
proof (cases v)
  case (JObj ms)
  let ?ns = "map (\<lambda>x. (fst x, fst (any_of (snd x)))) ms"
  let ?m = "case x of None \<Rightarrow> [] | Some m \<Rightarrow> m"
  from assms(2) JObj obtain k where n: "n = Suc k" "list_all (\<lambda>x. depth (snd x) \<le> k) ms"
    by (cases n) (auto simp: foldr_max_le list_all_iff)
  have "\<forall>y \<in> set ?ns. valid_utf8 (fst y) \<and> any_ok (snd y) \<and> depth (any_json (snd y)) \<le> k"
    using assms(1) JObj n(2) any_of_ok by (auto simp: list_all_iff intro: order_trans)
  moreover have "\<forall>y \<in> set ?m. valid_utf8 (fst y) \<and> any_ok (snd y) \<and> depth (any_json (snd y)) \<le> k"
      "sorted_wrt (<) (map fst ?m)"
    using assms(3) by (auto simp: job_ok_def n(1) list_all_iff foldr_max_le split: option.splits)
  ultimately have "(\<forall>y \<in> set (update_all ?ns ?m). valid_utf8 (fst y) \<and> any_ok (snd y) \<and> depth (any_json (snd y)) \<le> k)
      \<and> sorted_wrt (<) (map fst (update_all ?ns ?m))"
    by (intro update_all_inv) auto
  then show ?thesis by (simp add: JObj store_map_def job_ok_def n(1) list_all_iff foldr_max_le)
qed (use assms(3) in \<open>simp_all add: store_map_def job_ok_def\<close>)

section \<open>Parsed texts\<close>

definition token_ok :: "token \<Rightarrow> bool" where
  "token_ok t \<longleftrightarrow> (case t of Scalar v \<Rightarrow> json_ok v \<and> depth v = 0 | _ \<Rightarrow> True)"

text \<open>What the lexer does with the rest of a text: it fails, skips it, or makes a token first.\<close>

definition lexed :: "nat \<Rightarrow> token list option \<Rightarrow> bool" where
  "lexed n r \<longleftrightarrow> r = None \<or> (\<exists>s. length s < n \<and> (r = lex_json s \<or> (\<exists>t. token_ok t \<and> r = map_option ((#) t) (lex_json s))))"

lemma lexed_intros:
  "lexed n None"
  "length s < n \<Longrightarrow> lexed n (lex_json s)"
  "length s < n \<Longrightarrow> token_ok t \<Longrightarrow> lexed n (map_option ((#) t) (lex_json s))"
  "(P \<Longrightarrow> lexed n a) \<Longrightarrow> (\<not> P \<Longrightarrow> lexed n b) \<Longrightarrow> lexed n (if P then a else b)"
  "(\<And>raw r. x = Some (raw, r) \<Longrightarrow> lexed n (f raw r)) \<Longrightarrow>
     lexed n (case x of None \<Rightarrow> None | Some (raw, r) \<Rightarrow> f raw r)"
  by (auto simp: lexed_def split: option.split)

lemma lexed_step: "lexed (length (c # s)) (lex_json (c # s))"
proof -
  have "valid_utf8 (unquote raw)" if "scan_string s = Some (raw, r)" for raw r
    by (rule valid_unquote [OF scan_string_raw [OF that]])
  moreover have "length r < length (c # s)" if "scan_string s = Some (raw, r)" for raw r
    using scan_string_length [OF that] by simp
  moreover have "length r < length (c # s)" if "scan_number (c # s) = Some (n, r)" for n r
    by (rule scan_number_length [OF that])
  ultimately show ?thesis
    unfolding lex_json.simps(2) by (intro lexed_intros) (auto simp: token_ok_def)
qed

lemma lex_json_ok: "lex_json s = Some ts \<Longrightarrow> list_all token_ok ts"
proof (induction s arbitrary: ts rule: length_induct)
  case (1 s)
  show ?case
  proof (cases s)
    case Nil
    with 1(2) show ?thesis by simp
  next
    case (Cons c s')
    with 1(2) lexed_step [of c s'] obtain r where r: "length r < length s"
      "lex_json r = Some ts \<or> (\<exists>t. token_ok t \<and> Some ts = map_option ((#) t) (lex_json r))"
      by (auto simp: lexed_def)
    then consider "lex_json r = Some ts" | t us where "token_ok t" "lex_json r = Some us" "ts = t # us"
      by (cases "lex_json r") auto
    then show ?thesis using 1(1) r(1) by cases auto
  qed
qed

fun frame_values :: "frame \<Rightarrow> json list" where
  "frame_values (FArr vs) = vs"
| "frame_values (FObj ms) = map snd ms"
| "frame_values (FKey ms k) = map snd ms"

fun frame_keys :: "frame \<Rightarrow> string list" where
  "frame_keys (FArr vs) = []"
| "frame_keys (FObj ms) = map fst ms"
| "frame_keys (FKey ms k) = k # map fst ms"

fun frames_ok :: "frame list \<Rightarrow> bool" where
  "frames_ok [] = True"
| "frames_ok (f # fs) =
     (list_all (\<lambda>v. json_ok v \<and> Suc (length fs) + depth v \<le> maxNestingDepth) (frame_values f)
      \<and> list_all valid_utf8 (frame_keys f) \<and> Suc (length fs) \<le> maxNestingDepth \<and> frames_ok fs)"

fun expect_ok :: "nat \<Rightarrow> expect \<Rightarrow> bool" where
  "expect_ok n (EAfter v) = (json_ok v \<and> n + depth v \<le> maxNestingDepth)"
| "expect_ok n (EColon k) = valid_utf8 k"
| "expect_ok n EArrStart = (0 < n)"
| "expect_ok n EObjStart = (0 < n)"
| "expect_ok n e = True"

lemma frames_ok_length: "frames_ok fs \<Longrightarrow> length fs \<le> maxNestingDepth"
  by (cases fs) auto


lemma foldr_max_room:
  "Suc (m + foldr max ns i) \<le> n \<longleftrightarrow> Suc (m + i) \<le> n \<and> (\<forall>k \<in> set ns. Suc (m + k) \<le> n)"
  by (induction ns) auto

lemma value_token_ok:
  "value_token fs t = Some (gs, e) \<Longrightarrow> frames_ok fs \<Longrightarrow> token_ok t \<Longrightarrow> frames_ok gs \<and> expect_ok (length gs) e"
  by (auto simp: value_token_def token_ok_def frames_ok_length split: token.splits if_splits)

lemma key_token_ok:
  "key_token fs t = Some (gs, e) \<Longrightarrow> frames_ok fs \<Longrightarrow> token_ok t \<Longrightarrow> frames_ok gs \<and> expect_ok (length gs) e"
  by (auto simp: key_token_def token_ok_def split: token.splits json.splits)

lemma after_token_ok:
  "after_token fs v t = Some (gs, e) \<Longrightarrow> frames_ok fs \<Longrightarrow> expect_ok (length fs) (EAfter v) \<Longrightarrow>
   frames_ok gs \<and> expect_ok (length gs) e"
  by (induction fs v t rule: after_token.induct) (auto simp: list_all_iff foldr_max_room)

lemma json_step_ok:
  assumes "json_step (fs, e) t = Some (gs, e')" and "frames_ok fs" "expect_ok (length fs) e" "token_ok t"
  shows "frames_ok gs \<and> expect_ok (length gs) e'"
proof (cases e)
  case EValue
  with assms show ?thesis by (simp add: value_token_ok)
next
  case EArrStart
  with assms obtain f rest where "fs = f # rest" by (cases fs) auto
  with EArrStart assms show ?thesis by (auto simp: value_token_ok split: if_splits)
next
  case EObjStart
  with assms obtain f rest where "fs = f # rest" by (cases fs) auto
  with EObjStart assms show ?thesis by (auto simp: key_token_ok split: if_splits)
next
  case EKey
  with assms show ?thesis by (simp add: key_token_ok)
next
  case (EColon k)
  with assms obtain ms rest where "fs = FObj ms # rest" by (cases fs; cases "hd fs") auto
  with EColon assms show ?thesis by (auto split: if_splits)
next
  case (EAfter v)
  with assms show ?thesis by (simp add: after_token_ok)
qed

lemma parse_tokens_ok:
  "parse_tokens (fs, e) ts = Some v \<Longrightarrow> frames_ok fs \<Longrightarrow> expect_ok (length fs) e \<Longrightarrow> list_all token_ok ts \<Longrightarrow>
   json_ok v \<and> depth v \<le> maxNestingDepth"
proof (induction ts arbitrary: fs e)
  case Nil
  then show ?case by (auto split: list.splits expect.splits)
next
  case (Cons t ts)
  then obtain gs e' where "json_step (fs, e) t = Some (gs, e')" "parse_tokens (gs, e') ts = Some v"
    by (auto split: option.splits)
  with json_step_ok [OF this(1)] Cons show ?case by simp
qed

lemma parse_json_ok: "parse_json s = Some v \<Longrightarrow> json_ok v \<and> depth v \<le> maxNestingDepth"
proof -
  assume "parse_json s = Some v"
  then obtain ts where ts: "lex_json s = Some ts" "parse_tokens ([], EValue) ts = Some v"
    by (auto simp: parse_json_def bind_eq_Some_conv)
  from parse_tokens_ok [OF ts(2) _ _ lex_json_ok [OF ts(1)]] show ?thesis by simp
qed

text \<open>And a text that is lexed as the tokens of a value is parsed as this value.\<close>

lemma parse_json_tokens:
  assumes "lexes t (json_tokens v)" and "depth v \<le> maxNestingDepth" and "ends_number s" and "lex_json s = Some []"
  shows "parse_json (t @ s) = Some v"
  using lexesD [OF assms(1,3)] parse_value [of "[]" v "[]"] assms(2,4) by (simp add: parse_json_def)

end
