(* ===== verification/Jobcentre_Client.thy ===== *)
theory Jobcentre_Client
  imports Jobcentre_Inv Jobcentre_Data Go_IO
begin

text \<open>
  \<^verbatim>\<open>jobcentre/jobcentre.go\<close>: the goroutine \<open>handler\<close> of a client, which decodes the JSON of each line
  into a request for \<open>internal\<close>.
\<close>

section \<open>The members of requests\<close>

definition store_uint :: "json \<Rightarrow> 64 word \<Rightarrow> 64 word \<times> bool" where
  "store_uint v x =
     (case v of
        JNull \<Rightarrow> (x, False)
      | JNum lit \<Rightarrow> (case ParseUint64 lit of Some n \<Rightarrow> (n, False) | None \<Rightarrow> (x, True))
      | _ \<Rightarrow> (x, True))"

definition store_int :: "json \<Rightarrow> int \<Rightarrow> int \<times> bool" where
  "store_int v x =
     (case v of
        JNull \<Rightarrow> (x, False)
      | JNum lit \<Rightarrow> (case ParseInt64 lit of Some n \<Rightarrow> (n, False) | None \<Rightarrow> (x, True))
      | _ \<Rightarrow> (x, True))"

text \<open>A \<open>*bool\<close> is allocated before a value of the wrong type is found.\<close>

definition store_bool_ptr :: "json \<Rightarrow> bool option \<Rightarrow> bool option \<times> bool" where
  "store_bool_ptr v x =
     (case v of
        JNull \<Rightarrow> (None, False)
      | JBool b \<Rightarrow> (Some b, False)
      | _ \<Rightarrow> (Some (case x of None \<Rightarrow> False | Some b \<Rightarrow> b), True))"

text \<open>
  A \<open>[]string\<close>: its array, which may be longer than the slice, and the length of the slice. The
  elements are stored one after the other into the array that is there.
\<close>

fun store_elems :: "nat \<Rightarrow> json list \<Rightarrow> string list \<Rightarrow> string list \<times> bool" where
  "store_elems i [] arr = (arr, False)"
| "store_elems i (v # vs) arr =
     (let (x, e) = store_string v (if i < length arr then arr ! i else []);
          (arr', e') = store_elems (Suc i) vs (if i < length arr then arr[i := x] else arr @ [x])
      in (arr', e \<or> e'))"

definition store_strings :: "json \<Rightarrow> string list \<times> nat \<Rightarrow> (string list \<times> nat) \<times> bool" where
  "store_strings v x =
     (case v of
        JNull \<Rightarrow> (([], 0), False)
      | JArr vs \<Rightarrow>
          (if vs = [] then (([], 0), False)
           else (let (arr, e) = store_elems 0 vs (fst x) in ((arr, length vs), e)))
      | _ \<Rightarrow> (x, True))"

section \<open>The requests\<close>

definition store_request :: "string \<Rightarrow> json \<Rightarrow> string \<Rightarrow> string \<times> bool" where
  "store_request k v r = (if fold_name k = fold_name ''request'' then store_string v r else (r, False))"

record put_request =
  pr_Queue :: string
  pr_Job :: job_map
  pr_Pri :: "64 word"

definition store_put :: "string \<Rightarrow> json \<Rightarrow> put_request \<Rightarrow> put_request \<times> bool" where
  "store_put k v r =
     (if fold_name k = fold_name ''queue''
      then (let (x, e) = store_string v (pr_Queue r) in (r\<lparr>pr_Queue := x\<rparr>, e))
      else if fold_name k = fold_name ''job''
      then (let (x, e) = store_map v (pr_Job r) in (r\<lparr>pr_Job := x\<rparr>, e))
      else if fold_name k = fold_name ''pri''
      then (let (x, e) = store_uint v (pr_Pri r) in (r\<lparr>pr_Pri := x\<rparr>, e))
      else (r, False))"

record get_request =
  gr_Queues :: "string list \<times> nat"
  gr_Wait :: "bool option"

definition store_get :: "string \<Rightarrow> json \<Rightarrow> get_request \<Rightarrow> get_request \<times> bool" where
  "store_get k v r =
     (if fold_name k = fold_name ''queues''
      then (let (x, e) = store_strings v (gr_Queues r) in (r\<lparr>gr_Queues := x\<rparr>, e))
      else if fold_name k = fold_name ''wait''
      then (let (x, e) = store_bool_ptr v (gr_Wait r) in (r\<lparr>gr_Wait := x\<rparr>, e))
      else (r, False))"

definition store_id :: "string \<Rightarrow> json \<Rightarrow> int \<Rightarrow> int \<times> bool" where
  "store_id k v r = (if fold_name k = fold_name ''id'' then store_int v r else (r, False))"

section \<open>A line\<close>

definition UNKNOWN_ERROR :: string where
  "UNKNOWN_ERROR = ''unrecognized request type.''"

text \<open>\<open>json.Unmarshal(data, req)\<close> for the request that was announced: the message, and whether it failed.\<close>

definition decode_request :: "string \<Rightarrow> string \<Rightarrow> (job_map jmsg \<times> bool) option" where
  "decode_request request data =
     (if request = ''put'' then
        (case Unmarshal_json store_put data \<lparr>pr_Queue = [], pr_Job = None, pr_Pri = 0\<rparr> of
           (r, err) \<Rightarrow> Some (PutRequest (pr_Queue r) (pr_Job r) (pr_Pri r), err \<noteq> None))
      else if request = ''get'' then
        (case Unmarshal_json store_get data \<lparr>gr_Queues = ([], 0), gr_Wait = None\<rparr> of
           (r, err) \<Rightarrow> Some (GetRequest (take (snd (gr_Queues r)) (fst (gr_Queues r))) (gr_Wait r), err \<noteq> None))
      else if request = ''abort'' then
        (case Unmarshal_json store_id data 0 of (i, err) \<Rightarrow> Some (AbortRequest i, err \<noteq> None))
      else if request = ''delete'' then
        (case Unmarshal_json store_id data 0 of (i, err) \<Rightarrow> Some (DeleteRequest i, err \<noteq> None))
      else None)"

text \<open>
  One iteration of the loop: the variable \<open>request\<close>, which keeps its value from line to line, the
  responses written, and the message for \<open>internal\<close>, which is sent last.
\<close>

definition unknownRequest :: "job_map response" where
  [simp]: "unknownRequest = StatusResponse STATUS_ERROR UNKNOWN_ERROR"

definition jc_line :: "string \<Rightarrow> string \<Rightarrow> string \<times> job_map response list \<times> job_map jmsg list" where
  "jc_line request data =
     (case Unmarshal_json store_request data request of
        (request', err) \<Rightarrow>
          (let w = (if err \<noteq> None then [unknownRequest] else [])
           in case decode_request request' data of
                None \<Rightarrow> (request', w @ [unknownRequest], [])
              | Some (m, failed) \<Rightarrow>
                  (request', w @ (if failed then [StatusResponse STATUS_ERROR ''invalid put request''] else []), [m])))"

text \<open>
  The loop. \<open>b\<close> is the number of writes that succeed, if one fails: then the handler returns, before it
  sends the message of the line.
\<close>

fun jc_lines :: "nat option \<Rightarrow> string \<Rightarrow> string list \<Rightarrow> job_map response list \<times> job_map jmsg list" where
  "jc_lines b request [] = ([], [])"
| "jc_lines b request (l # ls) =
     (let (request', ws, ms) = jc_line request l
      in case b of
           None \<Rightarrow> (let (ws', ms') = jc_lines None request' ls in (ws @ ws', ms @ ms'))
         | Some n \<Rightarrow>
             (if n < length ws then (take n ws, [])
              else let (ws', ms') = jc_lines (Some (n - length ws)) request' ls in (ws @ ws', ms @ ms')))"

definition jc_handler :: "nat option \<Rightarrow> string \<Rightarrow> job_map response list \<times> job_map jmsg list" where
  "jc_handler b input =
     (let (ws, ms) = jc_lines b [] (lines_of LF input) in (ws, JConnected # ms @ [JDisconnected]))"

section \<open>The messages of a client\<close>

lemma decode_request_message:
  "decode_request r data = Some (m, e) \<Longrightarrow> m \<noteq> JConnected \<and> m \<noteq> JDisconnected"
  by (auto simp: decode_request_def split: if_splits prod.splits)

lemma jc_lines_messages: "m \<in> set (snd (jc_lines b r ls)) \<Longrightarrow> m \<noteq> JConnected \<and> m \<noteq> JDisconnected"
proof (induction ls arbitrary: b r)
  case Nil
  then show ?case by simp
next
  case (Cons l ls)
  obtain r' ws ms where 1: "jc_line r l = (r', ws, ms)" by (cases "jc_line r l") auto
  have x: "x \<noteq> JConnected \<and> x \<noteq> JDisconnected" if "x \<in> set ms" for x
    using 1 that by (auto simp: jc_line_def Let_def split: prod.splits option.splits dest: decode_request_message)
  obtain b' where "m \<in> set ms \<or> m \<in> set (snd (jc_lines b' r' ls))"
    using Cons.prems 1 by (cases b) (auto simp: case_prod_beta Let_def split: if_splits)
  with x Cons.IH [of b' r'] show ?case by blast
qed

lemma jc_handler_framed: "framed_peer JConnected JDisconnected False (take n (snd (jc_handler b input)))"
proof -
  obtain ws ms where l: "jc_lines b [] (lines_of LF input) = (ws, ms)" by fastforce
  then have "JConnected \<notin> set ms \<and> JDisconnected \<notin> set ms"
    using jc_lines_messages [of _ b "[]" "lines_of LF input"] by fastforce
  with l show ?thesis unfolding framed_peer_def jc_handler_def by (intro exI [of _ ms] exI [of _ n]) simp
qed

section \<open>The clients of a run\<close>

lemma release_jobs_clients:
  "release_jobs c js s a = Inr (t, a', os) \<Longrightarrow> jc_clients t = jc_clients s"
proof (induction js arbitrary: s a os)
  case Nil
  then show ?case by simp
next
  case (Cons j js)
  then obtain s1 a1 o1 o2 where 1: "release_job c j s a = Inr (s1, a1, o1)" "release_jobs c js s1 a1 = Inr (t, a', o2)"
    by (auto split: sum.splits)
  from 1(1) have "jc_clients s1 = jc_clients s"
    by (auto simp: release_job_def split: sum.splits if_splits option.splits)
  with Cons.IH [OF 1(2)] show ?case by simp
qed

lemma jobcentre_step_clients:
  assumes "jobcentre_step s (c, m) = Inr (t, os)"
  shows "jc_clients t = (if m = JConnected then insert c (jc_clients s)
     else if m = JDisconnected then jc_clients s - {c} else jc_clients s)"
proof (cases m)
  case JDisconnected
  with assms show ?thesis
    by (auto simp: jc_disconnected_def split: sum.splits prod.splits dest!: release_jobs_clients)
next
  case PutRequest
  with assms show ?thesis
    by (auto simp: handle_Put_def add_job_def Let_def split: option.splits sum.splits)
next
  case DeleteRequest
  with assms show ?thesis by (auto simp: handle_Delete_def Let_def split: option.splits if_splits)
qed (use assms in \<open>auto simp: handle_Get_def handle_Abort_def split: option.splits if_splits\<close>)

lemma framed_served:
  "jc_inv s \<Longrightarrow> framed JConnected JDisconnected (jc_clients s) es \<Longrightarrow> 0 \<notin> fst ` set es \<Longrightarrow>
   conforming jobcentre_step jobcentre_enabled s es"
proof (induction es arbitrary: s)
  case Nil
  then show ?case by simp
next
  case (Cons e es)
  obtain c m where e: "e = (c, m)" by (cases e)
  have en: "jobcentre_enabled s (c, m)" using Cons.prems by (cases m) (auto simp: e)
  from jobcentre_step_ok [OF Cons.prems(1) en] obtain t os where
    t: "jobcentre_step s (c, m) = Inr (t, os)" "jc_inv t" by blast
  from Cons.prems(2) have "framed JConnected JDisconnected (jc_clients t) es"
    unfolding jobcentre_step_clients [OF t(1)] by (auto simp: e split: if_splits)
  with Cons.IH [OF t(2)] Cons.prems(3) have "conforming jobcentre_step jobcentre_enabled t es" by simp
  with en t(1) show ?case by (simp add: e)
qed

end
