(* ===== verification/Jobcentre_Responses.thy ===== *)
theory Jobcentre_Responses
  imports Jobcentre_Client Jobcentre_Data_Props
begin

text \<open>
  \<^verbatim>\<open>jobcentre/jobcentre.go\<close>: what the job centre writes to a client, one JSON object on a line of its own.
\<close>

section \<open>Lines\<close>

text \<open>A \<open>uint\<close> and an \<open>int\<close> in decimal.\<close>

definition int_text :: "int \<Rightarrow> string" where
  "int_text i = (if i < 0 then CHR ''-'' # Itoa (nat (- i)) else Itoa (nat i))"

definition status_message :: "StatusType \<Rightarrow> string" where
  "status_message s = (case s of STATUS_OK \<Rightarrow> ''ok'' | STATUS_ERROR \<Rightarrow> ''error'' | STATUS_NO_JOB \<Rightarrow> ''no-job'')"

text \<open>\<open>json.Marshal\<close> of the structs; an empty \<open>Error\<close> is omitted.\<close>

definition error_response :: "string \<Rightarrow> string \<Rightarrow> string" where
  "error_response status err =
     object_text ((''status'', string_text status) # (if err = [] then [] else [(''error'', string_text err)]))"

definition put_response :: "string \<Rightarrow> job_id \<Rightarrow> string" where
  "put_response status i = object_text [(''status'', string_text status), (''id'', int_text i)]"

definition get_response_text :: "string \<Rightarrow> job_id \<Rightarrow> job_map \<Rightarrow> pri \<Rightarrow> string \<Rightarrow> string" where
  "get_response_text status i d p q =
     object_text [(''status'', string_text status), (''id'', int_text i), (''job'', job_text d),
       (''pri'', Itoa (unat p)), (''queue'', string_text q)]"

text \<open>
  The bytes of a line, and the error that is returned when \<open>client.Write\<close> has written \<open>n\<close> of them and
  has returned \<open>err\<close>.
\<close>

definition WriteStatus :: "StatusType \<Rightarrow> string \<Rightarrow> nat \<times> go_error option \<Rightarrow> string \<times> go_error option" where
  "WriteStatus statusType message res =
     (let data = error_response (status_message statusType) message @ [LF]
      in (data, case res of (n, Some err) \<Rightarrow> Some err
                | (n, None) \<Rightarrow> if length data \<noteq> n then Some UnexpectedEOF else None))"

definition WriteResponse :: "string \<Rightarrow> nat \<times> go_error option \<Rightarrow> string \<times> go_error option" where
  "WriteResponse marshalled res =
     (let data = marshalled @ [LF]
      in (data, case res of (n, Some err) \<Rightarrow> Some err
                | (n, None) \<Rightarrow> if length data \<noteq> n then Some UnexpectedEOF else None))"

text \<open>The line of each response.\<close>

definition response_line :: "job_map response \<Rightarrow> string" where
  "response_line r =
     (case r of
        GetResponse i d p q \<Rightarrow> fst (WriteResponse (get_response_text (status_message STATUS_OK) i d p q) (0, None))
      | PutResponse i \<Rightarrow> fst (WriteResponse (put_response (status_message STATUS_OK) i) (0, None))
      | StatusResponse st m \<Rightarrow> fst (WriteStatus st m (0, None)))"

section \<open>Texts without line feeds\<close>

definition printable :: "string \<Rightarrow> bool" where
  "printable s \<longleftrightarrow> list_all (\<lambda>c. 0x20 \<le> code c) s"

lemma printable_append [simp]: "printable (s @ t) \<longleftrightarrow> printable s \<and> printable t"
  by (simp add: printable_def)

lemma printable_Nil [simp]: "printable []"
  by (simp add: printable_def)

lemma printable_Cons: "printable (c # s) \<longleftrightarrow> 0x20 \<le> code c \<and> printable s"
  by (simp add: printable_def)

lemma printable_no_LF: "printable s \<Longrightarrow> LF \<notin> set s"
  by (auto simp: printable_def list_all_iff LF_def code_def)

lemma printable_digits: "list_all digit s \<Longrightarrow> printable s"
  by (auto simp: printable_def list_all_iff digit_def)

lemma printable_quoted:
  assumes "good_rune x"
  shows "printable (quote_rune x)"
  using assms
proof (cases rule: quote_rune_cases)
  case (escape e)
  have "\<forall>e \<in> set ''bfnrt'' \<union> {CHR 0x5C, CHR 0x22}. 0x20 \<le> code e" by code_simp
  with escape(2) have "0x20 \<le> code e" by blast
  then show ?thesis unfolding escape(1) by (simp add: printable_Cons) (simp add: code_def)
next
  case (unicode u)
  have "printable u" using unicode(2) hex_digit_plain by (auto simp: printable_def list_all_iff)
  then show ?thesis unfolding unicode(1) by (simp add: printable_Cons) (simp add: code_def)
next
  case (byte c)
  then show ?thesis by (simp add: printable_Cons ordinary_def)
next
  case bytes
  then show ?thesis using encode_high [OF bytes(2)] assms
    by (fastforce simp: printable_def list_all_iff good_rune_def)
qed

lemma printable_concat: "list_all (\<lambda>x. printable (f x)) xs \<Longrightarrow> printable (concat (map f xs))"
  by (induction xs) simp_all

lemma printable_string_text: "printable (string_text s)"
proof -
  have "list_all (\<lambda>x. printable (quote_rune x)) (runes s)"
    using runes_good [of s] printable_quoted by (auto simp: list_all_iff)
  then show ?thesis
    unfolding string_text_def quoted_def by (simp add: printable_concat printable_Cons) (simp add: code_def)
qed

lemma printable_symbols: "0x20 \<le> code (CHR ''{'')" "0x20 \<le> code (CHR ''}'')" "0x20 \<le> code (CHR ''['')" "0x20 \<le> code (CHR '']'')"
  "0x20 \<le> code (CHR '':'')" "0x20 \<le> code (CHR '','')" "0x20 \<le> code (CHR ''-'')" "0x20 \<le> code (CHR ''+'')" "0x20 \<le> code (CHR ''.'')"
  "0x20 \<le> code (CHR ''e'')"
  by (simp_all add: code_def)

lemma printable_join: "list_all printable ss \<Longrightarrow> printable (join_strings '','' ss)"
  by (induction "'',''" ss rule: join_strings.induct) (simp_all add: printable_Cons printable_symbols)

lemma printable_object: "list_all (\<lambda>x. printable (snd x)) ms \<Longrightarrow> printable (object_text ms)"
  unfolding object_text_def
  by (simp add: printable_Cons printable_symbols)
    (rule printable_join, simp add: list_all_iff printable_string_text printable_Cons printable_symbols)

lemma printable_literal: "proper ip fp \<Longrightarrow> printable (literal neg ip fp ex)"
  by (auto simp: literal_def proper_def printable_digits printable_Cons printable_symbols Itoa_digits split: option.split)

lemma printable_any: "any_ok v \<Longrightarrow> printable (any_text v)"
proof (induction v)
  case (ABool b)
  then show ?case by (simp add: printable_Cons) (simp add: code_def)
next
  case (ANumber neg x)
  then obtain ip fp ex where "float_text neg x = literal neg ip fp ex" "proper ip fp"
    using float_text_form [of x neg] unfolding any_ok.simps float_ok_def by metis
  then show ?case by (simp add: printable_literal)
next
  case (AArray vs)
  then have "list_all printable (map any_text vs)" by (auto simp: list_all_iff)
  then show ?case by (simp add: printable_join printable_Cons printable_symbols)
next
  case (AMap ms)
  have "printable (any_text (snd x))" if "x \<in> set ms" for x
    using AMap(1) [OF that, of "snd x"] AMap(2) that by (cases x) (auto simp: list_all_iff)
  then show ?case by (simp add: printable_object list_all_iff)
next
  case ANil
  then show ?case by (simp add: printable_Cons) (simp add: code_def)
qed (simp add: printable_string_text)

lemma printable_words: "printable ''null''" "printable ''true''" "printable ''false''"
  by (simp_all add: printable_def code_def)

section \<open>Parsing the lines\<close>

lemma parse_object:
  assumes "list_all2 (\<lambda>x y. to_valid (fst x) = fst y \<and> lexes (snd x) (json_tokens (snd y))) ms js"
    and "depth (JObj js) \<le> maxNestingDepth"
  shows "parse_json (object_text ms @ [LF]) = Some (JObj js)"
proof (rule parse_json_tokens [OF _ assms(2)])
  have "map2 (\<lambda>x u. Scalar (JStr (to_valid (fst x))) # Colon # u) ms (map (\<lambda>y. json_tokens (snd y)) js)
      = map (\<lambda>x. Scalar (JStr (fst x)) # Colon # json_tokens (snd x)) js"
    using assms(1) by (induction ms js rule: list_all2_induct) simp_all
  moreover have "list_all2 (\<lambda>x u. lexes (snd x) u) ms (map (\<lambda>y. json_tokens (snd y)) js)"
    using assms(1) by (simp add: list_all2_map2 list_all2_conv_all_nth)
  ultimately show "lexes (object_text ms) (json_tokens (JObj js))"
    using lexes_object by fastforce
qed (simp_all add: LF_def)

lemma valid_all_ascii: "list_all (\<lambda>c. code c < 0x80) s \<Longrightarrow> valid_utf8 s"
  by (induction s) (simp_all add: valid_Cons)

lemma valid_names:
  "valid_utf8 ''status''" "valid_utf8 ''id''" "valid_utf8 ''job''" "valid_utf8 ''pri''" "valid_utf8 ''queue''"
  "valid_utf8 ''request''" "valid_utf8 ''put''" "valid_utf8 ''ok''" "valid_utf8 ''error''" "valid_utf8 ''no-job''"
  by (rule valid_all_ascii, simp add: code_def)+

lemmas to_valid_names = valid_names [THEN to_valid_valid]

lemma lexes_valid: "valid_utf8 s \<Longrightarrow> lexes (string_text s) (json_tokens (JStr s))"
  using lexes_string [of s] by (simp add: to_valid_valid)

lemma proper_Itoa: "proper (Itoa n) []"
proof (cases "n = 0")
  case True
  moreover have "char_of (48 :: nat) = CHR ''0''" by code_simp
  ultimately have "Itoa n = ''0''" by (simp add: Itoa.simps)
  then show ?thesis by (simp add: proper_def digit_def code_def)
next
  case False
  with Itoa_no_zero [of n] show ?thesis by (simp add: proper_def Itoa_digits)
qed

lemma int_text_literal: "int_text i = literal (i < 0) (Itoa (nat \<bar>i\<bar>)) [] None"
  by (simp add: int_text_def literal_def)

lemma lexes_int: "lexes (int_text i) (json_tokens (JNum (int_text i)))"
proof -
  have "hd (int_text i) = CHR ''-'' \<or> digit (hd (int_text i))"
    using Itoa_digits [of "nat i"] by (cases "Itoa (nat i)") (auto simp: int_text_def)
  then show ?thesis
    using lexes_number [of "int_text i"] scan_literal [OF proper_Itoa, of _ "i < 0" "nat \<bar>i\<bar>" None]
    by (simp add: int_text_literal) (simp add: literal_def)
qed

lemma lexes_uint: "lexes (Itoa n) (json_tokens (JNum (Itoa n)))"
  using lexes_int [of "int n"] by (simp add: int_text_def)

lemma printable_int: "printable (int_text i)"
  by (simp add: int_text_def printable_Cons printable_symbols printable_digits Itoa_digits)

definition job_json :: "job_map \<Rightarrow> json" where
  "job_json d = (case d of None \<Rightarrow> JNull | Some m \<Rightarrow> any_json (AMap m))"

lemma lexes_job: "job_ok n d \<Longrightarrow> lexes (job_text d) (json_tokens (job_json d))"
  using lexes_any [of "AMap (the d)"]
  by (cases d) (simp_all add: job_ok_def job_text_def job_json_def lexes_words)

lemma store_job: "job_ok n d \<Longrightarrow> store_map (job_json d) None = (d, False)"
  using store_map_json [of "the d"] by (cases d) (simp_all add: job_ok_def job_json_def store_map_def)

lemma depth_job: "job_ok n d \<Longrightarrow> depth (job_json d) \<le> n"
  by (cases d) (simp_all add: job_ok_def job_json_def)

lemma store_uint_text: "n < 2 ^ 64 \<Longrightarrow> store_uint (JNum (Itoa n)) x = (of_nat n, False)"
  using Itoa_digits [of n] by (simp add: store_uint_def ParseUint64_def)

end
