(* ===== verification/Jobcentre_Requests.thy ===== *)
theory Jobcentre_Requests
  imports Jobcentre_Responses
begin

text \<open>
  The job centre with its clients: whatever bytes the clients send, the server does not panic and
  loses no job that was put and not deleted; a put request in JSON is decoded to what was encoded, and its job comes back, in the
  line of a get response, as it was put; and what a line that is not JSON leads to.
\<close>

section \<open>The server and its clients\<close>

text \<open>
  The jobs that were put and not deleted, in the order in which they were put: the put requests among
  the messages are numbered from \<open>n\<close>, and a delete request that comes later deletes its number.
\<close>

fun undeleted :: "job_id \<Rightarrow> 'd jmsg list \<Rightarrow> 'd job list" where
  "undeleted n [] = []"
| "undeleted n (PutRequest q d p # ms) =
     (if DeleteRequest n \<in> set ms then [] else [\<lparr>job_Id = n, job_data = d, job_priority = p, job_Queue = q\<rparr>])
       @ undeleted (n + 1) ms"
| "undeleted n (m # ms) = undeleted n ms"

lemma remove_at_filter:
  assumes "distinct (map job_Id js)" and "find_job js i = Some (n, j)"
  shows "remove_at n js = filter (\<lambda>j. job_Id j \<noteq> i) js"
  using assms
proof (induction js arbitrary: n)
  case (Cons k js)
  show ?case
  proof (cases "job_Id k = i")
    case True
    then have "\<forall>x \<in> set js. job_Id x \<noteq> i" using Cons.prems(1) by (auto simp: image_iff)
    with True Cons.prems(2) show ?thesis by (auto simp: remove_at_def filter_id_conv)
  next
    case False
    with Cons.prems obtain m where "find_job js i = Some (m, j)" "n = Suc m" by auto
    with Cons.IH [of m] Cons.prems(1) False show ?thesis by (simp add: remove_at_def)
  qed
qed simp

lemma filter_no_job: "find_job js i = None \<Longrightarrow> filter (\<lambda>j. job_Id j \<noteq> i) js = js"
  by (induction js) (auto split: if_splits)

lemma step_jobs:
  assumes "jc_inv s" and "jobcentre_enabled s (c, m)" and "jobcentre_step s (c, m) = Inr (t, os)"
  shows "case m of
      PutRequest q d p \<Rightarrow> jobs t = jobs s @ [new_job s q d p] \<and> jobNextId t = jobNextId s + 1
    | DeleteRequest i \<Rightarrow> jobs t = filter (\<lambda>j. job_Id j \<noteq> i) (jobs s) \<and> jobNextId t = jobNextId s
    | _ \<Rightarrow> jobs t = jobs s \<and> jobNextId t = jobNextId s"
proof (cases m)
  case JConnected
  with assms(3) show ?thesis by auto
next
  case JDisconnected
  with release_all [OF assms(1), of c] assms(2,3) show ?thesis
    by (auto simp: jc_disconnected_def same_jobs_def)
next
  case (PutRequest q d p)
  with assms(3) show ?thesis
    by (auto simp: handle_Put_def Let_def split: option.splits sum.splits)
next
  case (GetRequest ids wait)
  with assms(3) show ?thesis by (auto simp: handle_Get_def split: option.splits if_splits)
next
  case (AbortRequest i)
  with assms(3) show ?thesis by (auto simp: handle_Abort_def split: option.splits if_splits)
next
  case (DeleteRequest i)
  have "distinct (map job_Id (jobs s))" using assms(1) by (simp add: jc_inv_def ids_inv_def)
  with DeleteRequest assms(3) show ?thesis
    by (auto simp: handle_Delete_def Let_def remove_at_filter filter_no_job split: option.splits if_splits)
qed

lemma run_jobs:
  "jc_inv s \<Longrightarrow> conforming jobcentre_step jobcentre_enabled s es \<Longrightarrow> run jobcentre_step s es = Inr (t, os) \<Longrightarrow>
   jobs t = filter (\<lambda>j. DeleteRequest (job_Id j) \<notin> snd ` set es) (jobs s) @ undeleted (jobNextId s) (map snd es)"
proof (induction es arbitrary: s os)
  case (Cons e es)
  obtain c m where e: "e = (c, m)" by (cases e)
  with Cons.prems have en: "jobcentre_enabled s (c, m)" by simp
  obtain s' o1 where s: "jobcentre_step s (c, m) = Inr (s', o1)" and i: "jc_inv s'"
    using jobcentre_step_ok [OF Cons.prems(1) en] by blast
  from Cons.prems(3) s e obtain o2 where r: "run jobcentre_step s' es = Inr (t, o2)"
    by (auto split: sum.splits)
  from Cons.prems(2) s e have "conforming jobcentre_step jobcentre_enabled s' es" by simp
  note IH = Cons.IH [OF i this r]
  with step_jobs [OF Cons.prems(1) en s] show ?case
    by (cases m) (auto simp: e new_job_def conj_commute intro: filter_cong)
qed simp

text \<open>
  C10: If the messages of every client are, as far as they have arrived, those that its \<open>handler\<close> sends
  for the bytes of its connection (of which a write may fail), then the server handles all of them without
  a panic, however the messages of the clients interleave, and no job is lost. The jobs are those of the
  put requests, numbered in the order of their arrival, for which no delete request has arrived later;
  and each of these jobs is in the queue it was put in, or is assigned to a client that is connected.
\<close>

theorem job_centre_serves_its_clients:
  assumes "\<forall>c. \<exists>b input n. messages_of c es = take n (snd (jc_handler b input))" and "0 \<notin> fst ` set es"
  shows "\<exists>s os. jc_run es = Inr (s, os) \<and> jobs s = undeleted 1 (map snd es)
    \<and> (\<forall>j \<in> set (undeleted 1 (map snd es)). if owner s (job_Id j) = 0 then j \<in> set (jc_queue s (job_Queue j))
         else owner s (job_Id j) \<in> jc_clients s)"
proof -
  have "framed_peer JConnected JDisconnected False (messages_of c es)" for c
    using assms(1) jc_handler_framed by metis
  then have "framed JConnected JDisconnected {} es" by (intro framed_peers) simp_all
  then have served: "jc_served es"
    using assms(2) by (intro framed_served [OF jc_inv_init]) (simp_all add: jobcentre_init_def)
  with jobcentre_loop.run_ok [OF jc_inv_init this] obtain s os where s: "jc_run es = Inr (s, os)" "jc_inv s" by blast
  moreover have "jobs s = undeleted 1 (map snd es)"
    using run_jobs [OF jc_inv_init served s(1)] by (simp add: jobcentre_init_def)
  ultimately show ?thesis by (auto simp: jc_inv_defs)
qed

section \<open>Requests in JSON\<close>

text \<open>A put request as a client may write it, with any data for its job.\<close>

definition encode_put :: "string \<Rightarrow> job_map \<Rightarrow> nat \<Rightarrow> string" where
  "encode_put q d n =
     object_text [(''request'', string_text ''put''), (''queue'', string_text q), (''job'', job_text d), (''pri'', Itoa n)] @ [LF]"

lemma parse_encode_put:
  assumes "valid_utf8 q" and "job_ok 9999 d"
  shows "parse_json (encode_put q d n) = Some (JObj [(''request'', JStr ''put''), (''queue'', JStr q),
    (''job'', job_json d), (''pri'', JNum (Itoa n))])"
  unfolding encode_put_def
proof (rule parse_object)
  show "depth (JObj [(''request'', JStr ''put''), (''queue'', JStr q), (''job'', job_json d), (''pri'', JNum (Itoa n))])
      \<le> maxNestingDepth"
    using depth_job [OF assms(2)] by (simp add: maxNestingDepth_def)
qed (simp add: to_valid_names lexes_valid [OF assms(1)] lexes_valid valid_names lexes_uint lexes_job [OF assms(2)]
  del: json_tokens.simps)

lemma put_names:
  "fold_name ''queue'' \<noteq> fold_name ''request''" "fold_name ''job'' \<noteq> fold_name ''request''"
  "fold_name ''pri'' \<noteq> fold_name ''request''" "fold_name ''request'' \<noteq> fold_name ''queue''"
  "fold_name ''request'' \<noteq> fold_name ''job''" "fold_name ''request'' \<noteq> fold_name ''pri''"
  "fold_name ''job'' \<noteq> fold_name ''queue''" "fold_name ''pri'' \<noteq> fold_name ''queue''"
  "fold_name ''pri'' \<noteq> fold_name ''job''"
  by (simp_all add: fold_name_def runes.simps code_def fold_rune_def Let_def)

lemma jc_line_put:
  assumes "valid_utf8 q" and "job_ok 9999 d" and "n < 2 ^ 64"
  shows "jc_line request (encode_put q d n) = (''put'', [], [PutRequest q d (of_nat n)])"
proof -
  have "Unmarshal_json store_put (encode_put q d n) \<lparr>pr_Queue = [], pr_Job = None, pr_Pri = 0\<rparr>
      = (\<lparr>pr_Queue = q, pr_Job = d, pr_Pri = of_nat n\<rparr>, None)"
    using put_names by (simp add: Unmarshal_json_def parse_encode_put [OF assms(1,2)] store_put_def store_string_def
        store_job [OF assms(2)] store_uint_text [OF assms(3)])
  moreover have "Unmarshal_json store_request (encode_put q d n) request = (''put'', None)"
    using put_names by (simp add: Unmarshal_json_def parse_encode_put [OF assms(1,2)] store_request_def store_string_def)
  ultimately show ?thesis by (simp add: jc_line_def decode_request_def Let_def)
qed

text \<open>
  C31: A put request in JSON, whatever the name of its queue and the data of its job (strings with any
  runes, finite numbers, objects and arrays nested up to the depth that \<open>json.Unmarshal\<close> allows) and with
  a priority that fits 64 bits, is sent to the server as it was meant, whatever came before it, and
  the client is told nothing (the server answers).
\<close>

theorem put_line_is_decoded:
  assumes "valid_utf8 q" and "job_ok 9999 d" and "n < 2 ^ 64"
  shows "jc_line request (encode_put q d n) = (''put'', [], [PutRequest q d (of_nat n)])"
  by (rule jc_line_put [OF assms])

lemma ex_data: "valid_utf8 ''q1''" "job_ok 9999 (Some [(''title'', AArray [AString ''a job'', ANil])])"
proof -
  show "valid_utf8 ''q1''" by (rule valid_all_ascii) (simp add: code_def)
  have "valid_utf8 ''title''" "valid_utf8 ''a job''" by (rule valid_all_ascii, simp add: code_def)+
  then show "job_ok 9999 (Some [(''title'', AArray [AString ''a job'', ANil])])" by (simp add: job_ok_def)
qed

theorem put_line_is_decoded_witness:
  "jc_line ''get'' (encode_put ''q1'' (Some [(''title'', AArray [AString ''a job'', ANil])]) 123)
     = (''put'', [], [PutRequest ''q1'' (Some [(''title'', AArray [AString ''a job'', ANil])]) 123])"
  using put_line_is_decoded [OF ex_data, of 123 "''get''"] by simp

section \<open>The job of a get response\<close>

text \<open>What \<open>json.Unmarshal\<close> makes of a put request can be printed.\<close>

definition put_request_ok :: "put_request \<Rightarrow> bool" where
  "put_request_ok r \<longleftrightarrow> valid_utf8 (pr_Queue r) \<and> job_ok 9999 (pr_Job r)"

lemma store_members_inv:
  assumes "\<And>k v r. (k, v) \<in> set ms \<Longrightarrow> P r \<Longrightarrow> P (fst (store k v r))" and "P r"
  shows "P (fst (store_members store ms r))"
  using assms
proof (induction ms arbitrary: r)
  case (Cons m ms)
  obtain k v where m: "m = (k, v)" by (cases m)
  have "P (fst (store k v r))" using Cons.prems m by simp
  from Cons.IH [OF _ this] Cons.prems(1) show ?case by (simp add: m case_prod_beta Let_def)
qed simp

lemma store_put_ok:
  assumes "put_request_ok r" and "json_ok v" and "depth v \<le> 9999"
  shows "put_request_ok (fst (store_put k v r))"
  using assms store_map_ok [OF assms(2,3)]
  by (auto simp: store_put_def put_request_ok_def store_string_def case_prod_beta Let_def split: json.splits)

lemma Unmarshal_put_ok:
  assumes "put_request_ok r"
  shows "put_request_ok (fst (Unmarshal_json store_put data r))"
proof (cases "parse_json data")
  case (Some v)
  from parse_json_ok [OF Some] have v: "json_ok v" "depth v \<le> 10000" by (simp_all add: maxNestingDepth_def)
  have "put_request_ok (fst (store_members store_put ms r))" if "v = JObj ms" for ms
  proof (rule store_members_inv [where P = put_request_ok])
    fix k w r' assume "(k, w) \<in> set ms" "put_request_ok r'"
    moreover from this v that have "json_ok w" "depth w \<le> 9999" by (auto simp: list_all_iff foldr_max_le)
    ultimately show "put_request_ok (fst (store_put k w r'))" by (intro store_put_ok)
  qed (rule assms)
  with Some assms show ?thesis by (auto simp: Unmarshal_json_def case_prod_beta Let_def split: json.split)
qed (use assms in \<open>simp add: Unmarshal_json_def\<close>)

lemma decoded_put_ok:
  assumes "PutRequest q d p \<in> set (snd (snd (jc_line request line)))"
  shows "valid_utf8 q \<and> job_ok 9999 d"
  using assms Unmarshal_put_ok [of "\<lparr>pr_Queue = [], pr_Job = None, pr_Pri = 0\<rparr>" line]
  by (auto simp: jc_line_def decode_request_def put_request_ok_def job_ok_def Let_def split: prod.splits option.splits if_splits)

lemma response_line_get:
  assumes "valid_utf8 q" and "job_ok 9999 d"
  shows "\<exists>t. response_line (GetResponse i d p q) = t @ [LF] \<and> LF \<notin> set t
    \<and> parse_json (t @ [LF]) = Some (JObj [(''status'', JStr ''ok''), (''id'', JNum (int_text i)), (''job'', job_json d),
        (''pri'', JNum (Itoa (unat p))), (''queue'', JStr q)])"
proof -
  let ?t = "get_response_text ''ok'' i d p q"
  let ?js = "[(''status'', JStr ''ok''), (''id'', JNum (int_text i)), (''job'', job_json d), (''pri'', JNum (Itoa (unat p))), (''queue'', JStr q)]"
  have "response_line (GetResponse i d p q) = ?t @ [LF]"
    by (simp add: response_line_def WriteResponse_def status_message_def)
  moreover have "printable (job_text d)"
    using assms(2) printable_any [of "AMap (the d)"] by (cases d) (simp_all add: job_ok_def job_text_def printable_words)
  then have "LF \<notin> set ?t"
    unfolding get_response_text_def
    by (intro printable_no_LF printable_object)
      (simp add: printable_string_text printable_int printable_digits Itoa_digits)
  moreover have "parse_json (?t @ [LF]) = Some (JObj ?js)"
    unfolding get_response_text_def
  proof (rule parse_object)
    show "depth (JObj ?js) \<le> maxNestingDepth"
      using depth_job [OF assms(2)] by (simp add: maxNestingDepth_def)
  qed (simp add: to_valid_names lexes_valid [OF assms(1)] lexes_valid valid_names lexes_uint lexes_int lexes_job [OF assms(2)]
    del: json_tokens.simps)
  ultimately show ?thesis by blast
qed

text \<open>
  The data of a job survive the job centre: when a line of a client is decoded to a put request,
  then the line that answers a get request with this job is a single line of JSON, its member \<open>job\<close>
  stores exactly the data that were put, and its members \<open>pri\<close> and \<open>queue\<close> the same priority and queue.
\<close>

theorem a_job_comes_back_as_it_was_put:
  assumes "jc_line request line = (request', ws, [PutRequest q d p])"
  shows "\<exists>t j n. response_line (GetResponse i d p q) = t @ [LF] \<and> LF \<notin> set t
    \<and> parse_json (t @ [LF]) = Some (JObj [(''status'', JStr ''ok''), (''id'', JNum (int_text i)), (''job'', j),
        (''pri'', JNum n), (''queue'', JStr q)])
    \<and> store_map j None = (d, False) \<and> store_uint (JNum n) 0 = (p, False)"
proof -
  from decoded_put_ok [of q d p request line] assms have ok: "valid_utf8 q" "job_ok 9999 d" by simp_all
  have "store_uint (JNum (Itoa (unat p))) 0 = (p, False)"
    using store_uint_text [of "unat p" 0] unsigned_less [of p] by simp
  with response_line_get [OF ok, of i p] store_job [OF ok(2)] show ?thesis by blast
qed

theorem a_job_comes_back_as_it_was_put_witness:
  "\<exists>t j n. response_line (GetResponse 1 (Some [(''title'', AArray [AString ''a job'', ANil])]) 123 ''q1'') = t @ [LF] \<and> LF \<notin> set t
    \<and> parse_json (t @ [LF]) = Some (JObj [(''status'', JStr ''ok''), (''id'', JNum (int_text 1)), (''job'', j),
        (''pri'', JNum n), (''queue'', JStr ''q1'')])
    \<and> store_map j None = (Some [(''title'', AArray [AString ''a job'', ANil])], False) \<and> store_uint (JNum n) 0 = (123, False)"
proof (rule a_job_comes_back_as_it_was_put)
  show "jc_line ''get'' (encode_put ''q1'' (Some [(''title'', AArray [AString ''a job'', ANil])]) 123)
     = (''put'', [], [PutRequest ''q1'' (Some [(''title'', AArray [AString ''a job'', ANil])]) 123])"
    using jc_line_put [OF ex_data, of 123 "''get''"] by simp
qed

text \<open>
  A line that is not JSON repeats the kind of the request before it: after a get request the client
  is sent two errors, and the server a get request without queues.
\<close>

theorem a_bad_line_repeats_the_request:
  assumes "parse_json data = None"
  shows "jc_line ''get'' data = (''get'',
    [StatusResponse STATUS_ERROR UNKNOWN_ERROR, StatusResponse STATUS_ERROR ''invalid put request''], [GetRequest [] None])"
  using assms by (simp add: jc_line_def decode_request_def Unmarshal_json_def Let_def)

lemma ex_not_json: "parse_json (''oops'' @ [LF]) = None"
  by (simp add: parse_json_def lex_json.simps(2) json_space_def code_def digit_def scan_number_def scan_int_def leading_def)

theorem a_bad_line_repeats_the_request_witness:
  "jc_line ''get'' (''oops'' @ [LF]) = (''get'',
    [StatusResponse STATUS_ERROR UNKNOWN_ERROR, StatusResponse STATUS_ERROR ''invalid put request''], [GetRequest [] None])"
  by (rule a_bad_line_repeats_the_request [OF ex_not_json])

text \<open>A run of the server with the messages of one client, from its bytes.\<close>

definition ex_input :: string where
  "ex_input = encode_put ''q1'' (Some [(''title'', AArray [AString ''a job'', ANil])]) 5"

definition ex_messages :: "(peer_id \<times> job_map jmsg) list" where
  "ex_messages = [(1, JConnected), (1, PutRequest ''q1'' (Some [(''title'', AArray [AString ''a job'', ANil])]) 5), (1, JDisconnected)]"

lemma ex_input_messages: "snd (jc_handler None ex_input) = map snd ex_messages"
proof -
  obtain t where t: "ex_input = t @ [LF]" "printable t"
  proof
    show "ex_input = object_text [(''request'', string_text ''put''), (''queue'', string_text ''q1''),
      (''job'', job_text (Some [(''title'', AArray [AString ''a job'', ANil])])), (''pri'', Itoa 5)] @ [LF]"
      by (simp add: ex_input_def encode_put_def)
    have "printable (any_text (AMap [(''title'', AArray [AString ''a job'', ANil])]))"
      using ex_data(2) by (intro printable_any) (simp add: job_ok_def)
    then show "printable (object_text [(''request'', string_text ''put''), (''queue'', string_text ''q1''),
      (''job'', job_text (Some [(''title'', AArray [AString ''a job'', ANil])])), (''pri'', Itoa 5)])"
      by (intro printable_object) (simp add: printable_string_text printable_digits Itoa_digits job_text_def del: any_text.simps)
  qed
  then have "lines_of LF ex_input = [ex_input]"
    using printable_no_LF [OF t(2)] by (simp add: t(1))
  moreover have "jc_line [] ex_input = (''put'', [], [PutRequest ''q1'' (Some [(''title'', AArray [AString ''a job'', ANil])]) 5])"
    using jc_line_put [OF ex_data, of 5 "[]"] by (simp add: ex_input_def)
  ultimately show ?thesis by (simp add: jc_handler_def ex_messages_def)
qed

theorem job_centre_serves_its_clients_witness:
  "\<exists>s os. jc_run ex_messages = Inr (s, os)
    \<and> jobs s = [\<lparr>job_Id = 1, job_data = Some [(''title'', AArray [AString ''a job'', ANil])], job_priority = 5, job_Queue = ''q1''\<rparr>]"
proof -
  have "messages_of c ex_messages = take (if c = 1 then 3 else 0) (snd (jc_handler None ex_input))" for c :: peer_id
    unfolding ex_input_messages by (simp add: ex_messages_def)
  then have "\<forall>c :: peer_id. \<exists>b input n. messages_of c ex_messages = take n (snd (jc_handler b input))"
    by blast
  moreover have "0 \<notin> fst ` set ex_messages" by (simp add: ex_messages_def)
  ultimately show ?thesis
    using job_centre_serves_its_clients [of ex_messages] by (auto simp: ex_messages_def)
qed

end
