(* ===== verification/Jobcentre_System.thy ===== *)
theory Jobcentre_System
  imports Jobcentre_Requests
begin

text \<open>
  The whole job centre, from the bytes that clients send to the lines that clients are sent: every
  job that is handed out is one that was put, with the data, the priority and the queue it was put with.
\<close>

section \<open>Where the jobs come from\<close>

text \<open>The put requests among the messages, in order.\<close>

fun puts :: "(peer_id \<times> 'd jmsg) list \<Rightarrow> (string \<times> 'd \<times> pri) list" where
  "puts [] = []"
| "puts ((c, PutRequest q d p) # es) = (q, d, p) # puts es"
| "puts (e # es) = puts es"

lemma puts_append [simp]: "puts (es @ fs) = puts es @ puts fs"
  by (induction es rule: puts.induct) auto

lemma puts_set: "(q, d, p) \<in> set (puts es) \<longleftrightarrow> (\<exists>c. (c, PutRequest q d p) \<in> set es)"
  by (induction es rule: puts.induct) auto

definition new_jobs :: "'d jobcentre \<Rightarrow> peer_id \<times> 'd jmsg \<Rightarrow> 'd job set" where
  "new_jobs s e = (case snd e of PutRequest q d p \<Rightarrow> {new_job s q d p} | _ \<Rightarrow> {})"

text \<open>The job \<open>j\<close> is the put request with the number \<open>job_Id j\<close>, counted from 1.\<close>

definition filed :: "(string \<times> 'd \<times> pri) list \<Rightarrow> 'd job \<Rightarrow> bool" where
  "filed ps j \<longleftrightarrow> 1 \<le> job_Id j \<and> job_Id j \<le> int (length ps)
     \<and> ps ! nat (job_Id j - 1) = (job_Queue j, job_data j, job_priority j)"

lemma filed_append: "filed ps j \<Longrightarrow> filed (ps @ qs) j"
  by (auto simp: filed_def nth_append)

definition handed_out :: "'d job set \<Rightarrow> 'd reply list \<Rightarrow> bool" where
  "handed_out K os \<longleftrightarrow> (\<forall>c i d p q. (c, GetResponse i d p q) \<in> set os \<longrightarrow> (\<exists>j \<in> K. get_response j = GetResponse i d p q))"

lemma handed_out_simps [simp]:
  "handed_out K []" "handed_out K ((c, PutResponse i) # os) = handed_out K os"
  "handed_out K ((c, StatusResponse st m) # os) = handed_out K os"
  "handed_out K (os @ os') = (handed_out K os \<and> handed_out K os')"
  by (auto simp: handed_out_def)

lemma handed_out_mono: "handed_out K os \<Longrightarrow> K \<subseteq> L \<Longrightarrow> handed_out L os"
  unfolding handed_out_def by blast

lemma handed_out_get: "j \<in> K \<Longrightarrow> handed_out K [(c, get_response j)]"
  by (auto simp: handed_out_def)

lemma handed_out_reply: "reply_to cl c (get_response j) = Inr os \<Longrightarrow> j \<in> K \<Longrightarrow> handed_out K os"
  by (auto simp: reply_to_def handed_out_get split: if_splits)

lemma known_enqueue: "known_jobs (s\<lparr>queues := enqueue (queues s) j\<rparr>) = insert j (known_jobs s)"
  by (auto simp: known_jobs_def lookup_enqueue split: if_splits)

lemma known_fields [simp]:
  "known_jobs (s\<lparr>owner := ow\<rparr>) = known_jobs s" "known_jobs (s\<lparr>waiters := ws\<rparr>) = known_jobs s"
  "known_jobs (s\<lparr>jc_clients := cl\<rparr>) = known_jobs s"
  by (simp_all add: known_jobs_def)

lemma release_job_known:
  assumes "release_job c job s a = Inr (t, b, os)" and "job \<in> K" "known_jobs s \<subseteq> K"
  shows "known_jobs t \<subseteq> K \<and> jobNextId t = jobNextId s \<and> handed_out K os"
  using assms known_enqueue [of "s\<lparr>owner := (owner s)(job_Id job := 0)\<rparr>" job]
  by (auto simp: release_job_def handed_out_reply split: if_splits option.splits sum.splits) blast+

lemma release_jobs_known:
  "release_jobs c js s a = Inr (t, b, os) \<Longrightarrow> set js \<subseteq> K \<Longrightarrow> known_jobs s \<subseteq> K \<Longrightarrow>
   known_jobs t \<subseteq> K \<and> jobNextId t = jobNextId s \<and> handed_out K os"
proof (induction js arbitrary: s a os)
  case Nil
  then show ?case by simp
next
  case (Cons j js)
  then obtain s1 a1 os1 os2 where 1: "release_job c j s a = Inr (s1, a1, os1)"
    and 2: "release_jobs c js s1 a1 = Inr (t, b, os2)" "os = os1 @ os2"
    by (auto split: sum.splits prod.splits)
  from release_job_known [OF 1, of K] Cons.prems(2,3) Cons.IH [OF 2(1)] 2(2) show ?case by simp
qed

lemma known_add_job: "known_jobs (add_job s j) = insert j (known_jobs s)"
  by (auto simp: known_jobs_def add_job_def lookup_enqueue split: if_splits)

lemma step_known:
  assumes "jobcentre_step s e = Inr (t, os)"
  shows "jobNextId t = jobNextId s + int (length (puts [e])) \<and> known_jobs t \<subseteq> known_jobs s \<union> new_jobs s e
    \<and> handed_out (known_jobs s \<union> new_jobs s e) os"
proof -
  obtain c m where e: "e = (c, m)" by (cases e)
  show ?thesis
  proof (cases m)
    case JConnected
    with e assms show ?thesis by (auto simp: new_jobs_def)
  next
    case JDisconnected
    let ?s = "s\<lparr>jc_clients := jc_clients s - {c}\<rparr>"
    from JDisconnected e assms obtain s1 a where
      "release_jobs c (jobs s) ?s (DeleteFunc_waiters c (waiters s)) = Inr (s1, a, os)" "t = s1\<lparr>waiters := slice a @ behind a\<rparr>"
      by (auto simp: jc_disconnected_def split: sum.splits)
    with release_jobs_known [OF this(1), of "known_jobs s"] JDisconnected e show ?thesis
      by (auto simp: new_jobs_def known_jobs_def)
  next
    case (PutRequest q d p)
    with e assms show ?thesis
      by (auto simp: handle_Put_def Let_def new_jobs_def known_add_job handed_out_reply split: option.splits sum.splits)
  next
    case (GetRequest ids wait)
    show ?thesis
    proof (cases "pick_queues (queues s) ids None")
      case None
      with GetRequest e assms show ?thesis by (auto simp: handle_Get_def new_jobs_def split: if_splits)
    next
      case (Some j)
      from pick_queues_in [OF this] have "j \<in> known_jobs s" by (auto simp: known_jobs_def)
      moreover have "known_jobs t \<subseteq> known_jobs s"
        using Some GetRequest e assms by (auto simp: handle_Get_def known_jobs_def split: if_splits)
      ultimately show ?thesis
        using Some GetRequest e assms by (auto simp: handle_Get_def new_jobs_def handed_out_get)
    qed
  next
    case (AbortRequest i)
    show ?thesis
    proof (cases "find_job (jobs s) i")
      case None
      with AbortRequest e assms show ?thesis by (auto simp: handle_Abort_def new_jobs_def)
    next
      case (Some x)
      then obtain n j where x: "find_job (jobs s) i = Some (n, j)" by (cases x) auto
      then have "j \<in> known_jobs s" using find_job_Some [OF x] by (auto simp: known_jobs_def)
      then show ?thesis
        using x AbortRequest e assms known_enqueue [of s j] by (auto simp: handle_Abort_def new_jobs_def split: if_splits)
    qed
  next
    case (DeleteRequest i)
    have "set (remove_at n xs) \<subseteq> set xs" for n and xs :: "'a job list" by (rule set_remove_at_subset)
    then have "known_jobs t \<subseteq> known_jobs s"
      using DeleteRequest e assms
      by (fastforce simp: handle_Delete_def Let_def known_jobs_def split: option.splits if_splits)
    then show ?thesis
      using DeleteRequest e assms by (auto simp: handle_Delete_def Let_def new_jobs_def split: option.splits if_splits)
  qed
qed

lemma run_filed:
  "jc_run es = Inr (s, os) \<Longrightarrow> jobNextId s = 1 + int (length (puts es)) \<and> (\<forall>j \<in> known_jobs s. filed (puts es) j)
     \<and> handed_out {j. filed (puts es) j} os"
proof (induction es arbitrary: s os rule: rev_induct)
  case Nil
  then have "s = jobcentre_init" "os = []" by auto
  then show ?case by (simp add: jobcentre_init_def known_jobs_def)
next
  case (snoc e es)
  then obtain s1 os1 os2 where 1: "jc_run es = Inr (s1, os1)" "jobcentre_step s1 e = Inr (s, os2)" "os = os1 @ os2"
    by (auto simp: run_append split: sum.splits)
  from snoc.IH [OF 1(1)] have ih: "jobNextId s1 = 1 + int (length (puts es))" "\<forall>j \<in> known_jobs s1. filed (puts es) j"
      "handed_out {j. filed (puts es) j} os1"
    by simp_all
  have new: "filed (puts es @ puts [e]) j" if "j \<in> new_jobs s1 e" for j
    using that ih(1) by (cases e; cases "snd e") (auto simp: new_jobs_def filed_def new_job_def)
  note st = step_known [OF 1(2)]
  let ?ps = "puts es @ puts [e]"
  have all: "known_jobs s1 \<union> new_jobs s1 e \<subseteq> {j. filed ?ps j}" using ih(2) new filed_append by blast
  then have "known_jobs s \<subseteq> {j. filed ?ps j}" using st by blast
  moreover have "handed_out {j. filed ?ps j} os1"
    by (rule handed_out_mono [OF ih(3)]) (use filed_append in blast)
  moreover have "handed_out {j. filed ?ps j} os2"
    by (rule handed_out_mono [OF _ all]) (use st in blast)
  moreover have "jobNextId s = 1 + int (length ?ps)" using ih(1) st by simp
  ultimately show ?case using 1(3) by (simp only: puts_append handed_out_simps) blast
qed

section \<open>The job centre\<close>

lemma jc_lines_line:
  "m \<in> set (snd (jc_lines b r ls)) \<Longrightarrow> \<exists>r' l. m \<in> set (snd (snd (jc_line r' l)))"
proof (induction ls arbitrary: b r)
  case (Cons l ls)
  obtain r' ws ms where 1: "jc_line r l = (r', ws, ms)" by (cases "jc_line r l") auto
  obtain b' where "m \<in> set ms \<or> m \<in> set (snd (jc_lines b' r' ls))"
    using Cons.prems 1 by (cases b) (auto simp: case_prod_beta Let_def split: if_splits)
  with 1 Cons.IH [of b' r'] show ?case by (metis snd_conv)
qed simp

lemma handler_put_ok:
  assumes "PutRequest q d p \<in> set (snd (jc_handler b input))"
  shows "valid_utf8 q \<and> job_ok 9999 d"
proof -
  have "PutRequest q d p \<in> set (snd (jc_lines b [] (lines_of LF input)))"
    using assms by (simp add: jc_handler_def case_prod_beta Let_def)
  from jc_lines_line [OF this] show ?thesis using decoded_put_ok by blast
qed

lemma messages_of_in: "(c, m) \<in> set es \<Longrightarrow> m \<in> set (messages_of c es)"
  by (force simp: messages_of_def)

text \<open>
  C5: In every run of the job centre with any clients, whatever bytes they send, which of the writes
  to them fails and however their messages interleave: each get response that is written is one line
  of JSON for a job that was put before. Its id is the number of the put request, counted from 1, and
  its members \<open>job\<close>, \<open>pri\<close> and \<open>queue\<close> are read back as exactly the data, the priority and the queue of
  this request.
\<close>

theorem only_put_jobs_are_handed_out:
  assumes "\<forall>c. \<exists>b input n. messages_of c es = take n (snd (jc_handler b input))"
    and "jc_run es = Inr (s, os)" and "(c, GetResponse i d p q) \<in> set os"
  shows "1 \<le> i \<and> i \<le> int (length (puts es)) \<and> puts es ! nat (i - 1) = (q, d, p)
    \<and> (\<exists>t j n. response_line (GetResponse i d p q) = t @ [LF] \<and> LF \<notin> set t
        \<and> parse_json (t @ [LF]) = Some (JObj [(''status'', JStr ''ok''), (''id'', JNum (int_text i)), (''job'', j),
            (''pri'', JNum n), (''queue'', JStr q)])
        \<and> store_map j None = (d, False) \<and> store_uint (JNum n) 0 = (p, False))"
proof -
  have "handed_out {j. filed (puts es) j} os" using run_filed [OF assms(2)] by blast
  with assms(3) obtain job where "filed (puts es) job" "get_response job = GetResponse i d p q"
    unfolding handed_out_def by blast
  then have f: "1 \<le> i" "i \<le> int (length (puts es))" "puts es ! nat (i - 1) = (q, d, p)"
    by (auto simp: filed_def get_response_def)
  then have "nat (i - 1) < length (puts es)" by linarith
  with f(3) have "(q, d, p) \<in> set (puts es)" by (metis nth_mem)
  then obtain c' where "(c', PutRequest q d p) \<in> set es" by (auto simp: puts_set)
  from messages_of_in [OF this] assms(1) obtain b input where "PutRequest q d p \<in> set (snd (jc_handler b input))"
    by (metis in_set_takeD)
  from handler_put_ok [OF this] have ok: "valid_utf8 q" "job_ok 9999 d" by simp_all
  have "store_uint (JNum (Itoa (unat p))) 0 = (p, False)"
    using store_uint_text [of "unat p" 0] unsigned_less [of p] by simp
  with response_line_get [OF ok, of i p] store_job [OF ok(2)] f show ?thesis by blast
qed

section \<open>A run\<close>

text \<open>A get request as a client may write it.\<close>

definition encode_get :: "string list \<Rightarrow> string" where
  "encode_get qs = object_text [(''request'', string_text ''get''),
     (''queues'', ''['' @ join_strings '','' (map string_text qs) @ '']'')] @ [LF]"

lemma valid_get_names: "valid_utf8 ''get''" "valid_utf8 ''queues''"
  by (rule valid_all_ascii, simp add: code_def)+

lemma lexes_strings:
  "list_all valid_utf8 qs \<Longrightarrow>
   lexes (''['' @ join_strings '','' (map string_text qs) @ '']'') (json_tokens (JArr (map JStr qs)))"
proof -
  assume "list_all valid_utf8 qs"
  then have "list_all2 lexes (map string_text qs) (map (\<lambda>q. json_tokens (JStr q)) qs)"
    by (simp add: list_all2_map1 list_all2_map2 list_all2_same list_all_iff lexes_valid del: json_tokens.simps)
  from lexes_list [OF this] show ?thesis by (simp add: comp_def)
qed

lemma parse_encode_get:
  assumes "list_all valid_utf8 qs"
  shows "parse_json (encode_get qs) = Some (JObj [(''request'', JStr ''get''), (''queues'', JArr (map JStr qs))])"
  unfolding encode_get_def
proof (rule parse_object)
  have "foldr max (map depth (map JStr qs)) 0 = 0" by (induction qs) simp_all
  then show "depth (JObj [(''request'', JStr ''get''), (''queues'', JArr (map JStr qs))]) \<le> maxNestingDepth"
    by (simp add: maxNestingDepth_def)
  show "list_all2 (\<lambda>x y. to_valid (fst x) = fst y \<and> lexes (snd x) (json_tokens (snd y)))
      [(''request'', string_text ''get''), (''queues'', ''['' @ join_strings '','' (map string_text qs) @ '']'')]
      [(''request'', JStr ''get''), (''queues'', JArr (map JStr qs))]"
    using lexes_strings [OF assms] lexes_valid [OF valid_get_names(1)]
    by (simp add: to_valid_names to_valid_valid valid_get_names del: json_tokens.simps)
qed

lemma store_elems_strings: "store_elems (length arr) (map JStr qs) arr = (arr @ qs, False)"
proof (induction qs arbitrary: arr)
  case (Cons q qs)
  from Cons [of "arr @ [q]"] show ?case by (simp add: store_string_def)
qed simp

lemma get_names:
  "fold_name ''queues'' \<noteq> fold_name ''request''" "fold_name ''request'' \<noteq> fold_name ''queues''"
  "fold_name ''request'' \<noteq> fold_name ''wait''" "fold_name ''queues'' \<noteq> fold_name ''wait''"
  by (simp_all add: fold_name_def runes.simps code_def fold_rune_def Let_def)

lemma jc_line_get:
  assumes "list_all valid_utf8 qs"
  shows "jc_line request (encode_get qs) = (''get'', [], [GetRequest qs None])"
proof -
  have "store_strings (JArr (map JStr qs)) ([], 0) = ((qs, length qs), False)"
    using store_elems_strings [of "[]" qs] by (simp add: store_strings_def)
  then have "Unmarshal_json store_get (encode_get qs) \<lparr>gr_Queues = ([], 0), gr_Wait = None\<rparr>
      = (\<lparr>gr_Queues = (qs, length qs), gr_Wait = None\<rparr>, None)"
    using get_names by (simp add: Unmarshal_json_def parse_encode_get [OF assms] store_get_def)
  moreover have "Unmarshal_json store_request (encode_get qs) request = (''get'', None)"
    using get_names by (simp add: Unmarshal_json_def parse_encode_get [OF assms] store_request_def store_string_def)
  ultimately show ?thesis by (simp add: jc_line_def decode_request_def Let_def)
qed

lemma printable_get: "\<exists>t. encode_get qs = t @ [LF] \<and> LF \<notin> set t"
proof -
  have "printable (join_strings '','' (map string_text qs))"
    by (rule printable_join) (simp add: list_all_iff printable_string_text)
  then have "printable (object_text [(''request'', string_text ''get''),
      (''queues'', ''['' @ join_strings '','' (map string_text qs) @ '']'')])"
    by (intro printable_object) (simp add: printable_string_text printable_Cons printable_symbols)
  then show ?thesis unfolding encode_get_def using printable_no_LF by blast
qed

definition ex_exchange :: "(peer_id \<times> job_map jmsg) list" where
  "ex_exchange = [(1, JConnected), (2, JConnected),
     (1, PutRequest ''q1'' (Some [(''title'', AArray [AString ''a job'', ANil])]) 5), (2, GetRequest [''q1''] None)]"

lemma ex_exchange_messages: "\<exists>b input n. messages_of c ex_exchange = take n (snd (jc_handler b input))"
proof -
  obtain t where t: "encode_get [''q1''] = t @ [LF]" "LF \<notin> set t" using printable_get by blast
  then have "lines_of LF (encode_get [''q1'']) = [encode_get [''q1'']]" by simp
  then have get: "snd (jc_handler None (encode_get [''q1''])) = [JConnected, GetRequest [''q1''] None, JDisconnected]"
    using jc_line_get [of "[''q1'']" "[]"] ex_data(1) by (simp add: jc_handler_def)
  have put: "snd (jc_handler None ex_input)
      = [JConnected, PutRequest ''q1'' (Some [(''title'', AArray [AString ''a job'', ANil])]) 5, JDisconnected]"
    by (simp add: ex_input_messages ex_messages_def)
  consider "c = 1" | "c = 2" | "c \<noteq> 1" "c \<noteq> 2" by blast
  then show ?thesis
  proof cases
    case 1
    then have "messages_of c ex_exchange = take 2 (snd (jc_handler None ex_input))"
      by (simp add: put ex_exchange_def)
    then show ?thesis by blast
  next
    case 2
    then have "messages_of c ex_exchange = take 2 (snd (jc_handler None (encode_get [''q1''])))"
      by (simp add: get ex_exchange_def)
    then show ?thesis by blast
  next
    case 3
    then have "messages_of c ex_exchange = take 0 (snd (jc_handler None []))" by (simp add: ex_exchange_def)
    then show ?thesis by blast
  qed
qed

lemma ex_exchange_run: "\<exists>s. jc_run ex_exchange
    = Inr (s, [(1, PutResponse 1), (2, GetResponse 1 (Some [(''title'', AArray [AString ''a job'', ANil])]) 5 ''q1'')])"
  by (simp add: ex_exchange_def jobcentre_init_def handle_Put_def handle_Get_def add_job_def new_job_def enqueue_def
      get_response_def Let_def)

theorem only_put_jobs_are_handed_out_witness:
  "puts ex_exchange ! nat (1 - 1) = (''q1'', Some [(''title'', AArray [AString ''a job'', ANil])], 5)"
proof -
  obtain s where s: "jc_run ex_exchange
      = Inr (s, [(1, PutResponse 1), (2, GetResponse 1 (Some [(''title'', AArray [AString ''a job'', ANil])]) 5 ''q1'')])"
    using ex_exchange_run by blast
  from only_put_jobs_are_handed_out [OF _ s, of 2 1] ex_exchange_messages show ?thesis by simp
qed

end
