(* ===== verification/Genpackets.thy ===== *)
theory Genpackets
  imports Packets Go_Text
begin

text \<open>
  \<^verbatim>\<open>genpackets/genpackets.go\<close>: the generator of \<^verbatim>\<open>traffic/packets_gen.go\<close>. A Go source file is its
  declarations as \<open>go/parser\<close> returns them; the template is a function from a struct to the
  statements of its two methods, each with the check of its error.
\<close>

section \<open>The structs of a file\<close>

datatype expr = Ident string | ArrayType "expr option" expr | OtherExpr

datatype type_expr = StructType "(string list \<times> expr) list" | OtherType

datatype ast_spec = TypeSpec string type_expr | OtherSpec

datatype decl = GenDecl "ast_spec list" | OtherDecl

record gen_field =
  Name :: string
  Type :: string

record StructInfo =
  StructName :: string
  Fields :: "gen_field list"

fun exprToString :: "expr \<Rightarrow> string" where
  "exprToString (Ident n) = n"
| "exprToString (ArrayType l elt) = (if l = None then ''[]'' @ exprToString elt else [])"
| "exprToString OtherExpr = []"

text \<open>The types of the command line: \<open>strings.SplitSeq(*typesFlag, ",")\<close>, trimmed, without empty ones.\<close>

fun split_on :: "char \<Rightarrow> string \<Rightarrow> string \<Rightarrow> string list" where
  "split_on d [] cur = [cur]"
| "split_on d (c # s) cur = (if c = d then cur # split_on d s [] else split_on d s (cur @ [c]))"

definition types_of_flag :: "string \<Rightarrow> string list" where
  "types_of_flag flag = map TrimSpace (filter (\<lambda>t. length (TrimSpace t) > 0) (split_on (CHR '','') flag []))"

text \<open>\<open>slices.BinarySearch\<close>: strings are compared by their bytes.\<close>

fun string_less :: "string \<Rightarrow> string \<Rightarrow> bool" where
  "string_less s [] = False"
| "string_less [] (d # t) = True"
| "string_less (c # s) (d # t) = (code c < code d \<or> (c = d \<and> string_less s t))"

function search :: "string list \<Rightarrow> string \<Rightarrow> nat \<Rightarrow> nat \<Rightarrow> nat" where
  "search xs target i j =
     (if i < j
      then (let h = (i + j) div 2
            in if string_less (xs ! h) target then search xs target (h + 1) j else search xs target i h)
      else i)"
  by pat_completeness auto
termination
  by (relation "measure (\<lambda>(xs, target, i, j). j - i)") auto

declare search.simps [simp del]

definition BinarySearch :: "string list \<Rightarrow> string \<Rightarrow> nat \<times> bool" where
  "BinarySearch xs target =
     (let i = search xs target 0 (length xs) in (i, i < length xs \<and> xs ! i = target))"

definition struct_fields :: "(string list \<times> expr) list \<Rightarrow> gen_field list" where
  "struct_fields fs = concat (map (\<lambda>(names, ty). map (\<lambda>n. \<lparr>Name = n, Type = exprToString ty\<rparr>) names) fs)"

definition spec_structs :: "string list \<Rightarrow> ast_spec \<Rightarrow> StructInfo list" where
  "spec_structs types sp =
     (case sp of
        TypeSpec name (StructType fs) \<Rightarrow>
          (if length types > 0 \<and> \<not> snd (BinarySearch types name) then []
           else [\<lparr>StructName = name, Fields = struct_fields fs\<rparr>])
      | _ \<Rightarrow> [])"

definition structs_of :: "string list \<Rightarrow> decl list \<Rightarrow> StructInfo list" where
  "structs_of types ds =
     concat (map (\<lambda>d. case d of GenDecl sps \<Rightarrow> concat (map (spec_structs types) sps) | OtherDecl \<Rightarrow> []) ds)"

text \<open>
  The whole of \<open>main\<close>: \<open>parse\<close> is \<open>parser.ParseFile\<close>, and the result is the name of the file that is
  written with the structs that its text is made from. The name of the file is cut with a slice, which
  panics if it is shorter than 3 bytes.
\<close>

datatype gen_result = Usage | FatalParse go_error | SlicePanic | Generated string "StructInfo list"

definition genpackets_main :: "(string \<Rightarrow> go_error + decl list) \<Rightarrow> string \<Rightarrow> string \<Rightarrow> gen_result" where
  "genpackets_main parse fileFlag typesFlag =
     (if fileFlag = [] then Usage
      else case parse fileFlag of
             Inl err \<Rightarrow> FatalParse err
           | Inr ds \<Rightarrow>
               (if length fileFlag < 3 then SlicePanic
                else Generated (take (length fileFlag - 3) fileFlag @ ''_gen.go'') (structs_of (types_of_flag typesFlag) ds)))"

section \<open>The template\<close>

definition slice_types :: "string list" where
  "slice_types = [''[]int64'', ''[]int32'', ''[]int16'', ''[]int8'', ''[]uint64'', ''[]uint32'', ''[]uint16'', ''[]uint8'']"

definition int_types :: "string list" where
  "int_types = [''int64'', ''int32'', ''int16'', ''int8'', ''uint64'', ''uint32'', ''uint16'', ''uint8'']"

datatype marshal_stmt =
    WriteOpcode
  | WriteLength string
  | WriteString string
  | BinaryWrite string
  | MarshalPanic string string

definition marshal_field :: "gen_field \<Rightarrow> marshal_stmt list" where
  "marshal_field f =
     (if Type f = ''string'' then [WriteLength (Name f), WriteString (Name f)]
      else if Type f \<in> set slice_types then [WriteLength (Name f), BinaryWrite (Name f)]
      else if Type f \<in> set int_types then [BinaryWrite (Name f)]
      else [MarshalPanic (Type f) (Name f)])"

definition template_Marshal :: "StructInfo \<Rightarrow> marshal_stmt list" where
  "template_Marshal s = WriteOpcode # concat (map marshal_field (Fields s))"

text \<open>
  The block of a string reads its length and its bytes; the block of a slice reads its length,
  makes a slice of the type that is written in the template, reads into it and assigns it.
\<close>

datatype unmarshal_stmt =
    ReadStringBlock string
  | ReadSliceBlock string string
  | ReadBInto string string
  | UnmarshalPanic string string

definition unmarshal_field :: "gen_field \<Rightarrow> unmarshal_stmt list" where
  "unmarshal_field f =
     (if Type f = ''string'' then [ReadStringBlock (Name f)]
      else if Type f \<in> set slice_types then [ReadSliceBlock ''[]uint16'' (Name f)]
      else if Type f \<in> set int_types then [ReadBInto (Type f) (Name f)]
      else [UnmarshalPanic (Type f) (Name f)])"

definition template_Unmarshal :: "StructInfo \<Rightarrow> unmarshal_stmt list" where
  "template_Unmarshal s = concat (map unmarshal_field (Fields s))"

section \<open>What the generated code does\<close>

text \<open>
  The values of fields: strings, integers of a width in bytes (as their bit patterns), and slices of
  them, with \<open>binary.Write\<close> and \<open>binary.Read\<close> in big-endian order.
\<close>

datatype gval = VString string | VInt nat nat | VInts nat "nat list"

primrec be_bytes :: "nat \<Rightarrow> nat \<Rightarrow> bytes" where
  "be_bytes 0 n = []"
| "be_bytes (Suc w) n = be_bytes w (n div 256) @ [word_of_nat n]"

primrec be_value :: "nat \<Rightarrow> bytes \<Rightarrow> nat" where
  "be_value 0 b = 0"
| "be_value (Suc w) b = 256 * be_value w b + unat (b ! w)"

fun binary_Write :: "gval \<Rightarrow> bytes" where
  "binary_Write (VString s) = []"
| "binary_Write (VInt w n) = be_bytes w n"
| "binary_Write (VInts w ns) = concat (map (be_bytes w) ns)"

fun gval_length :: "gval \<Rightarrow> nat" where
  "gval_length (VString s) = length s"
| "gval_length (VInt w n) = 0"
| "gval_length (VInts w ns) = length ns"

fun gval_string :: "gval \<Rightarrow> string" where
  "gval_string (VString s) = s"
| "gval_string _ = []"

definition field_of :: "(string \<times> gval) list \<Rightarrow> string \<Rightarrow> gval" where
  "field_of p f = the (map_of p f)"

fun exec_marshal :: "byte \<Rightarrow> (string \<times> gval) list \<Rightarrow> marshal_stmt list \<Rightarrow> bytes option" where
  "exec_marshal opcode p [] = Some []"
| "exec_marshal opcode p (WriteOpcode # ss) = map_option ((#) opcode) (exec_marshal opcode p ss)"
| "exec_marshal opcode p (WriteLength f # ss) =
     map_option ((#) (word_of_nat (gval_length (field_of p f)))) (exec_marshal opcode p ss)"
| "exec_marshal opcode p (WriteString f # ss) =
     map_option ((@) (bytes_of_string (gval_string (field_of p f)))) (exec_marshal opcode p ss)"
| "exec_marshal opcode p (BinaryWrite f # ss) =
     map_option ((@) (binary_Write (field_of p f))) (exec_marshal opcode p ss)"
| "exec_marshal opcode p (MarshalPanic t f # ss) = None"

definition width_of :: "string \<Rightarrow> nat" where
  "width_of ty =
     (if ty \<in> set [''int64'', ''uint64''] then 8 else if ty \<in> set [''int32'', ''uint32''] then 4
      else if ty \<in> set [''int16'', ''uint16''] then 2 else 1)"

text \<open>The fields that are read, in order; \<open>binary.Read\<close> of a slice of 16-bit integers is \<open>ReadB_u16s\<close>.\<close>

fun exec_unmarshal :: "'s reader \<Rightarrow> unmarshal_stmt list \<Rightarrow> ('s, (string \<times> gval) list) io" where
  "exec_unmarshal rd [] = io_return []"
| "exec_unmarshal rd (ReadStringBlock f # ss) =
     io_bind (ReadByte rd) (\<lambda>length.
     io_bind (ReadN rd (unat length)) (\<lambda>buf.
     io_bind (exec_unmarshal rd ss) (\<lambda>r. io_return ((f, VString (string_of_bytes buf)) # r))))"
| "exec_unmarshal rd (ReadSliceBlock ty f # ss) =
     io_bind (ReadByte rd) (\<lambda>length.
     io_bind (ReadB_u16s rd (unat length)) (\<lambda>buf.
     io_bind (exec_unmarshal rd ss) (\<lambda>r. io_return ((f, VInts 2 (map unat buf)) # r))))"
| "exec_unmarshal rd (ReadBInto ty f # ss) =
     io_bind (ReadFull rd (width_of ty)) (\<lambda>b.
     io_bind (exec_unmarshal rd ss) (\<lambda>r. io_return ((f, VInt (width_of ty) (be_value (width_of ty) b)) # r)))"
| "exec_unmarshal rd (UnmarshalPanic t f # ss) = (\<lambda>s. None)"

text \<open>
  The methods of a struct compile if each slice is assigned to a field of its type and if \<open>n\<close>, which
  the block of a string declares in the body of \<open>Marshal\<close>, is declared once. Other reasons for which the
  compiler may refuse them are left out (imports that are not used, field types that do not exist), so
  what is shown of structs with \<open>compiles\<close> holds in particular of those that do compile.
\<close>

definition compiles :: "StructInfo \<Rightarrow> bool" where
  "compiles s \<longleftrightarrow>
     list_all (\<lambda>f. list_all (\<lambda>st. case st of ReadSliceBlock ty n \<Rightarrow> ty = Type f | _ \<Rightarrow> True)
       (unmarshal_field f)) (Fields s)
     \<and> length (filter (\<lambda>f. Type f = ''string'') (Fields s)) \<le> 1"

end
