(* ===== verification/Genpackets_Props.thy ===== *)
theory Genpackets_Props
  imports Genpackets
begin

text \<open>
  What the generator makes: the code generated for \<^verbatim>\<open>traffic/packets.go\<close> is the encoders and decoders
  of the packets, the methods of every struct that compiles and has supported fields are inverse to
  each other up to the length of 255, and the types of the command line select their structs if they are sorted.
\<close>

section \<open>Big-endian integers\<close>

lemma length_be_bytes [simp]: "length (be_bytes w n) = w"
  by (induction w arbitrary: n) simp_all

lemma be_value_bytes [simp]: "n < 256 ^ w \<Longrightarrow> be_value w (be_bytes w n @ r) = n"
proof (induction w arbitrary: n r)
  case (Suc w)
  then have "n div 256 < 256 ^ w" by (simp add: less_mult_imp_div_less mult.commute)
  then show ?case using Suc.IH [of "n div 256" "word_of_nat n # r"]
    by (simp add: nth_append unat_of_nat)
qed simp

lemma be_value_bytes_nil [simp]: "n < 256 ^ w \<Longrightarrow> be_value w (be_bytes w n) = n"
  using be_value_bytes [of n w "[]"] by simp

lemma Suc2: "(2::nat) = Suc (Suc 0)"
  by simp

lemma Suc4: "(4::nat) = Suc (Suc (Suc (Suc 0)))"
  by simp

lemma be_bytes_2: "be_bytes 2 n = [word_of_nat (n div 2 ^ 8), word_of_nat n]"
proof -
  have "be_bytes (Suc (Suc 0)) n = [word_of_nat (n div 2 ^ 8), word_of_nat n]" by simp
  then show ?thesis by (simp only: Suc2 [symmetric])
qed

lemma be_bytes_4: "be_bytes 4 n = [word_of_nat (n div 2 ^ 24), word_of_nat (n div 2 ^ 16),
    word_of_nat (n div 2 ^ 8), word_of_nat n]"
  unfolding Suc4 by (simp flip: div_mult2_eq)

lemma be_value_2: "be_value 2 b = 256 * unat (b ! 0) + unat (b ! 1)"
  by (simp add: numeral_2_eq_2)

lemma be_value_4: "be_value 4 b =
    256 * (256 * (256 * unat (b ! 0) + unat (b ! 1)) + unat (b ! 2)) + unat (b ! 3)"
  unfolding Suc4 by (simp add: numeral_2_eq_2 numeral_3_eq_3)

lemma word_of_nat_div: "(word_of_nat (unat w div 2 ^ k) :: byte) = ucast (drop_bit k w)"
proof -
  have "unat w div 2 ^ k = unat (drop_bit k w)"
    by (simp only: unat_drop_bit_eq) (simp only: drop_bit_eq_div)
  then show ?thesis by (simp only: of_nat_unat)
qed

lemma be_bytes_put16: "be_bytes 2 (unat w) = be_put16 (w :: u16)"
  by (simp only: be_bytes_2 word_of_nat_div be_put16_def of_nat_unat)

lemma be_bytes_put32: "be_bytes 4 (unat w) = be_put32 (w :: u32)"
  by (simp only: be_bytes_4 word_of_nat_div be_put32_def of_nat_unat)

lemma byte_less: "unat (x :: byte) < 256"
  using unsigned_less [of x] by simp

lemma word_of_nat_shift [simp]: "word_of_nat (256 * n + unat x) = (x :: byte)"
  by (rule unsigned_word_eqI [where ?'a = nat]) (simp only: unat_of_nat, simp add: byte_less)

lemma be_bytes_value: "length b = w \<Longrightarrow> be_bytes w (be_value w b) = b"
proof (induction w arbitrary: b)
  case (Suc w)
  then obtain c x where b: "b = c @ [x]" and c: "length c = w"
    by (metis length_Suc_conv_rev)
  have v: "be_value v (c @ [x]) = be_value v c" if "v \<le> length c" for v
    using that by (induction v) (simp_all add: nth_append)
  have "(256 * be_value w c + unat x) div 256 = be_value w c" using byte_less [of x] by simp
  moreover have "be_value w (c @ [x]) = be_value w c" "(c @ [x]) ! w = x"
    using v [of w] c by (auto simp: nth_append)
  ultimately show ?case using Suc.IH [OF c] by (simp only: b be_bytes.simps be_value.simps word_of_nat_shift)
qed simp

lemma be_value_get16: "be_value 2 b = unat (be_get16 b)"
proof -
  let ?n = "be_value 2 b" and ?c = "[b ! 0, b ! 1]"
  have lt: "?n < 2 ^ 16" using byte_less [of "b ! 0"] byte_less [of "b ! 1"] by (simp add: be_value_2)
  then have n: "unat (word_of_nat ?n :: u16) = ?n" by (simp add: unat_of_nat)
  have "be_value 2 ?c = ?n" by (simp add: be_value_2)
  then have "be_put16 (word_of_nat ?n) = ?c"
    using be_bytes_value [of ?c 2] be_bytes_put16 [of "word_of_nat ?n"] n by simp
  then have "be_get16 ?c = word_of_nat ?n" using be_get16_put16_nil [of "word_of_nat ?n"] by simp
  then show ?thesis using n by (simp add: be_get16_def)
qed

lemma be_value_get32: "be_value 4 b = unat (be_get32 b)"
proof -
  let ?n = "be_value 4 b" and ?c = "[b ! 0, b ! 1, b ! 2, b ! 3]"
  have lt: "?n < 2 ^ 32"
    using byte_less [of "b ! 0"] byte_less [of "b ! 1"] byte_less [of "b ! 2"] byte_less [of "b ! 3"]
    by (simp add: be_value_4)
  then have n: "unat (word_of_nat ?n :: u32) = ?n" by (simp add: unat_of_nat)
  have "be_value 4 ?c = ?n" by (simp add: be_value_4)
  then have "be_put32 (word_of_nat ?n) = ?c"
    using be_bytes_value [of ?c 4] be_bytes_put32 [of "word_of_nat ?n"] n by simp
  then have "be_get32 ?c = word_of_nat ?n" using be_get32_put32_nil [of "word_of_nat ?n"] by simp
  then show ?thesis using n by (simp add: be_get32_def)
qed

section \<open>The types of the command line\<close>

lemma string_less_trans: "string_less a b \<Longrightarrow> string_less b c \<Longrightarrow> string_less a c"
proof (induction a b arbitrary: c rule: string_less.induct)
  case (3 x s y t)
  then show ?case by (cases c) auto
next
  case (2 d t)
  then show ?case by (cases c) auto
qed simp

lemma code_eq: "code a = code b \<longleftrightarrow> a = b"
  by (simp add: code_def)

lemma string_less_irrefl: "\<not> string_less a a"
  by (induction a) simp_all

lemma string_less_total: "string_less a b \<or> a = b \<or> string_less b a"
proof (induction a b rule: string_less.induct)
  case (1 s)
  then show ?case by (cases s) simp_all
next
  case (3 c s d t)
  then show ?case by (metis string_less.simps(3) code_eq linorder_neqE_nat)
qed simp

lemma string_le_less: "\<not> string_less b a \<Longrightarrow> string_less b t \<Longrightarrow> string_less a t"
  using string_less_total [of a b] string_less_trans [of a b t] by auto

lemma string_le_trans: "\<not> string_less b a \<Longrightarrow> \<not> string_less a t \<Longrightarrow> \<not> string_less b t"
  using string_less_total [of t a] string_less_trans [of b t a] by auto

abbreviation sorted_strings :: "string list \<Rightarrow> bool" where
  "sorted_strings \<equiv> sorted_wrt (\<lambda>a b. \<not> string_less b a)"

lemma search_bounds: "i \<le> j \<Longrightarrow> i \<le> search xs t i j \<and> search xs t i j \<le> j"
proof (induction xs t i j rule: search.induct)
  case (1 xs t i j)
  then show ?case by (subst (1 2) search.simps) (fastforce simp: Let_def)
qed

lemma search_partition:
  assumes "sorted_strings xs" and "i \<le> j" and "j \<le> length xs"
    and "\<forall>k < i. string_less (xs ! k) t" and "\<forall>k. j \<le> k \<and> k < length xs \<longrightarrow> \<not> string_less (xs ! k) t"
  shows "(\<forall>k < search xs t i j. string_less (xs ! k) t)
    \<and> (\<forall>k. search xs t i j \<le> k \<and> k < length xs \<longrightarrow> \<not> string_less (xs ! k) t)"
  using assms
proof (induction xs t i j rule: search.induct)
  case (1 xs t i j)
  let ?h = "(i + j) div 2"
  have le: "\<not> string_less (xs ! b) (xs ! a)" if "a \<le> b" "b < length xs" for a b
    using 1(3) that string_less_irrefl by (cases "a = b") (auto simp: sorted_wrt_iff_nth_less)
  show ?case
  proof (cases "i < j")
    case False
    then show ?thesis using 1(4-7) by (subst (1 2) search.simps) auto
  next
    case True
    then have h: "i \<le> ?h" "?h < j" by auto
    show ?thesis
    proof (cases "string_less (xs ! ?h) t")
      case less: True
      have a: "\<forall>k < ?h + 1. string_less (xs ! k) t"
      proof (intro allI impI)
        fix k assume "k < ?h + 1"
        then show "string_less (xs ! k) t"
          using h 1(5) by (intro string_le_less [OF le less]) auto
      qed
      have "?h + 1 \<le> j" using h by simp
      then have "(\<forall>k < search xs t (?h + 1) j. string_less (xs ! k) t)
          \<and> (\<forall>k. search xs t (?h + 1) j \<le> k \<and> k < length xs \<longrightarrow> \<not> string_less (xs ! k) t)"
        by (rule 1(1) [OF True refl less 1(3) _ 1(5) a 1(7)])
      then show ?thesis using True less by (subst (1 2) search.simps) (simp add: Let_def)
    next
      case ge: False
      have a: "\<forall>k. ?h \<le> k \<and> k < length xs \<longrightarrow> \<not> string_less (xs ! k) t"
        using le [of ?h] ge string_le_trans by blast
      have "?h \<le> length xs" using h 1(5) by simp
      then have "(\<forall>k < search xs t i ?h. string_less (xs ! k) t)
          \<and> (\<forall>k. search xs t i ?h \<le> k \<and> k < length xs \<longrightarrow> \<not> string_less (xs ! k) t)"
        by (rule 1(2) [OF True refl ge 1(3) h(1) _ 1(6) a])
      then show ?thesis using True ge by (subst (1 2) search.simps) (simp add: Let_def)
    qed
  qed
qed

lemma BinarySearch_sorted:
  assumes "sorted_strings xs"
  shows "snd (BinarySearch xs t) \<longleftrightarrow> t \<in> set xs"
proof -
  let ?r = "search xs t 0 (length xs)"
  have p: "\<forall>k < ?r. string_less (xs ! k) t"
      "\<forall>k. ?r \<le> k \<and> k < length xs \<longrightarrow> \<not> string_less (xs ! k) t"
    using search_partition [OF assms le0 order_refl, of t] by (metis less_nat_zero_code not_less)+
  have "?r < length xs \<and> xs ! ?r = t" if "t \<in> set xs"
  proof -
    obtain k where k: "k < length xs" "xs ! k = t" using \<open>t \<in> set xs\<close> by (auto simp: in_set_conv_nth)
    then have r: "?r \<le> k" using p(1) string_less_irrefl by (metis not_less)
    then have "\<not> string_less t (xs ! ?r)"
      using assms k string_less_irrefl by (cases "?r = k") (auto simp: sorted_wrt_iff_nth_less)
    moreover have "\<not> string_less (xs ! ?r) t" using p(2) r k by auto
    ultimately have "xs ! ?r = t" using string_less_total [of t "xs ! ?r"] by metis
    then show ?thesis using r k by simp
  qed
  then show ?thesis by (auto simp: BinarySearch_def Let_def dest: nth_mem)
qed

text \<open>If the types of the command line are sorted, the structs of these names are taken.\<close>

theorem sorted_types_select:
  assumes "sorted_strings (types_of_flag flag)" and "types_of_flag flag \<noteq> []"
  shows "structs_of (types_of_flag flag) ds
    = filter (\<lambda>s. StructName s \<in> set (types_of_flag flag)) (structs_of [] ds)"
proof -
  let ?P = "\<lambda>s. StructName s \<in> set (types_of_flag flag)"
  have spec: "spec_structs (types_of_flag flag) sp = filter ?P (spec_structs [] sp)" for sp
    using assms(2)
    by (auto simp: spec_structs_def BinarySearch_sorted [OF assms(1)] split: ast_spec.split type_expr.split)
  have specs: "concat (map (spec_structs (types_of_flag flag)) sps)
      = filter ?P (concat (map (spec_structs []) sps))" for sps
    by (induction sps) (simp_all add: spec)
  show ?thesis
    by (induction ds) (auto simp: structs_of_def specs split: decl.split)
qed


section \<open>The generated methods\<close>

lemma byte_255: "unat (x :: byte) \<le> 255"
  using byte_less [of x] by simp

lemma length_be_get16s [simp]: "length (be_get16s n b) = n"
  by (induction n b rule: be_get16s.induct) auto

definition well_typed :: "string \<Rightarrow> gval \<Rightarrow> bool" where
  "well_typed ty v =
     (case v of
        VString s \<Rightarrow> ty = ''string'' \<and> length s \<le> 255
      | VInt w n \<Rightarrow> ty \<in> set int_types \<and> w = width_of ty \<and> n < 256 ^ w
      | VInts w ns \<Rightarrow> ty \<in> set slice_types \<and> w = width_of (drop 2 ty) \<and> length ns \<le> 255
          \<and> list_all (\<lambda>n. n < 256 ^ w) ns)"

definition slices_assign :: "gen_field \<Rightarrow> bool" where
  "slices_assign f = list_all (\<lambda>st. case st of ReadSliceBlock ty n \<Rightarrow> ty = Type f | _ \<Rightarrow> True) (unmarshal_field f)"

lemma int_not_slice: "ty \<in> set int_types \<Longrightarrow> ty \<notin> set slice_types \<and> ty \<noteq> ''string''"
  by (auto simp: int_types_def slice_types_def)

lemma slice_not_string: "ty \<in> set slice_types \<Longrightarrow> ty \<noteq> ''string''"
  by (auto simp: slice_types_def)

lemma put16s: "list_all (\<lambda>n. n < 65536) ns \<Longrightarrow>
    concat (map (be_bytes 2) ns) = concat (map be_put16 (map word_of_nat ns))
    \<and> map unat (map word_of_nat ns :: u16 list) = ns"
proof (induction ns)
  case (Cons n ns)
  then have "unat (word_of_nat n :: u16) = n" by (simp add: unat_of_nat)
  then show ?case using Cons be_bytes_put16 [of "word_of_nat n"] by simp
qed simp

lemma marshal_string:
  "Type f = ''string'' \<Longrightarrow> exec_marshal c p (marshal_field f @ ss)
    = map_option (\<lambda>b. word_of_nat (gval_length (field_of p (Name f)))
        # bytes_of_string (gval_string (field_of p (Name f))) @ b) (exec_marshal c p ss)"
  by (simp add: marshal_field_def option.map_comp comp_def)

lemma marshal_slice:
  "Type f \<in> set slice_types \<Longrightarrow> exec_marshal c p (marshal_field f @ ss)
    = map_option (\<lambda>b. word_of_nat (gval_length (field_of p (Name f)))
        # binary_Write (field_of p (Name f)) @ b) (exec_marshal c p ss)"
  by (simp add: marshal_field_def slice_not_string option.map_comp comp_def)

lemma marshal_int:
  "Type f \<in> set int_types \<Longrightarrow> exec_marshal c p (marshal_field f @ ss)
    = map_option (\<lambda>b. binary_Write (field_of p (Name f)) @ b) (exec_marshal c p ss)"
  by (simp add: marshal_field_def int_not_slice)

lemmas unmarshal_cases = unmarshal_field_def int_not_slice slice_not_string

lemma unmarshal_string_of:
  assumes "Type f = ''string''" and "length t \<le> 255"
    and "exec_unmarshal conn_Read ss (conn_of r sg e) = Some (Inr q, k)"
  shows "exec_unmarshal conn_Read (unmarshal_field f @ ss)
      (conn_of (word_of_nat (length t) # bytes_of_string t @ r) sg e) = Some (Inr ((Name f, VString t) # q), k)"
  using assms by (simp add: unmarshal_cases io_bind_def unat_of_nat)

lemma unmarshal_int_of:
  assumes "Type f \<in> set int_types" and "n < 256 ^ width_of (Type f)"
    and "exec_unmarshal conn_Read ss (conn_of r sg e) = Some (Inr q, k)"
  shows "exec_unmarshal conn_Read (unmarshal_field f @ ss)
      (conn_of (be_bytes (width_of (Type f)) n @ r) sg e)
      = Some (Inr ((Name f, VInt (width_of (Type f)) n) # q), k)"
  using assms by (simp add: unmarshal_cases io_bind_def ReadFull_of)

lemma unmarshal_slice_of:
  assumes "Type f \<in> set slice_types" and "list_all (\<lambda>n. n < 65536) ns" and "length ns \<le> 255"
    and "exec_unmarshal conn_Read ss (conn_of r sg e) = Some (Inr q, k)"
  shows "exec_unmarshal conn_Read (unmarshal_field f @ ss)
      (conn_of (word_of_nat (length ns) # concat (map (be_bytes 2) ns) @ r) sg e)
      = Some (Inr ((Name f, VInts 2 ns) # q), k)"
proof -
  let ?ws = "map word_of_nat ns :: u16 list"
  have "ReadB_u16s conn_Read (length ns) (conn_of (concat (map (be_bytes 2) ns) @ r) sg e)
      = Some (Inr ?ws, conn_of r sg e)"
    using put16s [OF assms(2)] ReadB_u16s_of [of "length ns" ?ws r sg e] by simp
  then show ?thesis
    using assms(1,3,4) put16s [OF assms(2)] by (simp add: unmarshal_cases io_bind_def unat_of_nat)
qed

lemma slices_are_u16:
  "slices_assign f \<Longrightarrow> Type f \<in> set slice_types \<Longrightarrow> Type f = ''[]uint16''"
  by (simp add: slices_assign_def unmarshal_cases)

lemma fields_roundtrip:
  "list_all2 (\<lambda>f x. fst x = Name f \<and> well_typed (Type f) (snd x) \<and> field_of p (Name f) = snd x) fs q \<Longrightarrow>
   list_all slices_assign fs \<Longrightarrow>
   \<exists>b. exec_marshal c p (concat (map marshal_field fs)) = Some b
     \<and> (\<forall>r. exec_unmarshal conn_Read (concat (map unmarshal_field fs)) (conn_of (b @ r) sg e)
          = Some (Inr q, conn_of r sg e))"
proof (induction fs q rule: list_all2_induct)
  case (Cons f fs x q)
  obtain b where b: "exec_marshal c p (concat (map marshal_field fs)) = Some b"
      "\<And>r. exec_unmarshal conn_Read (concat (map unmarshal_field fs)) (conn_of (b @ r) sg e)
          = Some (Inr q, conn_of r sg e)"
    using Cons by auto
  obtain n v where x: "x = (n, v)" "n = Name f" "well_typed (Type f) v" "field_of p (Name f) = v"
    using Cons(1) by (cases x) auto
  show ?case
  proof (cases v)
    case (VString t)
    then have "Type f = ''string''" "length t \<le> 255" using x by (simp_all add: well_typed_def)
    then show ?thesis
      using unmarshal_string_of [OF _ _ b(2)] b(1) x VString by (simp add: marshal_string)
  next
    case (VInt w n)
    then have "Type f \<in> set int_types" "w = width_of (Type f)" "n < 256 ^ w"
      using x by (auto simp: well_typed_def)
    then show ?thesis
      using unmarshal_int_of [OF _ _ b(2)] b(1) x VInt by (simp add: marshal_int)
  next
    case (VInts w ns)
    then have s: "Type f \<in> set slice_types" using x by (simp add: well_typed_def)
    then have "Type f = ''[]uint16''" using Cons slices_are_u16 by simp
    then have "w = 2" "list_all (\<lambda>n. n < 65536) ns" "length ns \<le> 255"
      using x VInts by (auto simp: well_typed_def width_of_def)
    then show ?thesis
      using s unmarshal_slice_of [OF _ _ _ b(2)] b(1) x VInts by (simp add: marshal_slice)
  qed
qed simp

text \<open>The same values without a bound on the lengths: the types of the fields alone.\<close>

definition has_type :: "string \<Rightarrow> gval \<Rightarrow> bool" where
  "has_type ty v =
     (case v of
        VString s \<Rightarrow> ty = ''string''
      | VInt w n \<Rightarrow> ty \<in> set int_types \<and> w = width_of ty \<and> n < 256 ^ w
      | VInts w ns \<Rightarrow> ty \<in> set slice_types \<and> w = width_of (drop 2 ty) \<and> list_all (\<lambda>n. n < 256 ^ w) ns)"

lemma well_typed_iff: "well_typed ty v \<longleftrightarrow> has_type ty v \<and> gval_length v \<le> 255"
  by (cases v) (auto simp: well_typed_def has_type_def)

lemma has_types_marshal:
  "list_all2 has_type (map Type fs) vs \<Longrightarrow> \<exists>b. exec_marshal c p (concat (map marshal_field fs)) = Some b"
proof (induction fs arbitrary: vs)
  case (Cons f fs)
  then obtain v vs' where v: "vs = v # vs'" "has_type (Type f) v" "list_all2 has_type (map Type fs) vs'"
    by (auto simp: list_all2_Cons1)
  from Cons.IH [OF v(3)] v(2) show ?case
    by (cases v) (auto simp: has_type_def marshal_string marshal_slice marshal_int)
qed simp

lemma unmarshal_lengths:
  "exec_unmarshal rd ss k = Some (Inr q, k') \<Longrightarrow> \<forall>x \<in> set q. gval_length (snd x) \<le> 255"
proof (induction rd ss arbitrary: k q k' rule: exec_unmarshal.induct)
  case (1 rd)
  then show ?case by (simp add: io_return_def)
next
  case (2 rd f ss)
  then show ?case
    by (fastforce simp: io_bind_def io_return_def ReadN_def byte_255
        split: option.splits prod.splits sum.splits if_splits)
next
  case (3 rd ty f ss)
  then show ?case
    by (fastforce simp: io_bind_def io_return_def ReadB_u16s_def byte_255
        split: option.splits prod.splits sum.splits if_splits)
next
  case (4 rd ty f ss)
  then show ?case
    by (fastforce simp: io_bind_def io_return_def split: option.splits prod.splits sum.splits)
next
  case (5 rd t f ss)
  then show ?case by simp
qed

lemma roundtrip_if_it_fits:
  assumes "compiles s" and "distinct (map Name (Fields s))" and "map fst p = map Name (Fields s)"
    and "list_all2 well_typed (map Type (Fields s)) (map snd p)"
  shows "\<exists>b. exec_marshal c p (template_Marshal s) = Some (c # b)
    \<and> exec_unmarshal conn_Read (template_Unmarshal s) (conn_of (b @ r) sg e) = Some (Inr p, conn_of r sg e)"
proof -
  have n: "length p = length (Fields s)" using assms(3) by (metis length_map)
  have f: "fst (p ! i) = Name (Fields s ! i)" if "i < length (Fields s)" for i
    using assms(3) that n by (metis nth_map)
  have d: "distinct (map fst p)" using assms(2,3) by simp
  have "list_all2 (\<lambda>f x. fst x = Name f \<and> well_typed (Type f) (snd x) \<and> field_of p (Name f) = snd x) (Fields s) p"
  proof (rule list_all2_all_nthI)
    fix i assume i: "i < length (Fields s)"
    have "p ! i \<in> set p" using i n by simp
    then have "map_of p (fst (p ! i)) = Some (snd (p ! i))" using d by (simp add: map_of_eq_Some_iff)
    then show "fst (p ! i) = Name (Fields s ! i) \<and> well_typed (Type (Fields s ! i)) (snd (p ! i))
        \<and> field_of p (Name (Fields s ! i)) = snd (p ! i)"
      using f [OF i] assms(4) i n by (simp add: field_of_def list_all2_conv_all_nth)
  qed (use n in simp)
  moreover have "list_all slices_assign (Fields s)"
    using assms(1) by (simp add: compiles_def slices_assign_def [abs_def])
  ultimately show ?thesis
    using fields_roundtrip [of p "Fields s" p c sg e] by (fastforce simp: template_Marshal_def template_Unmarshal_def)
qed


section \<open>The code generated for the packets\<close>

text \<open>The declarations of \<^verbatim>\<open>traffic/packets.go\<close>; its \<open>go:generate\<close> line gives no types.\<close>

definition packets_file :: "decl list" where
  "packets_file =
     [GenDecl [OtherSpec],
      GenDecl [TypeSpec ''Packet'' OtherType],
      GenDecl [TypeSpec ''IAmCameraPacket'' (StructType
        [([''Road''], Ident ''uint16''), ([''Mile''], Ident ''uint16''), ([''Limit''], Ident ''uint16'')])], OtherDecl,
      GenDecl [TypeSpec ''IAmDispatcherPacket'' (StructType
        [([''Roads''], ArrayType None (Ident ''uint16''))])], OtherDecl,
      GenDecl [TypeSpec ''ErrorPacket'' (StructType [([''Message''], Ident ''string'')])], OtherDecl,
      GenDecl [TypeSpec ''PlatePacket'' (StructType
        [([''Plate''], Ident ''string''), ([''Timestamp''], Ident ''uint32'')])], OtherDecl,
      GenDecl [TypeSpec ''TicketPacket'' (StructType
        [([''Plate''], Ident ''string''), ([''Road''], Ident ''uint16''), ([''Mile1''], Ident ''uint16''),
         ([''Timestamp1''], Ident ''uint32''), ([''Mile2''], Ident ''uint16''),
         ([''Timestamp2''], Ident ''uint32''), ([''Speed''], Ident ''uint16'')])], OtherDecl,
      GenDecl [TypeSpec ''WantHeartbeatPacket'' (StructType [([''Interval''], Ident ''uint32'')])], OtherDecl,
      GenDecl [TypeSpec ''HeartbeatPacket'' (StructType [])], OtherDecl]"

definition packet_struct :: "string \<Rightarrow> StructInfo" where
  "packet_struct name = the (find (\<lambda>s. StructName s = name) (structs_of (types_of_flag []) packets_file))"

text \<open>The values of the fields of each packet.\<close>

definition u16_val :: "u16 \<Rightarrow> gval" where "u16_val w = VInt 2 (unat w)"
definition u32_val :: "u32 \<Rightarrow> gval" where "u32_val w = VInt 4 (unat w)"

definition vals_IAmCamera :: "IAmCameraPacket \<Rightarrow> (string \<times> gval) list" where
  "vals_IAmCamera p = [(''Road'', u16_val (cam_Road p)), (''Mile'', u16_val (cam_Mile p)), (''Limit'', u16_val (cam_Limit p))]"

definition vals_IAmDispatcher :: "IAmDispatcherPacket \<Rightarrow> (string \<times> gval) list" where
  "vals_IAmDispatcher p = [(''Roads'', VInts 2 (map unat (disp_Roads p)))]"

definition vals_Error :: "ErrorPacket \<Rightarrow> (string \<times> gval) list" where
  "vals_Error p = [(''Message'', VString (err_Message p))]"

definition vals_Plate :: "PlatePacket \<Rightarrow> (string \<times> gval) list" where
  "vals_Plate p = [(''Plate'', VString (plate_Plate p)), (''Timestamp'', u32_val (plate_Timestamp p))]"

definition vals_Ticket :: "TicketPacket \<Rightarrow> (string \<times> gval) list" where
  "vals_Ticket p =
     [(''Plate'', VString (t_Plate p)), (''Road'', u16_val (t_Road p)), (''Mile1'', u16_val (t_Mile1 p)),
      (''Timestamp1'', u32_val (t_Timestamp1 p)), (''Mile2'', u16_val (t_Mile2 p)),
      (''Timestamp2'', u32_val (t_Timestamp2 p)), (''Speed'', u16_val (t_Speed p))]"

definition vals_WantHeartbeat :: "WantHeartbeatPacket \<Rightarrow> (string \<times> gval) list" where
  "vals_WantHeartbeat p = [(''Interval'', u32_val (wh_Interval p))]"

definition vals_Heartbeat :: "HeartbeatPacket \<Rightarrow> (string \<times> gval) list" where
  "vals_Heartbeat p = []"

lemmas vals_defs = vals_IAmCamera_def vals_IAmDispatcher_def vals_Error_def vals_Plate_def
  vals_Ticket_def vals_WantHeartbeat_def vals_Heartbeat_def u16_val_def u32_val_def

lemma runes_nil_trim [simp]: "types_of_flag [] = []"
  by (simp add: types_of_flag_def TrimSpace_def)

lemmas struct_defs = packet_struct_def packets_file_def structs_of_def spec_structs_def struct_fields_def

lemma packet_structs:
  "Fields (packet_struct ''IAmCameraPacket'')
     = [\<lparr>Name = ''Road'', Type = ''uint16''\<rparr>, \<lparr>Name = ''Mile'', Type = ''uint16''\<rparr>, \<lparr>Name = ''Limit'', Type = ''uint16''\<rparr>]"
  "Fields (packet_struct ''IAmDispatcherPacket'') = [\<lparr>Name = ''Roads'', Type = ''[]uint16''\<rparr>]"
  "Fields (packet_struct ''ErrorPacket'') = [\<lparr>Name = ''Message'', Type = ''string''\<rparr>]"
  "Fields (packet_struct ''PlatePacket'')
     = [\<lparr>Name = ''Plate'', Type = ''string''\<rparr>, \<lparr>Name = ''Timestamp'', Type = ''uint32''\<rparr>]"
  "Fields (packet_struct ''TicketPacket'')
     = [\<lparr>Name = ''Plate'', Type = ''string''\<rparr>, \<lparr>Name = ''Road'', Type = ''uint16''\<rparr>, \<lparr>Name = ''Mile1'', Type = ''uint16''\<rparr>,
        \<lparr>Name = ''Timestamp1'', Type = ''uint32''\<rparr>, \<lparr>Name = ''Mile2'', Type = ''uint16''\<rparr>,
        \<lparr>Name = ''Timestamp2'', Type = ''uint32''\<rparr>, \<lparr>Name = ''Speed'', Type = ''uint16''\<rparr>]"
  "Fields (packet_struct ''WantHeartbeatPacket'') = [\<lparr>Name = ''Interval'', Type = ''uint32''\<rparr>]"
  "Fields (packet_struct ''HeartbeatPacket'') = []"
  by (simp_all add: struct_defs)

lemma fields_of_types [simp]:
  "marshal_field \<lparr>Name = n, Type = ''string''\<rparr> = [WriteLength n, WriteString n]"
  "marshal_field \<lparr>Name = n, Type = ''[]uint16''\<rparr> = [WriteLength n, BinaryWrite n]"
  "marshal_field \<lparr>Name = n, Type = ''uint16''\<rparr> = [BinaryWrite n]"
  "marshal_field \<lparr>Name = n, Type = ''uint32''\<rparr> = [BinaryWrite n]"
  "unmarshal_field \<lparr>Name = n, Type = ''string''\<rparr> = [ReadStringBlock n]"
  "unmarshal_field \<lparr>Name = n, Type = ''[]uint16''\<rparr> = [ReadSliceBlock ''[]uint16'' n]"
  "unmarshal_field \<lparr>Name = n, Type = ''uint16''\<rparr> = [ReadBInto ''uint16'' n]"
  "unmarshal_field \<lparr>Name = n, Type = ''uint32''\<rparr> = [ReadBInto ''uint32'' n]"
  by (simp_all add: marshal_field_def unmarshal_field_def slice_types_def int_types_def)

lemma widths [simp]: "width_of ''uint16'' = 2" "width_of ''uint32'' = 4"
  by (simp_all add: width_of_def)

lemma marshal_packets:
  "exec_marshal Opcode_IAmCamera (vals_IAmCamera p1) (template_Marshal (packet_struct ''IAmCameraPacket'')) = Some (Marshal_IAmCamera p1)"
  "exec_marshal Opcode_IAmDispatcher (vals_IAmDispatcher p2) (template_Marshal (packet_struct ''IAmDispatcherPacket'')) = Some (Marshal_IAmDispatcher p2)"
  "exec_marshal Opcode_Error (vals_Error p3) (template_Marshal (packet_struct ''ErrorPacket'')) = Some (Marshal_Error p3)"
  "exec_marshal Opcode_Plate (vals_Plate p4) (template_Marshal (packet_struct ''PlatePacket'')) = Some (Marshal_Plate p4)"
  "exec_marshal Opcode_Ticket (vals_Ticket p5) (template_Marshal (packet_struct ''TicketPacket'')) = Some (Marshal_Ticket p5)"
  "exec_marshal Opcode_WantHeartbeat (vals_WantHeartbeat p6) (template_Marshal (packet_struct ''WantHeartbeatPacket'')) = Some (Marshal_WantHeartbeat p6)"
  "exec_marshal Opcode_Heartbeat (vals_Heartbeat p7) (template_Marshal (packet_struct ''HeartbeatPacket'')) = Some (Marshal_Heartbeat p7)"
  by (simp_all add: template_Marshal_def packet_structs vals_defs marshal_defs put_string_def len_byte_def
      field_of_def be_bytes_put16 be_bytes_put32 comp_def)

lemma io_bind_assoc: "io_bind (io_bind m f) g = io_bind m (\<lambda>x. io_bind (f x) g)"
  by (rule ext) (simp add: io_bind_def split: option.split sum.split)

lemma io_bind_return [simp]: "io_bind (io_return x) f = f x"
  by (rule ext) (simp add: io_bind_def)

lemma unmarshal_packets:
  "exec_unmarshal rd (template_Unmarshal (packet_struct ''IAmCameraPacket''))
     = io_bind (Unmarshal_IAmCamera rd) (\<lambda>p. io_return (vals_IAmCamera p))"
  "exec_unmarshal rd (template_Unmarshal (packet_struct ''IAmDispatcherPacket''))
     = io_bind (Unmarshal_IAmDispatcher rd) (\<lambda>p. io_return (vals_IAmDispatcher p))"
  "exec_unmarshal rd (template_Unmarshal (packet_struct ''ErrorPacket''))
     = io_bind (Unmarshal_Error rd) (\<lambda>p. io_return (vals_Error p))"
  "exec_unmarshal rd (template_Unmarshal (packet_struct ''PlatePacket''))
     = io_bind (Unmarshal_Plate rd) (\<lambda>p. io_return (vals_Plate p))"
  "exec_unmarshal rd (template_Unmarshal (packet_struct ''TicketPacket''))
     = io_bind (Unmarshal_Ticket rd) (\<lambda>p. io_return (vals_Ticket p))"
  "exec_unmarshal rd (template_Unmarshal (packet_struct ''WantHeartbeatPacket''))
     = io_bind (Unmarshal_WantHeartbeat rd) (\<lambda>p. io_return (vals_WantHeartbeat p))"
  "exec_unmarshal rd (template_Unmarshal (packet_struct ''HeartbeatPacket''))
     = io_bind (Unmarshal_Heartbeat rd) (\<lambda>p. io_return (vals_Heartbeat p))"
  by (simp_all add: template_Unmarshal_def packet_structs vals_defs unmarshal_defs get_string_def
      ReadB_u16_def ReadB_u32_def io_bind_assoc be_value_get16 be_value_get32
      del: io_return_simp)


text \<open>
  C18: The template applied to the structs of \<^verbatim>\<open>packets.go\<close> makes the encoders and decoders of
  \<^verbatim>\<open>packets_gen.go\<close>: the methods do the same on every packet and every reader.
\<close>

theorem generated_code_is_the_codec:
  "map StructName (structs_of (types_of_flag []) packets_file)
     = [''IAmCameraPacket'', ''IAmDispatcherPacket'', ''ErrorPacket'', ''PlatePacket'', ''TicketPacket'',
        ''WantHeartbeatPacket'', ''HeartbeatPacket'']
   \<and> list_all compiles (structs_of (types_of_flag []) packets_file)
   \<and> exec_marshal Opcode_IAmCamera (vals_IAmCamera p1) (template_Marshal (packet_struct ''IAmCameraPacket'')) = Some (Marshal_IAmCamera p1)
   \<and> exec_marshal Opcode_IAmDispatcher (vals_IAmDispatcher p2) (template_Marshal (packet_struct ''IAmDispatcherPacket'')) = Some (Marshal_IAmDispatcher p2)
   \<and> exec_marshal Opcode_Error (vals_Error p3) (template_Marshal (packet_struct ''ErrorPacket'')) = Some (Marshal_Error p3)
   \<and> exec_marshal Opcode_Plate (vals_Plate p4) (template_Marshal (packet_struct ''PlatePacket'')) = Some (Marshal_Plate p4)
   \<and> exec_marshal Opcode_Ticket (vals_Ticket p5) (template_Marshal (packet_struct ''TicketPacket'')) = Some (Marshal_Ticket p5)
   \<and> exec_marshal Opcode_WantHeartbeat (vals_WantHeartbeat p6) (template_Marshal (packet_struct ''WantHeartbeatPacket'')) = Some (Marshal_WantHeartbeat p6)
   \<and> exec_marshal Opcode_Heartbeat (vals_Heartbeat p7) (template_Marshal (packet_struct ''HeartbeatPacket'')) = Some (Marshal_Heartbeat p7)
   \<and> exec_unmarshal rd (template_Unmarshal (packet_struct ''IAmCameraPacket''))
       = io_bind (Unmarshal_IAmCamera rd) (\<lambda>p. io_return (vals_IAmCamera p))
   \<and> exec_unmarshal rd (template_Unmarshal (packet_struct ''IAmDispatcherPacket''))
       = io_bind (Unmarshal_IAmDispatcher rd) (\<lambda>p. io_return (vals_IAmDispatcher p))
   \<and> exec_unmarshal rd (template_Unmarshal (packet_struct ''ErrorPacket''))
       = io_bind (Unmarshal_Error rd) (\<lambda>p. io_return (vals_Error p))
   \<and> exec_unmarshal rd (template_Unmarshal (packet_struct ''PlatePacket''))
       = io_bind (Unmarshal_Plate rd) (\<lambda>p. io_return (vals_Plate p))
   \<and> exec_unmarshal rd (template_Unmarshal (packet_struct ''TicketPacket''))
       = io_bind (Unmarshal_Ticket rd) (\<lambda>p. io_return (vals_Ticket p))
   \<and> exec_unmarshal rd (template_Unmarshal (packet_struct ''WantHeartbeatPacket''))
       = io_bind (Unmarshal_WantHeartbeat rd) (\<lambda>p. io_return (vals_WantHeartbeat p))
   \<and> exec_unmarshal rd (template_Unmarshal (packet_struct ''HeartbeatPacket''))
       = io_bind (Unmarshal_Heartbeat rd) (\<lambda>p. io_return (vals_Heartbeat p))"
proof -
  have "map StructName (structs_of (types_of_flag []) packets_file)
     = [''IAmCameraPacket'', ''IAmDispatcherPacket'', ''ErrorPacket'', ''PlatePacket'', ''TicketPacket'',
        ''WantHeartbeatPacket'', ''HeartbeatPacket'']"
    by (simp add: struct_defs)
  moreover have "list_all compiles (structs_of (types_of_flag []) packets_file)"
    by (simp add: struct_defs compiles_def)
  ultimately show ?thesis by (simp only: marshal_packets unmarshal_packets simp_thms)
qed

text \<open>A slice of anything but 16-bit unsigned integers, or a second string, is not compiled.\<close>

lemma other_slices_do_not_compile:
  "compiles s \<Longrightarrow> f \<in> set (Fields s) \<Longrightarrow> Type f \<in> set slice_types \<Longrightarrow> Type f = ''[]uint16''"
  using slices_are_u16 [of f] by (auto simp: compiles_def slices_assign_def list_all_iff)

lemma runes_ascii: "code c < 128 \<Longrightarrow> runes (c # s) = (code c, [c]) # runes s"
  by (simp add: runes_step DecodeRune.simps)

text \<open>The types of the command line are not sorted: those out of order are missed.\<close>

lemma unsorted_types_are_missed:
  "types_of_flag ''TicketPacket, PlatePacket'' = [''TicketPacket'', ''PlatePacket'']
   \<and> structs_of (types_of_flag ''TicketPacket, PlatePacket'') packets_file = []"
proof -
  have t: "types_of_flag ''TicketPacket, PlatePacket'' = [''TicketPacket'', ''PlatePacket'']"
    by (simp add: types_of_flag_def TrimSpace_def runes_ascii code_def IsSpace_def Let_def)
  have "snd (BinarySearch [''TicketPacket'', ''PlatePacket''] n) = False"
    if "n \<in> {''IAmCameraPacket'', ''IAmDispatcherPacket'', ''ErrorPacket'', ''PlatePacket'', ''TicketPacket'',
        ''WantHeartbeatPacket'', ''HeartbeatPacket''}" for n
    using that by (auto simp: BinarySearch_def search.simps code_def)
  then show ?thesis by (simp add: t struct_defs)
qed


lemma types_in_order: "types_of_flag ''PlatePacket, TicketPacket'' = [''PlatePacket'', ''TicketPacket'']"
  by (simp add: types_of_flag_def TrimSpace_def runes_ascii code_def IsSpace_def Let_def)

theorem sorted_types_select_witness:
  "map StructName (structs_of (types_of_flag ''PlatePacket, TicketPacket'') packets_file)
     = [''PlatePacket'', ''TicketPacket'']"
proof -
  have "structs_of (types_of_flag ''PlatePacket, TicketPacket'') packets_file
      = filter (\<lambda>s. StructName s \<in> set (types_of_flag ''PlatePacket, TicketPacket'')) (structs_of [] packets_file)"
    by (rule sorted_types_select) (simp_all add: types_in_order code_def)
  then show ?thesis by (simp add: types_in_order struct_defs)
qed


end
