(* ===== verification/Genpackets_Types.thy ===== *)
theory Genpackets_Types
  imports Genpackets_Props Reader_Returns
begin

text \<open>
  The types of what the generated decoders make: whatever bytes arrive and however the network cuts
  them, the method \<open>Unmarshal\<close> of a struct that compiles returns, and each field it has read holds a
  value of the type of the field.
\<close>

section \<open>The run that made the packets\<close>

text \<open>The \<open>go:generate\<close> line of \<^verbatim>\<open>packets.go\<close>, which names the file and no types, writes \<^verbatim>\<open>packets_gen.go\<close>.\<close>

lemma packets_gen_is_written:
  "parse ''packets.go'' = Inr packets_file \<Longrightarrow>
   genpackets_main parse ''packets.go'' [] = Generated ''packets_gen.go'' (structs_of [] packets_file)"
  by (simp add: genpackets_main_def)

section \<open>Reads with a postcondition\<close>

context io_reader
begin

definition gives :: "('a \<Rightarrow> bool) \<Rightarrow> ('s, 'a) io \<Rightarrow> bool" where
  "gives P m \<longleftrightarrow> (\<forall>s. ok s \<longrightarrow> (\<exists>r s'. m s = Some (r, s') \<and> ok s' \<and> (\<forall>x. r = Inr x \<longrightarrow> P x)))"

lemma gives_bind: "gives P m \<Longrightarrow> (\<And>x. P x \<Longrightarrow> gives Q (f x)) \<Longrightarrow> gives Q (io_bind m f)"
  unfolding gives_def
proof (intro allI impI)
  fix s
  assume m: "\<forall>s. ok s \<longrightarrow> (\<exists>r s'. m s = Some (r, s') \<and> ok s' \<and> (\<forall>x. r = Inr x \<longrightarrow> P x))"
    and f: "\<And>x. P x \<Longrightarrow> \<forall>s. ok s \<longrightarrow> (\<exists>r s'. f x s = Some (r, s') \<and> ok s' \<and> (\<forall>x. r = Inr x \<longrightarrow> Q x))" and "ok s"
  from m \<open>ok s\<close> obtain r s1 where 1: "m s = Some (r, s1)" "ok s1" "\<forall>x. r = Inr x \<longrightarrow> P x" by blast
  show "\<exists>r s'. io_bind m f s = Some (r, s') \<and> ok s' \<and> (\<forall>x. r = Inr x \<longrightarrow> Q x)"
  proof (cases r)
    case (Inl e)
    with 1 show ?thesis by simp
  next
    case (Inr x)
    with 1 f [of x] show ?thesis by simp
  qed
qed

lemma gives_return: "P x \<Longrightarrow> gives P (io_return x)"
  by (simp add: gives_def)

lemma gives_ReadFull: "gives (\<lambda>b. length b = n) (ReadFull read n)"
  unfolding gives_def
proof (intro allI impI)
  fix s
  assume "ok s"
  then show "\<exists>r s'. ReadFull read n s = Some (r, s') \<and> ok s' \<and> (\<forall>b. r = Inr b \<longrightarrow> length b = n)"
    using ReadFull_enough [of s n] ReadFull_short [of s n]
    by (cases "n \<le> length (content s)") fastforce+
qed

lemma gives_ReadN: "gives (\<lambda>b. length b = n) (ReadN read n)"
  unfolding gives_def
proof (intro allI impI)
  fix s
  assume "ok s"
  with returns_ReadN [of n] obtain r s' where "ReadN read n s = Some (r, s')" "ok s'"
    unfolding returns_def by blast
  moreover have "length b = n" if "ReadN read n s = Some (Inr b, s')" for b s'
    using that by (auto simp: ReadN_def split: prod.splits option.splits if_splits)
  ultimately show "\<exists>r s'. ReadN read n s = Some (r, s') \<and> ok s' \<and> (\<forall>b. r = Inr b \<longrightarrow> length b = n)" by blast
qed

lemma gives_ReadByte: "gives (\<lambda>b. True) (ReadByte read)"
  unfolding ReadByte_def by (rule gives_bind [OF gives_ReadN gives_return]) simp

end

section \<open>Fields\<close>

definition supported :: "gen_field \<Rightarrow> bool" where
  "supported f \<longleftrightarrow> Type f = ''string'' \<or> Type f \<in> set slice_types \<or> Type f \<in> set int_types"

lemma be_value_less: "be_value w b < 256 ^ w"
proof (induction w)
  case (Suc w)
  then have "256 * be_value w b + 255 < 256 * 256 ^ w" by simp
  then show ?case using byte_less [of "b ! w"] by simp
qed simp

definition typed_field :: "gen_field \<Rightarrow> string \<times> gval \<Rightarrow> bool" where
  "typed_field f x \<longleftrightarrow> fst x = Name f \<and> well_typed (Type f) (snd x)"

lemma gives_ReadB_u16s: "tcp.gives (\<lambda>ws. length ws = n) (ReadB_u16s conn_Read n)"
  unfolding ReadB_u16s_def by (rule tcp.gives_bind [OF tcp.gives_ReadFull tcp.gives_return]) simp

lemma gives_field:
  assumes "supported f" and "slices_assign f" and ss: "tcp.gives Q (exec_unmarshal conn_Read ss)"
  shows "tcp.gives (\<lambda>p. \<exists>x q. p = x # q \<and> typed_field f x \<and> Q q) (exec_unmarshal conn_Read (unmarshal_field f @ ss))"
proof -
  have rest: "tcp.gives (\<lambda>p. \<exists>x q. p = x # q \<and> typed_field f x \<and> Q q)
      (io_bind (exec_unmarshal conn_Read ss) (\<lambda>r. io_return (y # r)))" if "typed_field f y" for y
    by (rule tcp.gives_bind [OF ss tcp.gives_return]) (use that in blast)
  consider "Type f = ''string''" | "Type f \<in> set slice_types" "Type f = ''[]uint16''" | "Type f \<in> set int_types"
    using assms(1) slices_are_u16 [OF assms(2)] unfolding supported_def by blast
  then show ?thesis
  proof cases
    case 1
    have "typed_field f (Name f, VString (string_of_bytes b))" if "length b = unat (x :: byte)" for b x
      using that 1 byte_255 [of x] by (simp add: typed_field_def well_typed_def)
    then have "tcp.gives (\<lambda>p. \<exists>x q. p = x # q \<and> typed_field f x \<and> Q q)
        (exec_unmarshal conn_Read (ReadStringBlock (Name f) # ss))"
      unfolding exec_unmarshal.simps
      by (intro tcp.gives_bind [OF tcp.gives_ReadByte] tcp.gives_bind [OF tcp.gives_ReadN] rest)
    then show ?thesis using 1 by (simp add: unmarshal_field_def del: exec_unmarshal.simps)
  next
    case 2
    have "typed_field f (Name f, VInts 2 (map unat ws))" if "length ws = unat (x :: byte)" for ws :: "u16 list" and x
      using that 2 byte_255 [of x] unsigned_less [where ?'b = 16 and ?'a = nat]
      by (auto simp: typed_field_def well_typed_def width_of_def list_all_iff)
    then have "tcp.gives (\<lambda>p. \<exists>x q. p = x # q \<and> typed_field f x \<and> Q q)
        (exec_unmarshal conn_Read (ReadSliceBlock ''[]uint16'' (Name f) # ss))"
      unfolding exec_unmarshal.simps
      by (intro tcp.gives_bind [OF tcp.gives_ReadByte] tcp.gives_bind [OF gives_ReadB_u16s] rest)
    then show ?thesis using 2(1) by (simp add: unmarshal_cases del: exec_unmarshal.simps)
  next
    case 3
    have "typed_field f (Name f, VInt (width_of (Type f)) (be_value (width_of (Type f)) b))" for b
      using 3 be_value_less by (simp add: typed_field_def well_typed_def)
    then have "tcp.gives (\<lambda>p. \<exists>x q. p = x # q \<and> typed_field f x \<and> Q q)
        (exec_unmarshal conn_Read (ReadBInto (Type f) (Name f) # ss))"
      unfolding exec_unmarshal.simps by (intro tcp.gives_bind [OF tcp.gives_ReadFull] rest)
    then show ?thesis using 3 by (simp add: unmarshal_cases del: exec_unmarshal.simps)
  qed
qed

lemma gives_fields:
  "list_all supported fs \<Longrightarrow> list_all slices_assign fs \<Longrightarrow>
   tcp.gives (list_all2 typed_field fs) (exec_unmarshal conn_Read (concat (map unmarshal_field fs)))"
proof (induction fs)
  case Nil
  have "tcp.gives (list_all2 typed_field []) (io_return [])" by (rule tcp.gives_return) simp
  then show ?case by (simp only: list.map concat.simps exec_unmarshal.simps)
next
  case (Cons f fs)
  have "(\<lambda>p. \<exists>x q. p = x # q \<and> typed_field f x \<and> list_all2 typed_field fs q) = list_all2 typed_field (f # fs)"
    by (auto simp: fun_eq_iff list_all2_Cons1)
  then show ?case using gives_field [of f "list_all2 typed_field fs" "concat (map unmarshal_field fs)"] Cons by simp
qed

lemma marshal_supported:
  "list_all supported fs \<Longrightarrow> \<exists>b. exec_marshal c p (concat (map marshal_field fs)) = Some b"
  by (induction fs) (auto simp: supported_def marshal_string marshal_slice marshal_int)

section \<open>Type safety\<close>

text \<open>
  C28: A struct whose generated methods compile, and whose fields have types that the template knows, has
  a type-safe decoder: on every connection that comes to an end, whatever its bytes and however they are
  cut, \<open>Unmarshal\<close> returns without a panic; when it returns no error, it has assigned exactly the fields
  of the struct, each with a value of its type, and \<open>Marshal\<close> encodes them without a panic.
\<close>

theorem generated_decoder_is_type_safe:
  assumes "compiles s" and "list_all supported (Fields s)" and "conn_ok k"
  shows "\<exists>r k'. exec_unmarshal conn_Read (template_Unmarshal s) k = Some (r, k')
    \<and> (\<forall>p. r = Inr p \<longrightarrow> map fst p = map Name (Fields s) \<and> list_all2 well_typed (map Type (Fields s)) (map snd p)
        \<and> (\<exists>b. exec_marshal c p (template_Marshal s) = Some (c # b)))"
proof -
  have "list_all slices_assign (Fields s)" using assms(1) by (simp add: compiles_def slices_assign_def [abs_def])
  from gives_fields [OF assms(2) this] assms(3) obtain r k' where
    r: "exec_unmarshal conn_Read (template_Unmarshal s) k = Some (r, k')" "\<forall>p. r = Inr p \<longrightarrow> list_all2 typed_field (Fields s) p"
    by (auto simp: tcp.gives_def template_Unmarshal_def)
  have "map fst p = map Name (Fields s) \<and> list_all2 well_typed (map Type (Fields s)) (map snd p)"
    if "list_all2 typed_field (Fields s) p" for p
    using that by (induction rule: list_all2_induct) (simp_all add: typed_field_def)
  moreover have "\<exists>b. exec_marshal c p (template_Marshal s) = Some (c # b)" for p
    using marshal_supported [OF assms(2), of c p] by (auto simp: template_Marshal_def)
  ultimately show ?thesis using r by blast
qed

theorem generated_decoder_is_type_safe_witness:
  "\<exists>r k'. exec_unmarshal conn_Read
      (template_Unmarshal \<lparr>StructName = ''P'', Fields = [\<lparr>Name = ''A'', Type = ''string''\<rparr>, \<lparr>Name = ''B'', Type = ''[]uint16''\<rparr>]\<rparr>)
      \<lparr>segs = [[2, 65, 66, 1], [0, 7]], conn_end = EOF\<rparr> = Some (r, k')
    \<and> (\<forall>p. r = Inr p \<longrightarrow> map fst p = [''A'', ''B''] \<and> list_all2 well_typed [''string'', ''[]uint16''] (map snd p))"
proof -
  let ?s = "\<lparr>StructName = ''P'', Fields = [\<lparr>Name = ''A'', Type = ''string''\<rparr>, \<lparr>Name = ''B'', Type = ''[]uint16''\<rparr>]\<rparr>"
  have "compiles ?s" "list_all supported (Fields ?s)" "conn_ok \<lparr>segs = [[2, 65, 66, 1], [0, 7]], conn_end = EOF\<rparr>"
    by (simp_all add: compiles_def unmarshal_field_def supported_def slice_types_def conn_ok_def)
  from generated_decoder_is_type_safe [OF this] show ?thesis by fastforce
qed

end
