(* ===== verification/Life.thy ===== *)
theory Life
  imports Commands "HOL-Library.Sublist"
begin

text \<open>
  The life of the process: \<open>main\<close> of \<^verbatim>\<open>main.go\<close> with the constructors and the methods \<open>Start\<close> and \<open>Stop\<close> of the
  servers, as far as they start and stop goroutines and wait for each other. A goroutine is the list
  of the actions it has still to do; \<open>life_step\<close> is one action of one goroutine.
\<close>

section \<open>The actions of a goroutine\<close>

text \<open>
  \<open>Go q\<close> is a \<open>go\<close> statement. \<open>AcceptLoop\<close> is the loop of \<open>TCPServer.Start\<close> (and of \<open>UDPServer.Start\<close>), of
  which all that matters here is when it ends and which goroutines it starts; \<open>Select w\<close> is the loop of a goroutine that
  receives the messages of the clients, and \<open>w\<close> says whether it has a case for the end of its context.
  \<open>Write b\<close> is a write to a client, which does not return if \<open>b\<close> is true: the client does not read and the
  buffers of its connection are full. Handling a message ends with a write, or starts a heartbeat:
  \<open>Heartbeat bs\<close> is its loop, with one write for each element of \<open>bs\<close>, after which its client is gone
  or has asked for another one. \<open>Handle\<close> is the work of a handler that no other goroutine waits for.
\<close>

datatype client_message = Message bool | WantHeartbeat "bool list"

datatype action =
    Listen string string | Notify | Go "action list" | RecvSignal | SendDone | RecvDone
  | WgAdd | WgDone | WgWait | CancelCtx | CloseSocket
  | AcceptLoop | Select bool | Send client_message | Write bool | Heartbeat "bool list" | Handle

text \<open>\<^verbatim>\<open>server/tcp_server.go\<close>\<close>

definition NewTCPServer :: "action list" where
  "NewTCPServer = [Listen ''tcp'' '':8000'']"

definition TCP_Start :: "action list" where
  "TCP_Start = [AcceptLoop]"

definition TCP_Stop :: "action list" where
  "TCP_Stop = [CloseSocket]"

text \<open>\<^verbatim>\<open>server/udp_server.go\<close>\<close>

definition NewBaseUDPServer :: "string list \<Rightarrow> action list" where
  "NewBaseUDPServer bindAddr = [Listen ''udp'' (if length bindAddr > 0 then hd bindAddr else '':8000'')]"

definition UDP_Start :: "action list" where
  "UDP_Start = [AcceptLoop]"

definition UDP_Stop :: "action list" where
  "UDP_Stop = [CloseSocket]"

text \<open>\<^verbatim>\<open>jobcentre/jobcentre.go\<close>; the call of \<open>wg.Done\<close> is deferred.\<close>

definition NewJobCentreServer :: "action list" where
  "NewJobCentreServer = NewTCPServer"

definition jobcentre_internal :: "action list" where
  "jobcentre_internal = [Select True, WgDone]"

definition JobCentre_Start :: "action list" where
  "JobCentre_Start = [WgAdd, Go jobcentre_internal] @ TCP_Start"

definition JobCentre_Stop :: "action list" where
  "JobCentre_Stop = [CancelCtx, WgWait] @ TCP_Stop"

text \<open>\<^verbatim>\<open>traffic/traffic.go\<close>\<close>

definition NewTrafficServer :: "action list" where
  "NewTrafficServer = NewTCPServer"

definition traffic_handlingServer :: "action list" where
  "traffic_handlingServer = [Select True, WgDone]"

definition Traffic_Start :: "action list" where
  "Traffic_Start = [WgAdd, Go traffic_handlingServer] @ TCP_Start"

definition Traffic_Stop :: "action list" where
  "Traffic_Stop = [CancelCtx, WgWait] @ TCP_Stop"

text \<open>The goroutine of a heartbeat, and what the loops do with a message (only the traffic server has heartbeats).\<close>

definition traffic_handleHeartbeath :: "bool list \<Rightarrow> action list" where
  "traffic_handleHeartbeath bs = [Heartbeat bs, WgDone]"

definition start_heartbeat :: "bool list \<Rightarrow> action list" where
  "start_heartbeat bs = [WgAdd, Go (traffic_handleHeartbeath bs)]"

definition handling :: "client_message \<Rightarrow> action list" where
  "handling m = (case m of Message b \<Rightarrow> [Write b] | WantHeartbeat bs \<Rightarrow> start_heartbeat bs)"

text \<open>\<^verbatim>\<open>chat/chat.go\<close>\<close>

definition NewChatServer :: "action list" where
  "NewChatServer = NewTCPServer"

definition chat_runChatServer :: "action list" where
  "chat_runChatServer = [Select False]"

definition Chat_Start :: "action list" where
  "Chat_Start = [Go TCP_Start, Go chat_runChatServer]"

definition Chat_Stop :: "action list" where
  "Chat_Stop = TCP_Stop"

text \<open>\<^verbatim>\<open>mob/mob.go\<close>\<close>

definition NewMobServer :: "action list" where
  "NewMobServer = NewTCPServer"

definition Mob_Start :: "action list" where
  "Mob_Start = [Go TCP_Start]"

definition Mob_Stop :: "action list" where
  "Mob_Stop = TCP_Stop"

text \<open>\<^verbatim>\<open>db/db.go\<close>; \<open>startServer\<close> receives from a channel that nobody closes.\<close>

definition db_startServer :: "action list" where
  "db_startServer = [Select False]"

definition NewDbServer :: "action list" where
  "NewDbServer = NewBaseUDPServer [] @ [Go db_startServer]"

section \<open>The process\<close>

fun server_New :: "server_kind \<Rightarrow> action list" where
  "server_New MobServer = NewMobServer"
| "server_New DbServer = NewDbServer"
| "server_New ChatServer = NewChatServer"
| "server_New TrafficServer = NewTrafficServer"
| "server_New JobCentreServer = NewJobCentreServer"
| "server_New _ = NewTCPServer"

fun server_Start :: "server_kind \<Rightarrow> action list" where
  "server_Start MobServer = Mob_Start"
| "server_Start DbServer = UDP_Start"
| "server_Start ChatServer = Chat_Start"
| "server_Start TrafficServer = Traffic_Start"
| "server_Start JobCentreServer = JobCentre_Start"
| "server_Start _ = TCP_Start"

fun server_Stop :: "server_kind \<Rightarrow> action list" where
  "server_Stop MobServer = Mob_Stop"
| "server_Stop DbServer = UDP_Stop"
| "server_Stop ChatServer = Chat_Stop"
| "server_Stop TrafficServer = Traffic_Stop"
| "server_Stop JobCentreServer = JobCentre_Stop"
| "server_Stop _ = TCP_Stop"

text \<open>The capacity of the channel of the messages; those of the chat server are not buffered.\<close>

definition jobcentre_capacity :: nat where
  "jobcentre_capacity = 1024"

definition traffic_capacity :: nat where
  "traffic_capacity = 32"

definition db_capacity :: nat where
  "db_capacity = 128"

definition chat_capacity :: nat where
  "chat_capacity = 0"

fun capacity :: "server_kind \<Rightarrow> nat" where
  "capacity JobCentreServer = jobcentre_capacity"
| "capacity TrafficServer = traffic_capacity"
| "capacity DbServer = db_capacity"
| "capacity _ = chat_capacity"

text \<open>The goroutine of a client, with the messages it sends.\<close>

fun client_handler :: "server_kind \<Rightarrow> client_message list \<Rightarrow> action list" where
  "client_handler MobServer ms = [Handle]"
| "client_handler SmokeTest ms = [Handle]"
| "client_handler PrimeTime ms = [Handle]"
| "client_handler MeansServer ms = [Handle]"
| "client_handler _ ms = map Send ms"

text \<open>\<open>main\<close> from the call of the constructor on, and the goroutine that waits for a signal.\<close>

definition signal_goroutine :: "action list" where
  "signal_goroutine = [RecvSignal, SendDone]"

definition main_actions :: "server_kind \<Rightarrow> action list" where
  "main_actions k =
     server_New k @ [Notify, Go signal_goroutine, Go (server_Start k), RecvDone] @ server_Stop k"

datatype exit_status = Returned | Exited nat | Killed | Panicked

datatype socket = NotOpen | Open | Closed

text \<open>What comes from outside: connections, each with what its handler sends, or a failure of \<open>Accept\<close>.\<close>

datatype arrival = Connection "client_message list" | AcceptFailure

text \<open>
  The goroutines, \<open>main\<close> first; the counter of the \<open>WaitGroup\<close>, whether the context is cancelled, the
  messages in the channel, the socket; whether signals are caught, whether one is in \<open>sigCh\<close> (of capacity
  1, what does not fit is dropped), how many are still to come; the connections to come; and how the
  process has ended.
\<close>

record life =
  threads :: "action list list"
  wg :: nat
  cancelled :: bool
  chan :: "client_message list"
  socket :: socket
  notified :: bool
  sigCh :: bool
  signals :: nat
  arrivals :: "arrival list"
  status :: "exit_status option"

definition main_start :: "server_kind \<Rightarrow> arrival list \<Rightarrow> nat \<Rightarrow> life" where
  "main_start k as n =
     \<lparr>threads = [main_actions k], wg = 0, cancelled = False, chan = [], socket = NotOpen, notified = False,
      sigCh = False, signals = n, arrivals = as, status = None\<rparr>"

text \<open>
  The whole of \<open>main\<close>: it panics if the log file cannot be opened, and without a command that names a
  server it prints a message and exits.
\<close>

definition main_life :: "bool \<Rightarrow> string list \<Rightarrow> arrival list \<Rightarrow> nat \<Rightarrow> exit_status + server_kind \<times> life" where
  "main_life logFile args as n =
     (if \<not> logFile then Inl Panicked
      else case main_command (\<lambda>k. None) args of
             StartServer k \<Rightarrow> Inr (k, main_start k as n)
           | PrintAndExit m \<Rightarrow> Inl (Exited 1)
           | CreateError e \<Rightarrow> Inl Returned)"

text \<open>Goroutine \<open>i\<close> goes on with \<open>p\<close>; \<open>runs s i p\<close>: the process runs and \<open>p\<close> is what goroutine \<open>i\<close> has to do.\<close>

definition goto :: "life \<Rightarrow> nat \<Rightarrow> action list \<Rightarrow> life" where
  "goto s i p = s\<lparr>threads := (threads s)[i := p]\<rparr>"

definition runs :: "life \<Rightarrow> nat \<Rightarrow> action list \<Rightarrow> bool" where
  "runs s i p \<longleftrightarrow> status s = None \<and> i < length (threads s) \<and> threads s ! i = p"

definition spawn :: "life \<Rightarrow> action list \<Rightarrow> life" where
  "spawn s q = s\<lparr>threads := threads s @ [q]\<rparr>"

text \<open>\<open>free n a\<close>: the address can be bound, otherwise the constructor fails, and \<open>main\<close> logs this and returns.\<close>

inductive life_step :: "(string \<Rightarrow> string \<Rightarrow> bool) \<Rightarrow> server_kind \<Rightarrow> life \<Rightarrow> life \<Rightarrow> bool"
  for free :: "string \<Rightarrow> string \<Rightarrow> bool" and k :: server_kind where
  listen: "runs s i (Listen n a # p) \<Longrightarrow> free n a \<Longrightarrow> life_step free k s (goto s i p\<lparr>socket := Open\<rparr>)"
| listen_error: "runs s i (Listen n a # p) \<Longrightarrow> \<not> free n a \<Longrightarrow> life_step free k s (s\<lparr>status := Some Returned\<rparr>)"
| notify: "runs s i (Notify # p) \<Longrightarrow> life_step free k s (goto s i p\<lparr>notified := True\<rparr>)"
| signal_caught: "status s = None \<Longrightarrow> signals s = Suc n \<Longrightarrow> notified s \<Longrightarrow>
    life_step free k s (s\<lparr>signals := n, sigCh := True\<rparr>)"
| signal_kills: "status s = None \<Longrightarrow> signals s = Suc n \<Longrightarrow> \<not> notified s \<Longrightarrow>
    life_step free k s (s\<lparr>signals := n, status := Some Killed\<rparr>)"
| go: "runs s i (Go q # p) \<Longrightarrow> life_step free k s (spawn (goto s i p) q)"
| receive_signal: "runs s i (RecvSignal # p) \<Longrightarrow> sigCh s \<Longrightarrow> life_step free k s (goto s i p\<lparr>sigCh := False\<rparr>)"
| signal_done: "runs s i (SendDone # p) \<Longrightarrow> runs s j (RecvDone # q) \<Longrightarrow> life_step free k s (goto (goto s i p) j q)"
| wg_add: "runs s i (WgAdd # p) \<Longrightarrow> life_step free k s (goto s i p\<lparr>wg := wg s + 1\<rparr>)"
| wg_done: "runs s i (WgDone # p) \<Longrightarrow> wg s = Suc n \<Longrightarrow> life_step free k s (goto s i p\<lparr>wg := n\<rparr>)"
| wg_negative: "runs s i (WgDone # p) \<Longrightarrow> wg s = 0 \<Longrightarrow> life_step free k s (s\<lparr>status := Some Panicked\<rparr>)"
| wg_wait: "runs s i (WgWait # p) \<Longrightarrow> wg s = 0 \<Longrightarrow> life_step free k s (goto s i p)"
| cancel: "runs s i (CancelCtx # p) \<Longrightarrow> life_step free k s (goto s i p\<lparr>cancelled := True\<rparr>)"
| close: "runs s i (CloseSocket # p) \<Longrightarrow> life_step free k s (goto s i p\<lparr>socket := Closed\<rparr>)"
| accept: "runs s i (AcceptLoop # p) \<Longrightarrow> socket s = Open \<Longrightarrow> arrivals s = Connection ms # as \<Longrightarrow>
    life_step free k s (spawn s (client_handler k ms)\<lparr>arrivals := as\<rparr>)"
| accept_error: "runs s i (AcceptLoop # p) \<Longrightarrow> socket s = Open \<Longrightarrow> arrivals s = AcceptFailure # as \<Longrightarrow>
    life_step free k s (s\<lparr>arrivals := as, status := Some (Exited 1)\<rparr>)"
| accept_closed: "runs s i (AcceptLoop # p) \<Longrightarrow> socket s = Closed \<Longrightarrow> life_step free k s (goto s i p)"
| send: "runs s i (Send m # p) \<Longrightarrow> length (chan s) < capacity k \<Longrightarrow>
    life_step free k s (goto s i p\<lparr>chan := chan s @ [m]\<rparr>)"
| hand_over: "runs s i (Send m # p) \<Longrightarrow> runs s j (Select w # q) \<Longrightarrow> capacity k = 0 \<Longrightarrow>
    life_step free k s (goto (goto s i p) j (handling m @ Select w # q))"
| receive: "runs s i (Select w # q) \<Longrightarrow> chan s = m # ms \<Longrightarrow>
    life_step free k s (goto s i (handling m @ Select w # q)\<lparr>chan := ms\<rparr>)"
| context_done: "runs s i (Select True # q) \<Longrightarrow> cancelled s \<Longrightarrow> life_step free k s (goto s i q)"
| write_returns: "runs s i (Write False # p) \<Longrightarrow> life_step free k s (goto s i p)"
| tick: "runs s i (Heartbeat (b # bs) # p) \<Longrightarrow> life_step free k s (goto s i (Write b # Heartbeat bs # p))"
| heartbeat_cancelled: "runs s i (Heartbeat bs # p) \<Longrightarrow> cancelled s \<Longrightarrow> life_step free k s (goto s i p)"
| heartbeat_ends: "runs s i (Heartbeat [] # p) \<Longrightarrow> life_step free k s (goto s i p)"
| handled: "runs s i (Handle # p) \<Longrightarrow> life_step free k s (goto s i p)"
| main_returns: "runs s 0 [] \<Longrightarrow> life_step free k s (s\<lparr>status := Some Returned\<rparr>)"

section \<open>Every step uses something up\<close>

fun message_cost :: "client_message \<Rightarrow> nat" where
  "message_cost (Message b) = 2"
| "message_cost (WantHeartbeat bs) = 5 + 2 * length bs"

fun cost :: "action \<Rightarrow> nat" where
  "cost (Go q) = Suc (sum_list (map cost q))"
| "cost (Send m) = Suc (message_cost m)"
| "cost (Heartbeat bs) = 1 + 2 * length bs"
| "cost _ = 1"

definition cost_list :: "action list \<Rightarrow> nat" where
  "cost_list p = sum_list (map cost p)"

lemma cost_list_simps [simp]: "cost_list [] = 0" "cost_list (a # p) = cost a + cost_list p"
  by (simp_all add: cost_list_def)

lemma cost_list_append [simp]: "cost_list (p @ q) = cost_list p + cost_list q"
  by (simp add: cost_list_def)

lemma cost_handling: "cost_list (handling m) < message_cost m"
  by (simp add: handling_def start_heartbeat_def traffic_handleHeartbeath_def cost_list_def split: client_message.split)

lemma cost_pos [simp]: "0 < cost a"
  by (cases a) simp_all

fun arrival_cost :: "server_kind \<Rightarrow> arrival \<Rightarrow> nat" where
  "arrival_cost k (Connection ms) = Suc (cost_list (client_handler k ms))"
| "arrival_cost k AcceptFailure = 1"

text \<open>A sum over the goroutines.\<close>

definition over :: "(action list \<Rightarrow> int) \<Rightarrow> life \<Rightarrow> int" where
  "over f s = sum_list (map f (threads s))"

lemma sum_list_update:
  "i < length ps \<Longrightarrow> sum_list (map f (ps[i := p])) = sum_list (map f ps) + f p - (f (ps ! i) :: int)"
  by (induction ps arbitrary: i) (auto split: nat.split)

lemma over_goto [simp]:
  "i < length (threads s) \<Longrightarrow> over f (goto s i p) = over f s + f p - f (threads s ! i)"
  by (simp add: over_def goto_def sum_list_update)

lemma over_spawn [simp]: "over f (spawn s q) = over f s + f q"
  by (simp add: over_def spawn_def)

lemma over_update [simp]:
  "over f (s\<lparr>wg := a\<rparr>) = over f s" "over f (s\<lparr>cancelled := b\<rparr>) = over f s" "over f (s\<lparr>chan := c\<rparr>) = over f s"
  "over f (s\<lparr>socket := d\<rparr>) = over f s" "over f (s\<lparr>notified := b\<rparr>) = over f s" "over f (s\<lparr>sigCh := b\<rparr>) = over f s"
  "over f (s\<lparr>signals := a\<rparr>) = over f s" "over f (s\<lparr>arrivals := e\<rparr>) = over f s" "over f (s\<lparr>status := g\<rparr>) = over f s"
  by (simp_all add: over_def)

lemma goto_fields [simp]:
  "threads (goto s i p) = (threads s)[i := p]" "wg (goto s i p) = wg s" "cancelled (goto s i p) = cancelled s"
  "chan (goto s i p) = chan s" "socket (goto s i p) = socket s" "notified (goto s i p) = notified s"
  "sigCh (goto s i p) = sigCh s" "signals (goto s i p) = signals s" "arrivals (goto s i p) = arrivals s"
  "status (goto s i p) = status s"
  by (simp_all add: goto_def)

lemma spawn_fields [simp]:
  "threads (spawn s q) = threads s @ [q]" "wg (spawn s q) = wg s" "cancelled (spawn s q) = cancelled s"
  "chan (spawn s q) = chan s" "socket (spawn s q) = socket s" "notified (spawn s q) = notified s"
  "sigCh (spawn s q) = sigCh s" "signals (spawn s q) = signals s" "arrivals (spawn s q) = arrivals s"
  "status (spawn s q) = status s"
  by (simp_all add: spawn_def)

lemma runsD: "runs s i p \<Longrightarrow> status s = None \<and> i < length (threads s) \<and> threads s ! i = p"
  by (simp add: runs_def)

definition life_measure :: "server_kind \<Rightarrow> life \<Rightarrow> int" where
  "life_measure k s = over (\<lambda>p. int (cost_list p)) s + int (sum_list (map message_cost (chan s))) + int (signals s)
     + int (sum_list (map (arrival_cost k) (arrivals s))) + (if status s = None then 1 else 0)"

lemma life_measure_pos: "0 \<le> life_measure k s"
proof -
  have "0 \<le> over (\<lambda>p. int (cost_list p)) s" unfolding over_def by (rule sum_list_nonneg) auto
  then show ?thesis by (simp add: life_measure_def)
qed

lemma life_step_measure: "life_step free k s t \<Longrightarrow> life_measure k t < life_measure k s"
proof (induction rule: life_step.induct)
  case (signal_done s i p j q)
  then have "i \<noteq> j" by (auto simp: runs_def)
  with signal_done show ?case by (auto simp: life_measure_def dest!: runsD)
next
  case (hand_over s i m p j w q)
  then have "i \<noteq> j" by (auto simp: runs_def)
  with hand_over cost_handling [of m] show ?case by (auto simp: life_measure_def dest!: runsD)
next
  case (receive s i w q m ms)
  with cost_handling [of m] show ?case by (auto simp: life_measure_def dest!: runsD)
qed (auto simp: life_measure_def cost_list_def dest!: runsD)

lemma life_ends: "\<nexists>f. f 0 = s \<and> (\<forall>i. life_step free k (f i) (f (Suc i)))"
proof
  assume "\<exists>f. f 0 = s \<and> (\<forall>i. life_step free k (f i) (f (Suc i)))"
  then obtain f where f: "\<forall>i. life_step free k (f i) (f (Suc i))" by blast
  have "(f (Suc i), f i) \<in> measure (\<lambda>s. nat (life_measure k s))" for i
    using life_step_measure f life_measure_pos by (simp add: nat_mono_iff) (metis le_less_trans)
  then show False using wf_measure wf_iff_no_infinite_down_chain by blast
qed

end
