(* ===== verification/Life_Props.thy ===== *)
theory Life_Props
  imports Life
begin

text \<open>
  The life of the process: it ends after a signal, whatever the clients do, unless a client does not
  read what it is sent; then it may go on for ever, and does once a goroutine that is waited for is writing to it.
\<close>

section \<open>Counting actions\<close>

text \<open>How often an action occurs in what a goroutine has to do, goroutines it will start included.\<close>

fun occ1 :: "action \<Rightarrow> action \<Rightarrow> int" where
  "occ1 a (Go q) = sum_list (map (occ1 a) q)"
| "occ1 a b = (if a = b then 1 else 0)"

definition occ :: "action \<Rightarrow> action list \<Rightarrow> int" where
  "occ a p = sum_list (map (occ1 a) p)"

lemma occ_simps [simp]: "occ a [] = 0" "occ a (b # p) = occ1 a b + occ a p" "occ a (p @ q) = occ a p + occ a q"
  by (simp_all add: occ_def)

lemma occ1_Go [simp]: "occ1 a (Go q) = occ a q"
  by (simp add: occ_def)

declare occ1.simps(1) [simp del]

lemma occ1_pos: "0 \<le> occ1 a b"
  by (induction a b rule: occ1.induct) (auto simp: occ_def intro!: sum_list_nonneg)

lemma occ_pos: "0 \<le> occ a p"
  unfolding occ_def by (rule sum_list_nonneg) (auto simp: occ1_pos)

lemma occ_Send [simp]: "(\<And>m. a \<noteq> Send m) \<Longrightarrow> occ a (map Send ms) = 0"
  by (induction ms) auto

lemma over_positive: "0 < over f s \<Longrightarrow> \<exists>i < length (threads s). 0 < f (threads s ! i)"
proof (rule ccontr)
  assume a: "0 < over f s" and "\<not> (\<exists>i < length (threads s). 0 < f (threads s ! i))"
  then have "x \<le> 0" if "x \<in> set (map f (threads s))" for x using that by (force simp: in_set_conv_nth)
  then have "over f s \<le> 0" unfolding over_def by (rule sum_list_nonpos)
  with a show False by simp
qed

lemma le_sum_list: "(\<And>x. x \<in> set xs \<Longrightarrow> 0 \<le> x) \<Longrightarrow> y \<in> set xs \<Longrightarrow> (y :: int) \<le> sum_list xs"
proof (induction xs)
  case (Cons x xs)
  then have "0 \<le> sum_list xs" by (intro sum_list_nonneg) auto
  with Cons show ?case by fastforce
qed simp

lemma over_le:
  "(\<And>j. j < length (threads s) \<Longrightarrow> 0 \<le> f (threads s ! j)) \<Longrightarrow> i < length (threads s) \<Longrightarrow>
   f (threads s ! i) \<le> over f s"
  unfolding over_def by (rule le_sum_list) (force simp: in_set_conv_nth)+

lemma over_zero: "(\<And>j. j < length (threads s) \<Longrightarrow> f (threads s ! j) = 0) \<Longrightarrow> over f s = 0"
proof -
  assume "\<And>j. j < length (threads s) \<Longrightarrow> f (threads s ! j) = 0"
  then have "map f (threads s) = map (\<lambda>p. 0) (threads s)" by (simp add: list_eq_iff_nth_eq)
  then have "over f s = sum_list (map (\<lambda>p. 0) (threads s))" by (simp only: over_def)
  then show ?thesis by simp
qed

section \<open>The invariant\<close>

text \<open>What the goroutines other than \<open>main\<close> have to do, when all writes return.\<close>

definition programs :: "server_kind \<Rightarrow> action list list" where
  "programs k = [server_Start k, signal_goroutine, [AcceptLoop], [Select True, WgDone], [Select False], [Handle]]"

definition calm :: "client_message \<Rightarrow> bool" where
  "calm m \<longleftrightarrow> (case m of Message b \<Rightarrow> \<not> b | WantHeartbeat bs \<Rightarrow> True \<notin> set bs)"

definition thread_ok :: "server_kind \<Rightarrow> action list \<Rightarrow> bool" where
  "thread_ok k p \<longleftrightarrow> (\<exists>q \<in> set (programs k). suffix p q) \<or> (\<exists>ms. list_all calm ms \<and> p = map Send ms)
     \<or> (\<exists>m q. calm m \<and> q \<in> set [[Select True, WgDone], [Select False]] \<and> suffix p (handling m @ q))
     \<or> (\<exists>bs. True \<notin> set bs \<and> suffix p (Write False # traffic_handleHeartbeath bs))"

definition slot_ok :: "server_kind \<Rightarrow> nat \<Rightarrow> action list \<Rightarrow> bool" where
  "slot_ok k i p \<longleftrightarrow> (if i = 0 then suffix p (main_actions k) else thread_ok k p)"

lemmas start_defs = Mob_Start_def UDP_Start_def Chat_Start_def Traffic_Start_def JobCentre_Start_def TCP_Start_def
  jobcentre_internal_def traffic_handlingServer_def chat_runChatServer_def signal_goroutine_def
lemmas handling_defs = handling_def start_heartbeat_def traffic_handleHeartbeath_def
lemmas main_defs = main_actions_def NewMobServer_def NewDbServer_def NewChatServer_def NewTrafficServer_def
  NewJobCentreServer_def NewTCPServer_def NewBaseUDPServer_def Mob_Stop_def UDP_Stop_def Chat_Stop_def
  Traffic_Stop_def JobCentre_Stop_def TCP_Stop_def db_startServer_def

lemma thread_tail: "thread_ok k (a # p) \<Longrightarrow> thread_ok k p"
  unfolding thread_ok_def
proof (erule rev_mp, intro disj_mono)
  show "(\<exists>ms. list_all calm ms \<and> a # p = map Send ms) \<longrightarrow> (\<exists>ms. list_all calm ms \<and> p = map Send ms)"
    by (auto simp: Cons_eq_map_conv)
qed (meson suffix_ConsD)+

lemma slot_tail: "slot_ok k i (a # p) \<Longrightarrow> slot_ok k i p"
  by (auto simp: slot_ok_def dest: suffix_ConsD thread_tail split: if_splits)

lemma slot_other: "slot_ok k i (a # p) \<Longrightarrow> a \<notin> set (main_actions k) \<Longrightarrow> i \<noteq> 0 \<and> thread_ok k (a # p)"
  by (cases "i = 0") (auto simp: slot_ok_def dest!: set_mono_suffix)

lemmas slot_simps = slot_ok_def programs_def main_defs start_defs thread_ok_def suffix_Cons Cons_eq_map_conv handling_defs
  calm_def

lemma thread_cases:
  assumes "thread_ok k p"
  obtains q where "q \<in> set (programs k)" "suffix p q" | ms where "list_all calm ms" "p = map Send ms"
  | b q where "p = Write False # q \<or> p = q" "q \<in> set [[Select True, WgDone], [Select False]]"
  | bs q r where "True \<notin> set bs" "q \<in> set [[Select True, WgDone], [Select False]]"
      "p = WgAdd # Go (traffic_handleHeartbeath bs) # q \<or> p = Go (traffic_handleHeartbeath bs) # q"
  | bs where "True \<notin> set bs" "p = Write False # traffic_handleHeartbeath bs \<or> p = traffic_handleHeartbeath bs"
  | "p = [WgDone]" | "p = []"
  using assms unfolding thread_ok_def
  by (elim disjE exE bexE conjE) (auto simp: handling_defs calm_def suffix_Cons split: client_message.splits)

lemma slot_go: "slot_ok k i (Go q # p) \<Longrightarrow> thread_ok k q"
proof (cases "i = 0")
  case True
  moreover have "\<forall>q \<in> {q. Go q \<in> set (main_actions k)}. thread_ok k q"
    by (cases k) (auto simp: programs_def main_defs start_defs thread_ok_def suffix_Cons)
  moreover assume "slot_ok k i (Go q # p)"
  ultimately show ?thesis by (auto simp: slot_ok_def dest!: set_mono_suffix)
next
  case False
  have "\<forall>r \<in> set (programs k). \<forall>q \<in> {q. Go q \<in> set r}. thread_ok k q"
    by (cases k) (auto simp: programs_def main_defs start_defs thread_ok_def suffix_Cons)
  moreover have "thread_ok k (traffic_handleHeartbeath bs)" if "True \<notin> set bs" for bs
    using that by (auto simp: thread_ok_def suffix_Cons)
  moreover assume "slot_ok k i (Go q # p)"
  then have "thread_ok k (Go q # p)" using False by (simp add: slot_ok_def)
  ultimately show ?thesis
    by - (erule thread_cases [of k "Go q # p"]; fastforce simp: traffic_handleHeartbeath_def dest!: set_mono_suffix)
qed

lemma slot_handling: "slot_ok k i (Select w # p) \<Longrightarrow> calm m \<Longrightarrow> slot_ok k i (handling m @ Select w # p)"
proof -
  assume a: "slot_ok k i (Select w # p)" "calm m"
  have "Select w \<notin> set (main_actions k)" by (cases k) (auto simp: main_defs)
  from slot_other [OF a(1) this] have i: "i \<noteq> 0" and t: "thread_ok k (Select w # p)" by simp_all
  from t have "Select w # p \<in> set [[Select True, WgDone], [Select False]]"
    by (cases rule: thread_cases; cases k) (auto simp: programs_def start_defs traffic_handleHeartbeath_def suffix_Cons)
  then have "thread_ok k (handling m @ Select w # p)" using a(2) unfolding thread_ok_def by blast
  with i show ?thesis by (simp add: slot_ok_def)
qed

lemma slot_send: "slot_ok k i (Send m # p) \<Longrightarrow> calm m"
proof -
  assume a: "slot_ok k i (Send m # p)"
  have "Send m \<notin> set (main_actions k)" by (cases k) (auto simp: main_defs start_defs)
  from slot_other [OF a this] have i: "i \<noteq> 0" and t: "thread_ok k (Send m # p)" by simp_all
  from t show ?thesis
    by (cases rule: thread_cases; cases k)
      (auto simp: programs_def start_defs traffic_handleHeartbeath_def suffix_Cons Cons_eq_map_conv)
qed

lemma slot_tick: "slot_ok k i (Heartbeat (b # bs) # p) \<Longrightarrow> slot_ok k i (Write b # Heartbeat bs # p)"
proof -
  assume a: "slot_ok k i (Heartbeat (b # bs) # p)"
  have "Heartbeat (b # bs) \<notin> set (main_actions k)" by (cases k) (auto simp: main_defs start_defs)
  from slot_other [OF a this] have i: "i \<noteq> 0" and t: "thread_ok k (Heartbeat (b # bs) # p)" by simp_all
  from t have "\<not> b \<and> True \<notin> set bs \<and> p = [WgDone]"
    by (cases rule: thread_cases; cases k) (auto simp: programs_def start_defs traffic_handleHeartbeath_def suffix_Cons)
  then have "thread_ok k (Write b # Heartbeat bs # p)"
    unfolding thread_ok_def traffic_handleHeartbeath_def by auto
  with i show ?thesis by (simp add: slot_ok_def)
qed

text \<open>All writes return for what the clients do.\<close>

definition quiet :: "arrival \<Rightarrow> bool" where
  "quiet a \<longleftrightarrow> (case a of Connection ms \<Rightarrow> list_all calm ms | AcceptFailure \<Rightarrow> True)"

definition life_shape :: "server_kind \<Rightarrow> life \<Rightarrow> bool" where
  "life_shape k s \<longleftrightarrow> threads s \<noteq> [] \<and> (\<forall>i < length (threads s). slot_ok k i (threads s ! i))
     \<and> list_all calm (chan s) \<and> list_all quiet (arrivals s)"

lemma shape_goto: "life_shape k s \<Longrightarrow> slot_ok k i p \<Longrightarrow> life_shape k (goto s i p)"
proof -
  assume "life_shape k s" "slot_ok k i p"
  moreover have "(threads s)[i := p] ! j = (if j = i then p else threads s ! j)" if "j < length (threads s)" for j
    using that by simp
  ultimately show ?thesis by (simp add: life_shape_def)
qed

lemma shape_spawn: "life_shape k s \<Longrightarrow> thread_ok k q \<Longrightarrow> life_shape k (spawn s q)"
  by (auto simp: life_shape_def nth_append slot_ok_def)

lemma shape_runs: "life_shape k s \<Longrightarrow> runs s i p \<Longrightarrow> slot_ok k i p"
  by (auto simp: life_shape_def runs_def)

lemma shape_next: "life_shape k s \<Longrightarrow> runs s i (a # p) \<Longrightarrow> life_shape k (goto s i p)"
  by (rule shape_goto, assumption, rule slot_tail, rule shape_runs)

lemma handler_ok: "quiet (Connection ms) \<Longrightarrow> thread_ok k (client_handler k ms)"
  by (cases k) (auto simp: quiet_def thread_ok_def programs_def)

lemma shape_update [simp]:
  "life_shape k (s\<lparr>wg := a\<rparr>) = life_shape k s" "life_shape k (s\<lparr>cancelled := b\<rparr>) = life_shape k s"
  "life_shape k (s\<lparr>socket := d\<rparr>) = life_shape k s" "life_shape k (s\<lparr>notified := b\<rparr>) = life_shape k s"
  "life_shape k (s\<lparr>sigCh := b\<rparr>) = life_shape k s" "life_shape k (s\<lparr>signals := a\<rparr>) = life_shape k s"
  "life_shape k (s\<lparr>status := g\<rparr>) = life_shape k s"
  by (simp_all add: life_shape_def)

lemma shape_step: "life_step free k s t \<Longrightarrow> life_shape k s \<Longrightarrow> life_shape k t"
proof (induction rule: life_step.induct)
  case (go s i q p)
  from shape_runs [OF go(2,1)] have "thread_ok k q" by (rule slot_go)
  with shape_next [OF go(2,1)] show ?case by (rule shape_spawn)
next
  case (accept s i p ms as)
  then have "quiet (Connection ms)" by (simp add: life_shape_def)
  with accept have "life_shape k (spawn s (client_handler k ms))" by (intro shape_spawn handler_ok)
  with accept(3) show ?case by (simp add: life_shape_def)
next
  case (send s i m p)
  from shape_runs [OF send(3,1)] have "calm m" by (rule slot_send)
  with shape_next [OF send(3,1)] show ?case by (simp add: life_shape_def)
next
  case (hand_over s i m p j w q)
  from shape_runs [OF hand_over(4,1)] have "calm m" by (rule slot_send)
  with shape_runs [OF hand_over(4,2)] have "slot_ok k j (handling m @ Select w # q)" by (rule slot_handling)
  with shape_next [OF hand_over(4,1)] show ?case by (rule shape_goto)
next
  case (receive s i w q m ms)
  then have "calm m" by (simp add: life_shape_def)
  with shape_runs [OF receive(3,1)] have "slot_ok k i (handling m @ Select w # q)" by (rule slot_handling)
  with receive(3) have "life_shape k (goto s i (handling m @ Select w # q))" by (rule shape_goto)
  then show ?case using receive(2,3) by (simp add: life_shape_def)
next
  case (tick s i b bs p)
  from shape_runs [OF tick(2,1)] have "slot_ok k i (Write b # Heartbeat bs # p)" by (rule slot_tick)
  with tick(2) show ?case by (rule shape_goto)
next
  case (accept_error s i p as)
  then show ?case by (simp add: life_shape_def)
next
  case (signal_done s i p j q)
  from shape_runs [OF signal_done(3,2)] have "slot_ok k j q" by (rule slot_tail)
  with shape_next [OF signal_done(3,1)] show ?case by (rule shape_goto)
qed (simp_all, (rule shape_next, assumption+)+)

section \<open>The counts\<close>

definition weight :: "action list \<Rightarrow> int" where
  "weight p = occ WgDone p - occ WgAdd p"

lemma weight_simps [simp]:
  "weight [] = 0" "weight (a # p) = occ1 WgDone a - occ1 WgAdd a + weight p"
  by (simp_all add: weight_def)

lemma thread_weight: "thread_ok k p \<Longrightarrow> 0 \<le> weight p"
  by (erule thread_cases; cases k)
    (auto simp: programs_def start_defs suffix_Cons weight_def traffic_handleHeartbeath_def)

lemma slot_weight: "slot_ok k i p \<Longrightarrow> 0 \<le> weight p"
  using thread_weight [of k p]
  by (cases k; cases "i = 0") (auto simp: slot_ok_def main_defs start_defs suffix_Cons weight_def)

lemma slot_occ:
  assumes "thread_ok k p"
  shows "occ CloseSocket p = 0" "occ CancelCtx p = 0" "occ RecvDone p = 0"
  using assms
  by (erule_tac [!] thread_cases; cases k; auto simp: programs_def start_defs suffix_Cons traffic_handleHeartbeath_def)+

lemma client_counts [simp]:
  "occ SendDone (client_handler k ms) = 0" "occ RecvDone (client_handler k ms) = 0"
  "occ RecvSignal (client_handler k ms) = 0" "occ CancelCtx (client_handler k ms) = 0"
  "occ CloseSocket (client_handler k ms) = 0" "weight (client_handler k ms) = 0"
  by (cases k; simp add: weight_def)+

lemma handling_counts [simp]:
  "occ SendDone (handling m) = 0" "occ RecvDone (handling m) = 0" "occ RecvSignal (handling m) = 0"
  "occ CancelCtx (handling m) = 0" "occ CloseSocket (handling m) = 0" "weight (handling m) = 0"
  by (cases m; simp add: handling_defs weight_def)+

lemma weight_append [simp]: "weight (p @ q) = weight p + weight q"
  by (simp add: weight_def)

definition waits :: "server_kind \<Rightarrow> bool" where
  "waits k \<longleftrightarrow> k = JobCentreServer \<or> k = TrafficServer"

definition life_counts :: "server_kind \<Rightarrow> life \<Rightarrow> bool" where
  "life_counts k s \<longleftrightarrow> int (wg s) = over weight s
     \<and> over (occ SendDone) s = over (occ RecvDone) s
     \<and> over (occ RecvSignal) s \<le> 1
     \<and> (status s = None \<longrightarrow> over (occ RecvSignal) s = 1 \<longrightarrow> sigCh s \<or> 0 < signals s)
     \<and> (over (occ CancelCtx) s = 0 \<longrightarrow> cancelled s \<or> \<not> waits k)"

lemma counts_step: "life_step free k s t \<Longrightarrow> life_counts k s \<Longrightarrow> life_counts k t"
proof (induction rule: life_step.induct)
  case (signal_done s i p j q)
  then have "i \<noteq> j" by (auto simp: runs_def)
  with signal_done show ?case by (auto simp: life_counts_def dest!: runsD)
next
  case (hand_over s i m p j w q)
  then have "i \<noteq> j" by (auto simp: runs_def)
  with hand_over show ?case by (auto simp: life_counts_def dest!: runsD)
qed (simp_all add: life_counts_def runs_def, simp add: weight_def)

text \<open>How the process can have ended.\<close>

definition life_outcome :: "(string \<Rightarrow> string \<Rightarrow> bool) \<Rightarrow> arrival list \<Rightarrow> life \<Rightarrow> bool" where
  "life_outcome free as s \<longleftrightarrow> set (arrivals s) \<subseteq> set as
     \<and> (over (occ CloseSocket) s = 0 \<longrightarrow> socket s = Closed)
     \<and> (case status s of
          None \<Rightarrow> True
        | Some Returned \<Rightarrow> socket s = Closed \<or> (\<exists>n a. \<not> free n a)
        | Some (Exited c) \<Rightarrow> c = 1 \<and> AcceptFailure \<in> set as
        | Some Killed \<Rightarrow> \<not> notified s
        | Some Panicked \<Rightarrow> False)"

lemma slot_listen: "slot_ok k i (Listen n a # p) \<Longrightarrow> 1 \<le> occ CloseSocket p"
proof -
  assume a: "slot_ok k i (Listen n a # p)"
  have "i = 0"
  proof (rule ccontr)
    assume "i \<noteq> 0"
    with a have "thread_ok k (Listen n a # p)" by (simp add: slot_ok_def)
    then show False
      by (cases rule: thread_cases; cases k) (auto simp: programs_def start_defs suffix_Cons traffic_handleHeartbeath_def Cons_eq_map_conv)
  qed
  with a show ?thesis by (cases k) (auto simp: slot_ok_def main_defs start_defs suffix_Cons)
qed

lemma main_end: "life_shape k s \<Longrightarrow> threads s ! 0 = [] \<Longrightarrow> over (occ CloseSocket) s = 0"
proof (rule over_zero)
  fix j assume "life_shape k s" "threads s ! 0 = []" "j < length (threads s)"
  then show "occ CloseSocket (threads s ! j) = 0"
    using slot_occ(1) [of k "threads s ! j"] by (cases "j = 0") (auto simp: life_shape_def slot_ok_def)
qed

lemma done_counted:
  assumes "life_shape k s" and "life_counts k s" and "runs s i (WgDone # p)"
  shows "0 < wg s"
proof -
  have "slot_ok k i p" using shape_runs [OF assms(1,3)] by (rule slot_tail)
  then have "0 \<le> weight p" by (rule slot_weight)
  moreover have "weight (threads s ! i) \<le> over weight s"
    using assms(1,3) by (intro over_le) (auto simp: life_shape_def runs_def slot_weight)
  ultimately show ?thesis using assms(2,3) by (auto simp: life_counts_def runs_def)
qed

lemma outcome_step:
  "life_step free k s t \<Longrightarrow> life_shape k s \<Longrightarrow> life_counts k s \<Longrightarrow> life_outcome free as s \<Longrightarrow> life_outcome free as t"
proof (induction rule: life_step.induct)
  case (signal_done s i p j q)
  then have "i \<noteq> j" by (auto simp: runs_def)
  with signal_done show ?case by (auto simp: life_outcome_def dest!: runsD)
next
  case (hand_over s i m p j w q)
  then have "i \<noteq> j" by (auto simp: runs_def)
  with hand_over show ?case by (auto simp: life_outcome_def dest!: runsD)
next
  case (listen s i n a p)
  have "1 \<le> occ CloseSocket p" using shape_runs [OF listen(3,1)] by (rule slot_listen)
  moreover have "occ CloseSocket (threads s ! i) \<le> over (occ CloseSocket) s"
    using listen(1) by (intro over_le) (auto simp: occ_pos runs_def)
  ultimately show ?case using listen by (auto simp: life_outcome_def dest!: runsD)
next
  case (wg_negative s i p)
  from done_counted [OF wg_negative(3,4,1)] wg_negative(2) show ?case by simp
next
  case (main_returns s)
  with main_end show ?case by (auto simp: life_outcome_def dest!: runsD)
qed (auto simp: life_outcome_def runs_def)

section \<open>No deadlock\<close>

lemma main_heads:
  assumes "suffix p (main_actions k)"
  obtains "p = []" | a q where "p = a # q" "a = Notify \<or> (\<exists>n x. a = Listen n x) \<or> (\<exists>r. a = Go r) \<or> a = CancelCtx \<or> a = CloseSocket"
  | "p = RecvDone # server_Stop k" | "p = [WgWait, CloseSocket]" "waits k"
  using assms by (cases k) (auto simp: main_defs suffix_Cons waits_def)

lemma pending_signal:
  assumes "thread_ok k p" and "0 < occ SendDone p"
  shows "p = signal_goroutine \<or> p = [SendDone]"
  using assms(1)
  by (cases rule: thread_cases; cases k)
    (use assms(2) in \<open>auto simp: programs_def start_defs suffix_Cons traffic_handleHeartbeath_def\<close>)

lemma pending_done:
  assumes "thread_ok k p" and "0 < weight p"
  obtains a q where "p = a # q" "a = Write False \<or> a = Select True \<or> a = WgDone \<or> a = WgAdd \<or> (\<exists>r. a = Go r) \<or> (\<exists>bs. a = Heartbeat bs)"
  using assms(1)
  by (cases rule: thread_cases; cases k)
    (use assms(2) in \<open>auto simp: programs_def start_defs suffix_Cons traffic_handleHeartbeath_def weight_def\<close>)

lemma no_deadlock:
  assumes "life_shape k s" and "life_counts k s" and "status s = None"
  shows "\<exists>t. life_step free k s t"
proof -
  have r: "runs s i (threads s ! i)" if "i < length (threads s)" for i using that assms(3) by (simp add: runs_def)
  have ok: "thread_ok k (threads s ! i)" if "i < length (threads s)" "i \<noteq> 0" for i
    using that assms(1) by (auto simp: life_shape_def slot_ok_def)
  have l: "0 < length (threads s)" using assms(1) by (simp add: life_shape_def)
  have "suffix (threads s ! 0) (main_actions k)" using l assms(1) by (auto simp: life_shape_def slot_ok_def)
  then show ?thesis
  proof (cases rule: main_heads)
    case 1
    with r [OF l] show ?thesis using main_returns by metis
  next
    case (2 a q)
    with r [OF l] show ?thesis using notify listen listen_error go cancel close by metis
  next
    case 3
    have "1 \<le> over (occ RecvDone) s"
      using over_le [of s "occ RecvDone" 0, OF occ_pos l] 3 occ_pos [of RecvDone "server_Stop k"] by simp
    then have "0 < over (occ SendDone) s" using assms(2) by (simp add: life_counts_def)
    from over_positive [OF this] obtain i where i: "i < length (threads s)" "0 < occ SendDone (threads s ! i)" by blast
    have "occ SendDone (threads s ! 0) = 0" using 3 by (cases k) (simp_all add: main_defs)
    with i have "i \<noteq> 0" by (metis less_irrefl)
    from pending_signal [OF ok [OF i(1) this] i(2)] show ?thesis
    proof
      assume "threads s ! i = [SendDone]"
      with r [OF i(1)] r [OF l] 3 show ?thesis using signal_done by metis
    next
      assume w: "threads s ! i = signal_goroutine"
      then have "1 \<le> over (occ RecvSignal) s"
        using over_le [of s "occ RecvSignal" i] i(1) by (simp add: occ_pos signal_goroutine_def)
      then have "sigCh s \<or> 0 < signals s" using assms(2,3) by (simp add: life_counts_def)
      then show ?thesis
        using r [OF i(1)] w receive_signal signal_caught signal_kills assms(3)
        unfolding signal_goroutine_def by (metis gr0_implies_Suc)
    qed
  next
    case 4
    show ?thesis
    proof (cases "wg s = 0")
      case True
      with r [OF l] 4 show ?thesis using wg_wait by metis
    next
      case False
      then have "0 < over weight s" using assms(2) by (simp add: life_counts_def)
      from over_positive [OF this] obtain i where i: "i < length (threads s)" "0 < weight (threads s ! i)" by blast
      with 4 have "i \<noteq> 0" by (auto intro: ccontr)
      have "over (occ CancelCtx) s = 0"
      proof (rule over_zero)
        fix j assume "j < length (threads s)"
        with 4 ok [of j] slot_occ(2) [of k "threads s ! j"] show "occ CancelCtx (threads s ! j) = 0"
          by (cases "j = 0") auto
      qed
      then have "cancelled s" using assms(2) 4 by (simp add: life_counts_def)
      from pending_done [OF ok [OF i(1) \<open>i \<noteq> 0\<close>] i(2)] obtain a q where
        "threads s ! i = a # q" "a = Write False \<or> a = Select True \<or> a = WgDone \<or> a = WgAdd \<or> (\<exists>r. a = Go r) \<or> (\<exists>bs. a = Heartbeat bs)" .
      with r [OF i(1)] \<open>cancelled s\<close> False show ?thesis
        using go write_returns context_done wg_done wg_add heartbeat_cancelled by (metis not0_implies_Suc)
    qed
  qed
qed

section \<open>The end of the process\<close>

definition halts :: "(string \<Rightarrow> string \<Rightarrow> bool) \<Rightarrow> server_kind \<Rightarrow> life \<Rightarrow> bool" where
  "halts free k s \<longleftrightarrow> (\<nexists>t. life_step free k s t)"

lemma start_inv:
  assumes "list_all quiet as" and "0 < n"
  shows "life_shape k (main_start k as n)" "life_counts k (main_start k as n)" "life_outcome free as (main_start k as n)"
proof -
  show "life_shape k (main_start k as n)"
    using assms(1) by (simp add: life_shape_def main_start_def slot_ok_def)
  show "life_counts k (main_start k as n)"
    using assms(2) by (cases k) (simp_all add: life_counts_def main_start_def over_def weight_def main_defs start_defs waits_def)
  show "life_outcome free as (main_start k as n)"
    by (cases k) (simp_all add: life_outcome_def main_start_def over_def main_defs start_defs)
qed

lemma life_inv:
  assumes "(life_step free k)\<^sup>*\<^sup>* (main_start k as n) s" and "list_all quiet as" and "0 < n"
  shows "life_shape k s \<and> life_counts k s \<and> life_outcome free as s"
  using assms(1)
proof (induction rule: rtranclp_induct)
  case base
  with start_inv [OF assms(2,3)] show ?case by blast
next
  case (step s t)
  with shape_step [OF step(2)] counts_step [OF step(2)] outcome_step [OF step(2)] show ?case by blast
qed

lemma halting_life:
  assumes "(life_step free k)\<^sup>*\<^sup>* (main_start k as n) s" "halts free k s" and "list_all quiet as" "0 < n"
  shows "(status s = Some Returned \<and> (socket s = Closed \<or> (\<exists>n a. \<not> free n a))) \<or> (status s = Some Killed \<and> \<not> notified s)
    \<or> (status s = Some (Exited 1) \<and> AcceptFailure \<in> set as)"
proof -
  from life_inv [OF assms(1,3,4)] have inv: "life_shape k s" "life_counts k s" "life_outcome free as s" by simp_all
  with no_deadlock [OF inv(1,2)] assms(2) obtain e where "status s = Some e" by (auto simp: halts_def)
  with inv(3) show ?thesis by (cases e) (auto simp: life_outcome_def)
qed

lemma some_run_halts: "\<exists>t. (life_step free k)\<^sup>*\<^sup>* s t \<and> halts free k t"
proof (induction "nat (life_measure k s)" arbitrary: s rule: less_induct)
  case less
  show ?case
  proof (cases "halts free k s")
    case True
    then show ?thesis by blast
  next
    case False
    then obtain u where u: "life_step free k s u" by (auto simp: halts_def)
    then have "nat (life_measure k u) < nat (life_measure k s)"
      using life_step_measure [OF u] life_measure_pos [of k u] by simp
    from less [OF this] u show ?thesis by (blast intro: converse_rtranclp_into_rtranclp)
  qed
qed

text \<open>
  C8: When a signal arrives and all writes to the clients return, the process ends, whichever server it
  runs, whatever the clients do and in every interleaving of its goroutines: every run is finite, and
  when no goroutine can go on, \<open>main\<close> has returned and the socket is closed, unless the address could not be
  bound, the signal came before \<open>main\<close> asked for it, or the listener failed. No counter of a
  \<open>WaitGroup\<close> gets negative.
\<close>

theorem the_process_ends_after_a_signal:
  assumes "main_life logFile args as n = Inr (k, start)" and "list_all quiet as" and "0 < n"
  shows "(\<nexists>f. f 0 = start \<and> (\<forall>i. life_step free k (f i) (f (Suc i))))
    \<and> ((life_step free k)\<^sup>*\<^sup>* start s \<and> halts free k s \<longrightarrow>
        (status s = Some Returned \<and> (socket s = Closed \<or> (\<exists>n a. \<not> free n a))) \<or> (status s = Some Killed \<and> \<not> notified s)
      \<or> (status s = Some (Exited 1) \<and> AcceptFailure \<in> set as))"
proof -
  have "start = main_start k as n"
    using assms(1) by (auto simp: main_life_def split: if_splits outcome.splits)
  then show ?thesis using life_ends [of start free k] halting_life [OF _ _ assms(2,3)] by blast
qed

theorem the_process_ends_after_a_signal_witness:
  "\<exists>s. (life_step (\<lambda>n a. True) TrafficServer)\<^sup>*\<^sup>* (main_start TrafficServer [Connection [WantHeartbeat [False], Message False]] 1) s
     \<and> halts (\<lambda>n a. True) TrafficServer s
     \<and> (status s = Some Returned \<and> socket s = Closed \<or> status s = Some Killed \<and> \<not> notified s)"
proof -
  let ?as = "[Connection [WantHeartbeat [False], Message False]]"
  obtain s where s: "(life_step (\<lambda>n a. True) TrafficServer)\<^sup>*\<^sup>* (main_start TrafficServer ?as 1) s"
      "halts (\<lambda>n a. True) TrafficServer s"
    using some_run_halts by blast
  have "main_life True [''traffic''] ?as 1 = Inr (TrafficServer, main_start TrafficServer ?as 1)"
    by (simp add: main_life_def main_command_def servers_def)
  moreover have "list_all quiet ?as" "0 < (1 :: nat)" by (simp_all add: quiet_def calm_def)
  ultimately show ?thesis
    using the_process_ends_after_a_signal [of True "[''traffic'']" ?as 1 TrafficServer _ "\<lambda>n a. True" s] s by auto
qed

section \<open>A client that does not read\<close>

text \<open>
  The counter of the \<open>WaitGroup\<close>, whatever the clients do: no goroutine takes away more than is added, at
  any point of what it has to do.
\<close>

inductive good :: "action list \<Rightarrow> bool" where
  good_Nil: "good []"
| good_Cons: "good p \<Longrightarrow> 0 \<le> weight (a # p) \<Longrightarrow> (\<And>q. a = Go q \<Longrightarrow> good q) \<Longrightarrow> good (a # p)"

inductive_cases good_ConsE: "good (a # p)"

lemma goodD: "good (a # p) \<Longrightarrow> good p \<and> 0 \<le> weight (a # p) \<and> (\<forall>q. a = Go q \<longrightarrow> good q)"
  by (erule good_ConsE) auto

lemma good_tail: "good (a # p) \<Longrightarrow> good p"
  by (erule good_ConsE)

lemma good_weight: "good p \<Longrightarrow> 0 \<le> weight p"
  by (induction rule: good.induct) (simp_all only: weight_simps(1) order_refl)

fun is_Go :: "action \<Rightarrow> bool" where
  "is_Go (Go q) = True"
| "is_Go _ = False"

lemma good_plain: "good p \<Longrightarrow> occ1 WgAdd a = 0 \<Longrightarrow> \<not> is_Go a \<Longrightarrow> good (a # p)"
  using good_weight [of p] occ1_pos [of WgDone a] by (intro good_Cons) auto

lemma good_go: "good p \<Longrightarrow> good q \<Longrightarrow> good (Go q # p)"
  using good_weight [of p] good_weight [of q] by (intro good_Cons) (auto simp: weight_def)

lemma good_start:
  assumes "good p" and "good q" and "weight q = 1"
  shows "good (WgAdd # Go q # p)"
  using good_weight [OF assms(1)] assms(3) by (intro good_Cons good_go assms(1,2)) (auto simp: weight_def)

lemma good_internal: "good [Select True, WgDone]"
  by (intro good_plain good_Nil) simp_all

lemma good_heartbeat: "good (traffic_handleHeartbeath bs)"
  unfolding traffic_handleHeartbeath_def by (intro good_plain good_Nil) simp_all

lemma good_handling: "good p \<Longrightarrow> good (handling m @ p)"
proof (cases m)
  case (Message b)
  moreover assume "good p"
  ultimately show ?thesis by (simp add: handling_def good_plain)
next
  case (WantHeartbeat bs)
  moreover assume "good p"
  moreover have "weight (traffic_handleHeartbeath bs) = 1" by (simp add: traffic_handleHeartbeath_def)
  ultimately show ?thesis by (simp add: handling_def start_heartbeat_def good_start good_heartbeat)
qed

lemma good_client: "good (client_handler k ms)"
proof -
  have "good (map Send ms)" by (induction ms) (auto intro: good_plain good_Nil)
  then show ?thesis by (cases k) (auto intro: good_plain good_Nil)
qed

lemmas good_simps = good_plain good_go good_Nil good_start good_internal

lemma good_main: "good (main_actions k)"
  by (cases k) (simp_all add: main_defs start_defs good_simps)

definition counted :: "arrival list \<Rightarrow> life \<Rightarrow> bool" where
  "counted as s \<longleftrightarrow> list_all good (threads s) \<and> int (wg s) = over weight s \<and> threads s \<noteq> []
     \<and> set (arrivals s) \<subseteq> set as
     \<and> (status s = None \<or> (status s = Some Killed \<and> \<not> notified s)
        \<or> (status s = Some (Exited 1) \<and> AcceptFailure \<in> set as)
        \<or> (status s = Some Returned \<and> threads s ! 0 = []))"

lemma counted_start: "counted as (main_start k as n)"
proof -
  have "weight (main_actions k) = 0" by (cases k) (simp_all add: main_defs start_defs weight_def)
  then show ?thesis by (simp add: counted_def main_start_def good_main over_def)
qed

lemma counted_runs: "counted as s \<Longrightarrow> runs s i p \<Longrightarrow> good p"
  by (auto simp: counted_def runs_def list_all_length)

lemma counted_le: "counted as s \<Longrightarrow> runs s i p \<Longrightarrow> weight p \<le> int (wg s)"
  using over_le [of s weight i] good_weight
  by (auto simp: counted_def runs_def list_all_length)

lemma counted_goto:
  assumes "counted as s" and "runs s i q" and "good p" and "weight p = weight q"
  shows "counted as (goto s i p)"
proof -
  have "list_all good ((threads s)[i := p])"
    using assms(1,3) by (auto simp: counted_def list_all_iff dest: set_update_subset_insert [THEN subsetD])
  with assms(1,2,4) show ?thesis by (auto simp: counted_def runs_def)
qed

lemma counted_next:
  "counted as s \<Longrightarrow> runs s i (a # p) \<Longrightarrow> occ1 WgDone a = occ1 WgAdd a \<Longrightarrow> counted as (goto s i p)"
  by (rule counted_goto [where q = "a # p"]) (auto dest: counted_runs good_tail)

lemma counted_spawn: "counted as s \<Longrightarrow> status s = None \<Longrightarrow> good q \<Longrightarrow> weight q = 0 \<Longrightarrow> counted as (spawn s q)"
  by (simp add: counted_def)

lemma counted_update [simp]:
  "counted as (s\<lparr>cancelled := b\<rparr>) = counted as s" "counted as (s\<lparr>chan := c\<rparr>) = counted as s"
  "counted as (s\<lparr>socket := d\<rparr>) = counted as s" "counted as (s\<lparr>sigCh := b\<rparr>) = counted as s"
  by (simp_all add: counted_def)

lemma counted_wg:
  assumes "counted as s" and "runs s i (a # p)" and "int n = int (wg s) + occ1 WgAdd a - occ1 WgDone a"
  shows "counted as (goto s i p\<lparr>wg := n\<rparr>)"
proof -
  have "good p" using assms(1,2) by (blast dest: counted_runs good_tail)
  then have "list_all good ((threads s)[i := p])"
    using assms(1) by (auto simp: counted_def list_all_iff dest: set_update_subset_insert [THEN subsetD])
  with assms show ?thesis by (auto simp: counted_def runs_def)
qed

lemma counted_step: "life_step (\<lambda>n a. True) k s t \<Longrightarrow> counted as s \<Longrightarrow> counted as t"
proof (induction rule: life_step.induct)
  case (notify s i p)
  have "counted as (goto s i p)" by (rule counted_next [OF notify(2,1)]) simp
  then show ?case using notify(1) by (simp add: counted_def runs_def)
next
  case (go s i q p)
  from goodD [OF counted_runs [OF go(2,1)]] have g: "good p" "good q" by simp_all
  then have "list_all good ((threads s)[i := p])"
    using go(2) by (auto simp: counted_def list_all_iff dest: set_update_subset_insert [THEN subsetD])
  with go g show ?case by (auto simp: counted_def runs_def weight_def)
next
  case (signal_done s i p j q)
  then have "i \<noteq> j" by (auto simp: runs_def)
  with signal_done(2) have "runs (goto s i p) j (RecvDone # q)" by (simp add: runs_def)
  moreover have "counted as (goto s i p)" by (rule counted_next [OF signal_done(3,1)]) simp
  ultimately show ?case by - (rule counted_next, assumption+, simp)
next
  case (wg_negative s i p)
  from good_weight [OF good_tail [OF counted_runs [OF wg_negative(3,1)]]] counted_le [OF wg_negative(3,1)] wg_negative(2)
  show ?case by simp
next
  case (accept s i p ms as')
  then have "counted as (spawn s (client_handler k ms))" by (intro counted_spawn good_client) (simp_all add: runs_def)
  with accept show ?case by (auto simp: counted_def)
next
  case (hand_over s i m p j w q)
  then have "i \<noteq> j" by (auto simp: runs_def)
  with hand_over(2) have r: "runs (goto s i p) j (Select w # q)" by (simp add: runs_def)
  have c: "counted as (goto s i p)" by (rule counted_next [OF hand_over(4,1)]) simp
  from good_handling [OF counted_runs [OF c r]] show ?case by (intro counted_goto [OF c r]) simp_all
next
  case (receive s i w q m ms)
  from good_handling [OF counted_runs [OF receive(3,1)]]
  have "counted as (goto s i (handling m @ Select w # q))" by (intro counted_goto [OF receive(3,1)]) simp_all
  then show ?case by simp
next
  case (tick s i b bs p)
  have "good (Write b # Heartbeat bs # p)"
    using good_tail [OF counted_runs [OF tick(2,1)]] by (intro good_plain) simp_all
  then show ?case by (intro counted_goto [OF tick(2,1)]) simp_all
next
  case (wg_add s i p)
  show ?case by (rule counted_wg [OF wg_add(2,1)]) simp
next
  case (wg_done s i p n)
  show ?case by (rule counted_wg [OF wg_done(3,1)]) (simp add: wg_done(2))
next
  case (listen s i n a p)
  have "counted as (goto s i p)" by (rule counted_next [OF listen(3,1)]) simp
  then show ?case by simp
next
  case (signal_caught s n)
  then show ?case by (simp add: counted_def)
next
  case (signal_kills s n)
  then show ?case by (simp add: counted_def)
next
  case (main_returns s)
  then show ?case by (simp add: counted_def runs_def)
next
  case (accept_error s i p as')
  then show ?case by (auto simp: counted_def)
qed (simp_all, (rule counted_next, assumption+, simp)+)

lemma counted_run: "(life_step (\<lambda>n a. True) k)\<^sup>*\<^sup>* s t \<Longrightarrow> counted as s \<Longrightarrow> counted as t"
  by (induction rule: rtranclp_induct) (blast intro: counted_step)+

text \<open>Goroutine \<open>i\<close> is in a write that does not return, and \<open>main\<close> has still to wait for it.\<close>

definition waits_for_ever :: "nat \<Rightarrow> action list \<Rightarrow> life \<Rightarrow> bool" where
  "waits_for_ever i p s \<longleftrightarrow> i < length (threads s) \<and> threads s ! i = Write True # p \<and> 0 < weight p
     \<and> WgWait \<in> set (threads s ! 0) \<and> notified s"

lemma waits_step:
  assumes "life_step (\<lambda>n a. True) k s t" and "counted as s" and "waits_for_ever i p s"
  shows "waits_for_ever i p t"
proof -
  have g: "0 < wg s" if "status s = None"
    using counted_le [OF assms(2), of i "Write True # p"] assms(3) that by (simp add: waits_for_ever_def runs_def)
  show ?thesis
    using assms(1,3) g by (cases rule: life_step.cases)
      (auto simp: waits_for_ever_def runs_def nth_list_update nth_append)
qed

lemma waits_run:
  "(life_step (\<lambda>n a. True) k)\<^sup>*\<^sup>* s t \<Longrightarrow> counted as s \<Longrightarrow> waits_for_ever i p s \<Longrightarrow>
   counted as t \<and> waits_for_ever i p t"
  by (induction rule: rtranclp_induct) (blast intro: counted_step waits_step)+

text \<open>
  A run of the servers that \<open>Stop\<close> waits for which leads to such a state: the goroutine that owns the state is in
  a write that does not return, and nobody receives further signals.
\<close>

definition hung :: "server_kind \<Rightarrow> bool \<Rightarrow> nat \<Rightarrow> life" where
  "hung k c m =
     \<lparr>threads = [[WgWait, CloseSocket], [], [AcceptLoop], [Write True, Select True, WgDone], []],
      wg = 1, cancelled = True, chan = [], socket = Open, notified = True, sigCh = c, signals = m, arrivals = [],
      status = None\<rparr>"

lemma step_to: "life_step free k s t' \<Longrightarrow> t' = t \<Longrightarrow> life_step free k s t"
  by simp

abbreviation (input) life_of where
  "life_of ths w c ch so no sg n ar \<equiv>
     \<lparr>threads = ths, wg = w, cancelled = c, chan = ch, socket = so, notified = no, sigCh = sg, signals = n, arrivals = ar,
      status = None\<rparr>"

lemma hung_reachable:
  assumes "waits k"
  shows "(life_step (\<lambda>n a. True) k)\<^sup>*\<^sup>* (main_start k [Connection [Message True]] (Suc m)) (hung k False m)"
proof -
  let ?stop = "[CancelCtx, WgWait, CloseSocket]" and ?int = "[Select True, WgDone]" and ?c = "[Connection [Message True]]"
  let ?m1 = "Go [WgAdd, Go ?int, AcceptLoop] # RecvDone # ?stop"
  have k: "main_actions k = Listen ''tcp'' '':8000'' # Notify # Go [RecvSignal, SendDone] # ?m1"
      "client_handler k [Message True] = [Send (Message True)]" "0 < capacity k"
    using assms by (auto simp: waits_def main_defs start_defs jobcentre_capacity_def traffic_capacity_def)
  note ev = runs_def goto_def spawn_def main_start_def handling_def k
  note st = converse_rtranclp_into_rtranclp
  let ?R = "\<lambda>s. (life_step (\<lambda>n a. True) k)\<^sup>*\<^sup>* s (hung k False m)"
  have "?R (hung k False m)" by simp
  then have "?R (life_of [WgWait # [CloseSocket], [], [AcceptLoop], Select True # [WgDone], []] 1 True [Message True] Open True False m [])"
    by (rule st [rotated], intro step_to [OF receive [where i = 3 and m = "Message True" and ms = "[]"]]) (simp_all add: ev hung_def)
  then have "?R (life_of [?stop, [], [AcceptLoop], ?int, []] 1 False [Message True] Open True False m [])"
    by (rule st [rotated], intro step_to [OF cancel [where i = 0]]) (simp_all add: ev)
  then have "?R (life_of [RecvDone # ?stop, [SendDone], [AcceptLoop], ?int, []] 1 False [Message True] Open True False m [])"
    by (rule st [rotated], intro step_to [OF signal_done [where i = 1 and j = 0]]) (simp_all add: ev)
  then have "?R (life_of [RecvDone # ?stop, [RecvSignal, SendDone], [AcceptLoop], ?int, []] 1 False [Message True] Open True True m [])"
    by (rule st [rotated], intro step_to [OF receive_signal [where i = 1]]) (simp_all add: ev)
  then have "?R (life_of [RecvDone # ?stop, [RecvSignal, SendDone], [AcceptLoop], ?int, []] 1 False [Message True] Open True False (Suc m) [])"
    by (rule st [rotated], intro step_to [OF signal_caught [where n = m]]) (simp_all add: ev)
  then have "?R (life_of [RecvDone # ?stop, [RecvSignal, SendDone], [AcceptLoop], ?int, [Send (Message True)]] 1 False [] Open True False (Suc m) [])"
    by (rule st [rotated], intro step_to [OF send [where i = 4]]) (simp_all add: ev)
  then have "?R (life_of [RecvDone # ?stop, [RecvSignal, SendDone], [AcceptLoop], ?int] 1 False [] Open True False (Suc m) ?c)"
    by (rule st [rotated], intro step_to [OF accept [where i = 2 and ms = "[Message True]" and as = "[]"]]) (simp_all add: ev)
  then have "?R (life_of [RecvDone # ?stop, [RecvSignal, SendDone], [Go ?int, AcceptLoop]] 1 False [] Open True False (Suc m) ?c)"
    by (rule st [rotated], intro step_to [OF go [where i = 2]]) (simp_all add: ev)
  then have "?R (life_of [RecvDone # ?stop, [RecvSignal, SendDone], [WgAdd, Go ?int, AcceptLoop]] 0 False [] Open True False (Suc m) ?c)"
    by (rule st [rotated], intro step_to [OF wg_add [where i = 2]]) (simp_all add: ev)
  then have "?R (life_of [?m1, [RecvSignal, SendDone]] 0 False [] Open True False (Suc m) ?c)"
    by (rule st [rotated], intro step_to [OF go [where i = 0]]) (simp_all add: ev)
  then have "?R (life_of [Go [RecvSignal, SendDone] # ?m1] 0 False [] Open True False (Suc m) ?c)"
    by (rule st [rotated], intro step_to [OF go [where i = 0]]) (simp_all add: ev)
  then have "?R (life_of [Notify # Go [RecvSignal, SendDone] # ?m1] 0 False [] Open False False (Suc m) ?c)"
    by (rule st [rotated], intro step_to [OF notify [where i = 0]]) (simp_all add: ev)
  then show ?thesis
    by (rule st [rotated], intro step_to [OF listen [where i = 0]]) (simp_all add: ev)
qed

text \<open>
  C36: Once a goroutine that \<open>Stop\<close> waits for (the one that owns the state of the job centre or of the
  traffic server, or that of a heartbeat) is in a write to a client that does not read, and \<open>main\<close> has
  asked for the signals and has not yet got through the wait of \<open>Stop\<close>, it never gets through: in no run that follows
  does \<open>main\<close> return, however many signals arrive. Only a failure of the listener, if there is one, ends the process.
\<close>

theorem a_deaf_client_keeps_the_process_running:
  assumes "(life_step (\<lambda>n a. True) k)\<^sup>*\<^sup>* (main_start k as n) s"
    and "i < length (threads s)" and "threads s ! i = Write True # p"
    and "p \<in> {jobcentre_internal, traffic_handlingServer} \<union> range traffic_handleHeartbeath"
    and "notified s" and "WgWait \<in> set (threads s ! 0)"
    and "(life_step (\<lambda>n a. True) k)\<^sup>*\<^sup>* s t"
  shows "WgWait \<in> set (threads t ! 0)
    \<and> (status t = None \<or> (status t = Some (Exited 1) \<and> AcceptFailure \<in> set as))"
proof -
  have "0 < weight p"
    using assms(4) by (auto simp: jobcentre_internal_def traffic_handlingServer_def traffic_handleHeartbeath_def)
  then have "waits_for_ever i p s" using assms(2,3,5,6) by (simp add: waits_for_ever_def)
  from waits_run [OF assms(7) counted_run [OF assms(1) counted_start] this] show ?thesis
    by (auto simp: counted_def waits_for_ever_def)
qed

theorem a_deaf_client_keeps_the_process_running_witness:
  "\<exists>s. (life_step (\<lambda>n a. True) TrafficServer)\<^sup>*\<^sup>* (main_start TrafficServer [Connection [Message True]] 2) s
    \<and> signals s = 1 \<and> (\<forall>t. (life_step (\<lambda>n a. True) TrafficServer)\<^sup>*\<^sup>* s t \<longrightarrow> status t = None)"
proof -
  let ?s = "hung TrafficServer False 1"
  have r: "(life_step (\<lambda>n a. True) TrafficServer)\<^sup>*\<^sup>* (main_start TrafficServer [Connection [Message True]] 2) ?s"
    using hung_reachable [of TrafficServer 1] by (simp add: waits_def numeral_eq_Suc)
  have s: "3 < length (threads ?s)" "threads ?s ! 3 = Write True # traffic_handlingServer" "notified ?s"
    "WgWait \<in> set (threads ?s ! 0)" "signals ?s = 1"
    by (simp_all add: hung_def traffic_handlingServer_def numeral_eq_Suc)
  have "status t = None" if "(life_step (\<lambda>n a. True) TrafficServer)\<^sup>*\<^sup>* ?s t" for t
    using a_deaf_client_keeps_the_process_running [OF r s(1,2) _ s(3,4) that] by auto
  with r s(5) show ?thesis by blast
qed

end
