(* ===== verification/Spec2Isabelle.thy ===== *)
theory Spec2Isabelle
  imports Go_Prelude Go_Machine Balancer Go_IO Reader Counting_Reader Packets Traffic Traffic_Inv Traffic_Run Traffic_Speed Traffic_Client Traffic_Props
    Reader_Returns Udp Db Db_Refine Db_Props Means Smoke Tcp Commands
    Go_Text Jobcentre Jobcentre_Inv Jobcentre_Props Chat Chat_Props Mob Mob_Props
    Go_JSON Go_Utf8 Go_JSON_Text Go_JSON_Numbers Primetime Primetime_Props
    Jobcentre_Data Jobcentre_Data_Props Jobcentre_Client Jobcentre_Responses Jobcentre_Requests Jobcentre_System Genpackets Genpackets_Props Genpackets_Types Life Life_Props
begin

text \<open>
  A verification library for \<^verbatim>\<open>protohackers-go\<close>: eight network servers in one Go program, started by
  \<^verbatim>\<open>main.go\<close> with the name of a server as the command.

  \<^bold>\<open>The program.\<close> \<^verbatim>\<open>server/tcp_server.go\<close> accepts connections, numbers the clients 1, 2, 3, ... and runs a
  handler for each in a goroutine of its own; \<^verbatim>\<open>server/udp_server.go\<close> does the same for the addresses that
  send datagrams. The handlers of the echo server, the prime server and the server of mean prices work on
  their own. Those of the chat server, the traffic server and the job centre decode what their client sends
  and send messages, through a channel, to one goroutine that owns all the state; the proxy runs three
  goroutines per connection; the key-value store has a goroutine per address and one that owns the map.
  \<^verbatim>\<open>reader/\<close> has the binary reads that the traffic server and the mean prices use, \<^verbatim>\<open>genpackets/\<close> the
  generator of the encoders and decoders in \<^verbatim>\<open>traffic/packets_gen.go\<close>.

  \<^bold>\<open>The language and its library.\<close>
    \<^item> \<open>Go_Prelude\<close>: strings and bytes, errors, panics, slices. A Go string or byte slice is a list of bytes.
    \<^item> \<open>Go_Machine\<close>: a goroutine that owns its state is a step function from a state and a message to a panic
      or to a state and effects; the locales \<open>handler_loop\<close> (an invariant keeps such a loop from panicking),
      \<open>traced_loop\<close> (the same with what was sent so far) and \<open>simulation\<close> (one system implements another),
      and the interleavings of messages of clients that open and close their connections (\<open>framed\<close>).
    \<^item> \<open>Go_IO\<close>: \<open>io.Reader\<close> as the locale \<open>io_reader\<close>, the reads of a connection, which returns its bytes in
      segments cut by the network, and the lines of \<open>bufio.Reader\<close>.
    \<^item> \<open>Go_Text\<close>, \<open>Go_Utf8\<close>: runes, white space, fields, trimming; valid UTF-8.
    \<^item> \<open>Go_Float\<close>: rounding to 24 and 53 bits on exact rationals.
    \<^item> \<open>Go_JSON\<close>, \<open>Go_JSON_Text\<close>, \<open>Go_JSON_Numbers\<close>: what \<open>json.Unmarshal\<close> and \<open>json.Marshal\<close> do on the types
      the program uses: a lexer, a parser with a stack of at most 10000 open values, the stores into structs,
      the text of strings and the shortest text of a \<open>float64\<close>.

  \<^bold>\<open>The components.\<close> The definitions bear the names of the code.
    \<^item> \<open>Commands\<close>: \<^verbatim>\<open>main.go\<close>, the table of the servers and the choice of one. \<open>Life\<close> and \<open>Life_Props\<close>: \<open>main\<close> with
      the constructors, \<open>Start\<close> and \<open>Stop\<close> of all servers, as lists of actions of goroutines, and the
      relation \<open>life_step\<close> on the state of the process.
    \<^item> \<open>Tcp\<close>, \<open>Udp\<close>: \<^verbatim>\<open>server/\<close>. \<open>tcp_step\<close> and \<open>udp_step\<close> are one iteration of the loops.
    \<^item> \<open>Reader\<close>, \<open>Counting_Reader\<close>, \<open>Reader_Returns\<close>: \<^verbatim>\<open>reader/\<close>, over any \<open>io.Reader\<close>.
    \<^item> \<open>Packets\<close>: the packets of the traffic server, their encoders and decoders; \<open>Genpackets\<close>,
      \<open>Genpackets_Props\<close> and \<open>Genpackets_Types\<close>: the generator, as a function from the declarations of a file to the statements of
      the methods, and their meaning.
    \<^item> \<open>Balancer\<close>, \<open>Traffic\<close>, \<open>Traffic_Client\<close>, with \<open>Traffic_Inv\<close>, \<open>Traffic_Run\<close>, \<open>Traffic_Speed\<close> and
      \<open>Traffic_Props\<close>: \<^verbatim>\<open>traffic/\<close>. \<open>traffic_step\<close> is one message of \<open>handlingServer\<close>, \<open>HandleClient\<close> the
      goroutine of a client from its segments to its messages, \<open>heartbeat_loop\<close> the heartbeats. The locale
      \<open>round_robin\<close> is what the server relies on in the list of the dispatchers of a road.
    \<^item> \<open>Jobcentre\<close>, \<open>Jobcentre_Client\<close>, \<open>Jobcentre_Data\<close>, \<open>Jobcentre_Responses\<close>, with \<open>Jobcentre_Inv\<close>,
      \<open>Jobcentre_Data_Props\<close>, \<open>Jobcentre_Props\<close>, \<open>Jobcentre_Requests\<close> and \<open>Jobcentre_System\<close>:
      \<^verbatim>\<open>jobcentre/jobcentre.go\<close>, the loop
      \<open>internal\<close> (\<open>jobcentre_step\<close>), the goroutine \<open>handler\<close> of a client (\<open>jc_handler\<close>), the data of the jobs
      and the lines written (\<open>response_line\<close>). The slices of waiters that share an array are modelled with
      their array.
    \<^item> \<open>Chat\<close>, \<open>Chat_Props\<close>: \<^verbatim>\<open>chat/chat.go\<close>; the order in which a loop visits a map is an argument.
    \<^item> \<open>Mob\<close>, \<open>Mob_Props\<close>: \<^verbatim>\<open>mob/mob.go\<close>, the three goroutines as the step relation \<open>relay_step\<close>, in which a
      write to an end that has stopped reading (\<open>peer_step\<close>) does not return.
    \<^item> \<open>Db\<close>, \<open>Db_Refine\<close>, \<open>Db_Props\<close>: \<^verbatim>\<open>db/db.go\<close> on the UDP server, as the step relation \<open>db_step\<close>.
    \<^item> \<open>Means\<close>, \<open>Smoke\<close>, \<open>Primetime\<close>, \<open>Primetime_Props\<close>: the handlers of \<^verbatim>\<open>means/\<close>, \<^verbatim>\<open>smoke_test/\<close> and
      \<^verbatim>\<open>primetime/\<close>.

  \<^bold>\<open>What the theorems show.\<close> The servers do not panic, whatever the clients send and however their
  messages interleave. The traffic server never tickets a plate twice for a day, tickets who is too fast and
  only who is too fast, and sends each ticket to a dispatcher of its road. The job centre loses no job, hands
  out the best one, and no job but those that were put, with their data as they were put, and gives the jobs of
  a client that has gone to those who wait. The key-value store refines an atomic
  one, and a read is answered with the last write. The proxy keeps all lines in order and rewrites exactly the
  addresses; for input that ends its handler returns, unless an end stops reading while it is written to. The chat server
  sends a line to everyone else once. The prime server is right for every number of a request, the mean is
  exact. Encoders and decoders are inverse to each other for strings and slices of at most 255 elements, and only for
  them; what the generator makes of \<^verbatim>\<open>packets.go\<close> is \<^verbatim>\<open>packets_gen.go\<close>, and it decodes to values of the
  types of the fields. After a signal the process ends, if
  the clients read what they are sent; if one does not, the job centre and the traffic server may never end. Where the code does something else than it means to (a job that is handed out twice, a
  datagram that stops the store, two clients with one name, a client that keeps the process alive, an end that blocks the proxy), a theorem shows it.

  \<^bold>\<open>Loops and bounds.\<close> A loop over input that may not end is a partial function (\<open>ReadAll\<close>, \<open>client_loop\<close>,
  \<open>means_loop\<close>), with a theorem that it returns on every stream that ends. The recursion of \<open>isPrime_loop\<close>
  on words is a partial function too: the square can overflow only near 2^63, and no number that a
  \<open>float64\<close> can be leads there. Decimal digits of a \<open>float64\<close> are produced with fuel 1400: a
  \<open>float64\<close> has at most 309 digits before the point and 1074 behind it. In \<open>Life\<close> the input (the connections, their
  messages, the heartbeats) is a list, so that runs end; there is no bound on its length. Integers are words of their width
  (\<open>uint\<close> and \<open>int\<close> of 64 bits) where the code can wrap; ids that count the jobs of a process are integers.

  \<^bold>\<open>Not modelled.\<close> Log output, and with it the level and the colour flag of the command line. The exact times of deadlines and heartbeats (their periods are). The exponent range
  of floats in the traffic server, whose numbers stay far from it. Parsing the Go file and printing the text
  of the generated file, which are left to \<open>go/parser\<close>, \<open>text/template\<close> and \<open>go/format\<close>. The dialling of
  the proxied server, whose failure only ends the goroutine.
\<close>

end
